(* ===== verification/Averin_Base.thy ===== *)
theory Averin_Base
  imports "HOL-Library.Word" "HOL-Library.Char_ord" "HOL-Library.List_Lexorder"
    "HOL-Library.Multiset"
begin

text \<open>
  The prelude of the development: the types every component shares, the named collections the
  component proofs are driven by, and the generic lemmas on bytes, strings, results and lists.

  Rust types are read as follows.
  \<^item> \<open>u8\<close> is \<^typ>\<open>8 word\<close>; \<open>[u8]\<close> and \<open>Vec<u8>\<close> are lists of bytes; a fixed array
    \<open>[u8; N]\<close> is a list whose length the operations establish.
  \<^item> \<open>String\<close> and \<open>&str\<close> are \<^typ>\<open>string\<close>: an Isabelle character is exactly one byte, so a
    string is the UTF-8 text of the Rust string, and \<open>as_bytes\<close> is the same bytes as words.
    Comparison of Rust strings is bytewise lexicographic, which is the library order on strings.
  \<^item> \<open>i64\<close> is \<^typ>\<open>int\<close> together with the range predicate \<open>in_i64\<close>; casts and checked operations
    write the width out. \<open>usize\<close>, \<open>u16\<close> and \<open>u32\<close> counters are \<^typ>\<open>nat\<close>.
  \<^item> \<open>Result<T, E>\<close> is the datatype \<open>result\<close>.
\<close>

unbundle bit_operations_syntax

type_synonym u8 = "8 word"
type_synonym bytes = "u8 list"

named_theorems byte_simps \<open>conversions between bytes, characters and numbers\<close>
named_theorems frame_simps \<open>shape of framed byte strings\<close>

section \<open>Results\<close>

datatype ('a, 'e) result = Ok (unwrap: 'a) | Err (unwrap_err: 'e)

primrec bind_result :: "('a, 'e) result \<Rightarrow> ('a \<Rightarrow> ('b, 'e) result) \<Rightarrow> ('b, 'e) result" where
  "bind_result (Ok a) f = f a"
| "bind_result (Err e) f = Err e"

primrec map_err :: "('e \<Rightarrow> 'f) \<Rightarrow> ('a, 'e) result \<Rightarrow> ('a, 'f) result" where
  "map_err f (Ok a) = Ok a"
| "map_err f (Err e) = Err (f e)"

primrec map_ok :: "('a \<Rightarrow> 'b) \<Rightarrow> ('a, 'e) result \<Rightarrow> ('b, 'e) result" where
  "map_ok f (Ok a) = Ok (f a)"
| "map_ok f (Err e) = Err e"

primrec ok_or :: "'a option \<Rightarrow> 'e \<Rightarrow> ('a, 'e) result" where
  "ok_or None e = Err e"
| "ok_or (Some a) e = Ok a"

primrec ok :: "('a, 'e) result \<Rightarrow> 'a option" where
  "ok (Ok a) = Some a"
| "ok (Err e) = None"

lemma bind_result_eq_Ok [simp]:
  "bind_result r f = Ok b \<longleftrightarrow> (\<exists>a. r = Ok a \<and> f a = Ok b)"
  by (cases r) auto

lemma map_err_eq_Ok [simp]: "map_err f r = Ok a \<longleftrightarrow> r = Ok a"
  by (cases r) auto

lemma map_ok_eq_Ok [simp]: "map_ok f r = Ok b \<longleftrightarrow> (\<exists>a. r = Ok a \<and> b = f a)"
  by (cases r) auto

lemma ok_or_eq_Ok [simp]: "ok_or x e = Ok a \<longleftrightarrow> x = Some a"
  by (cases x) auto

lemma ok_eq_Some [simp]: "ok r = Some a \<longleftrightarrow> r = Ok a"
  by (cases r) auto

section \<open>Bytes and characters\<close>

definition byte_of :: "char \<Rightarrow> u8" where
  "byte_of c = of_nat (of_char c)"

definition char_of_byte :: "u8 \<Rightarrow> char" where
  "char_of_byte b = char_of (unat b)"

definition as_bytes :: "string \<Rightarrow> bytes" where
  "as_bytes s = map byte_of s"

definition text_of :: "bytes \<Rightarrow> string" where
  "text_of bs = map char_of_byte bs"

lemma of_char_less_256: "(of_char c :: nat) < 256"
  by (rule nat_of_char_less_256)

lemma unat_byte_of [byte_simps]: "unat (byte_of c) = of_char c"
  using of_char_less_256 [of c] by (simp add: byte_of_def unat_of_nat)

lemma char_of_byte_of [simp]: "char_of_byte (byte_of c) = c"
  by (simp add: char_of_byte_def unat_byte_of)

lemma byte_of_char_of [simp]: "byte_of (char_of_byte b) = b"
proof -
  have "unat b < 256" using unsigned_less [of b, where ?'a = nat] by simp
  then show ?thesis by (simp add: byte_of_def char_of_byte_def)
qed

lemma byte_of_inject [simp]: "byte_of c = byte_of d \<longleftrightarrow> c = d"
  by (metis char_of_byte_of)

lemma text_of_as_bytes [simp]: "text_of (as_bytes s) = s"
  by (simp add: text_of_def as_bytes_def comp_def)

lemma as_bytes_text_of [simp]: "as_bytes (text_of bs) = bs"
  by (simp add: text_of_def as_bytes_def comp_def)

lemma as_bytes_inject [simp]: "as_bytes s = as_bytes t \<longleftrightarrow> s = t"
  by (metis text_of_as_bytes)

lemma text_of_inject [simp]: "text_of s = text_of t \<longleftrightarrow> s = t"
  by (metis as_bytes_text_of)

lemma length_as_bytes [simp]: "length (as_bytes s) = length s"
  by (simp add: as_bytes_def)

lemma length_text_of [simp]: "length (text_of s) = length s"
  by (simp add: text_of_def)

lemma as_bytes_Nil [simp]: "as_bytes [] = []"
  by (simp add: as_bytes_def)

lemma as_bytes_Cons [simp]: "as_bytes (c # s) = byte_of c # as_bytes s"
  by (simp add: as_bytes_def)

lemma as_bytes_append [simp]: "as_bytes (s @ t) = as_bytes s @ as_bytes t"
  by (simp add: as_bytes_def)

lemma unat_u8_less [simp]: "unat (b :: u8) < 256"
  using unsigned_less [of b, where ?'a = nat] by simp

section \<open>Signed 64-bit integers\<close>

definition in_i64 :: "int \<Rightarrow> bool" where
  "in_i64 n \<longleftrightarrow> - (2 ^ 63) \<le> n \<and> n < 2 ^ 63"

text \<open>\<open>n as u64\<close> for an \<open>i64\<close> value: two's complement reinterpretation.\<close>

definition i64_as_u64 :: "int \<Rightarrow> 64 word" where
  "i64_as_u64 n = word_of_int n"

lemma i64_as_u64_inject:
  assumes "in_i64 m" and "in_i64 n"
  shows "i64_as_u64 m = i64_as_u64 n \<longleftrightarrow> m = n"
proof
  assume "i64_as_u64 m = i64_as_u64 n"
  then have "m mod 2 ^ 64 = n mod 2 ^ 64"
    by (simp add: i64_as_u64_def word_of_int_eq_iff take_bit_eq_mod)
  then have "(2 ^ 64 :: int) dvd m - n"
    by (simp add: mod_eq_dvd_iff)
  moreover have "\<bar>m - n\<bar> < 2 ^ 64"
    using assms by (auto simp: in_i64_def)
  ultimately show "m = n"
    by (meson dvd_imp_le_int not_less right_minus_eq abs_dvd_iff zdvd_not_zless zero_less_abs_iff dvd_abs_iff)
qed simp

section \<open>Exhaustive evaluation over bytes\<close>

lemma u8_all_iff: "(\<forall>b::u8. P b) \<longleftrightarrow> list_all (\<lambda>n. P (of_nat n)) [0..<256]"
proof
  assume "list_all (\<lambda>n. P (of_nat n)) [0..<256]"
  then have *: "P (of_nat n)" if "n < 256" for n
    using that by (simp add: list_all_iff)
  show "\<forall>b::u8. P b" using * [OF unat_u8_less] by simp
qed (simp add: list_all_iff)

section \<open>Strings\<close>

definition strip_prefix :: "'a list \<Rightarrow> 'a list \<Rightarrow> 'a list option" where
  "strip_prefix p s = (if take (length p) s = p then Some (drop (length p) s) else None)"

lemma strip_prefix_append [simp]: "strip_prefix p (p @ s) = Some s"
  by (simp add: strip_prefix_def)

lemma strip_prefix_Some: "strip_prefix p s = Some r \<longleftrightarrow> s = p @ r"
  by (auto simp: strip_prefix_def) (metis append_take_drop_id)

section \<open>Lists\<close>

lemma append_eq_append_same_length:
  "length xs = length ys \<Longrightarrow> xs @ us = ys @ vs \<longleftrightarrow> xs = ys \<and> us = vs"
  by (rule append_eq_append_conv) simp

lemma those_eq_Some: "those xs = Some ys \<longleftrightarrow> xs = map Some ys"
  by (induction xs arbitrary: ys) (auto simp: Cons_eq_map_conv split: option.splits)

lemma those_map_upt: "those (map f [0..<n]) = Some ys \<longleftrightarrow> length ys = n \<and> (\<forall>i<n. f i = Some (ys ! i))"
  by (auto simp: those_eq_Some list_eq_iff_nth_eq)

lemma set_take_drop: "set (take n xs) \<union> set (drop n xs) = set xs"
  by (metis append_take_drop_id set_append)

section \<open>Self-delimiting frames\<close>

text \<open>
  The contract the preimage builders rely on: a frame read from the front of a sequence
  determines its content and the rest. It is interpreted on the UTF-8 and UTF-16 encodings of a
  scalar value, on the length prefix, on big-endian integers and on fixed-width digests.
\<close>

locale frame =
  fixes enc :: "'a \<Rightarrow> 'b list" and fits :: "'a \<Rightarrow> bool"
  assumes enc_split: "fits a \<Longrightarrow> fits b \<Longrightarrow> enc a @ r = enc b @ s \<Longrightarrow> a = b \<and> r = s"
begin

lemma enc_split_iff: "fits a \<Longrightarrow> fits b \<Longrightarrow> enc a @ r = enc b @ s \<longleftrightarrow> a = b \<and> r = s"
  using enc_split by blast

lemma enc_inject: "fits a \<Longrightarrow> fits b \<Longrightarrow> enc a = enc b \<longleftrightarrow> a = b"
  using enc_split [of a b "[]" "[]"] by auto

lemma frames_split:
  "list_all fits as \<Longrightarrow> list_all fits bs \<Longrightarrow> length as = length bs \<Longrightarrow>
   concat (map enc as) @ r = concat (map enc bs) @ s \<Longrightarrow> as = bs \<and> r = s"
proof (induction as bs rule: list_induct2')
  case (4 a as b bs)
  then have "a = b \<and> concat (map enc as) @ r = concat (map enc bs) @ s"
    using enc_split [of a b "concat (map enc as) @ r" "concat (map enc bs) @ s"] by simp
  with 4 show ?case by simp
qed simp_all

text \<open>When no frame is empty the number of frames need not be known.\<close>

lemma frames_inject:
  assumes "\<And>a. fits a \<Longrightarrow> enc a \<noteq> []"
  shows "list_all fits as \<Longrightarrow> list_all fits bs \<Longrightarrow>
    concat (map enc as) = concat (map enc bs) \<Longrightarrow> as = bs"
proof (induction as arbitrary: bs)
  case Nil
  then show ?case using assms by (cases bs) auto
next
  case (Cons a as)
  then obtain b bs' where bs: "bs = b # bs'" using assms by (cases bs) auto
  with Cons.prems have "a = b \<and> concat (map enc as) = concat (map enc bs')"
    using enc_split [of a b "concat (map enc as)" "concat (map enc bs')"] by simp
  with Cons bs show ?case by simp
qed

end

end
