(* ===== verification/Utf8.thy ===== *)
theory Utf8
  imports Averin_Base
begin

text \<open>
  Unicode text as the core handles it: the UTF-8 and UTF-16 encodings of a scalar value
  (\<open>push_utf8\<close>, \<open>push_utf16\<close> of \<open>core/src/canon.rs\<close>), the strict decoding of a whole UTF-8 byte string
  (Unicode table 3-7, which is what the standard library's \<open>from_utf8\<close> accepts), and the invariant
  of every Rust \<open>String\<close>, that its bytes are valid UTF-8.
\<close>

section \<open>Encodings of one scalar value\<close>

definition is_scalar :: "nat \<Rightarrow> bool" where
  "is_scalar c \<longleftrightarrow> c < 0xD800 \<or> (0xE000 \<le> c \<and> c < 0x110000)"

text \<open>\<open>push_utf8\<close> appends to \<open>out\<close>; every \<open>as u8\<close> cast truncates to eight bits.\<close>

definition push_utf8 :: "bytes \<Rightarrow> nat \<Rightarrow> bytes" where
  "push_utf8 out c =
     (if c < 0x80 then out @ [of_nat c]
      else if c < 0x800 then out @ [of_nat (0xC0 + c div 0x40), of_nat (0x80 + c mod 0x40)]
      else if c < 0x10000 then
        out @ [of_nat (0xE0 + c div 0x1000), of_nat (0x80 + c div 0x40 mod 0x40),
               of_nat (0x80 + c mod 0x40)]
      else
        out @ [of_nat (0xF0 + c div 0x40000), of_nat (0x80 + c div 0x1000 mod 0x40),
               of_nat (0x80 + c div 0x40 mod 0x40), of_nat (0x80 + c mod 0x40)])"

definition push_utf16 :: "nat list \<Rightarrow> nat \<Rightarrow> nat list" where
  "push_utf16 units c =
     (if c < 0x10000 then units @ [c mod 2 ^ 16]
      else units @ [(0xD800 + (c - 0x10000) div 0x400) mod 2 ^ 16,
                    (0xDC00 + (c - 0x10000) mod 0x400) mod 2 ^ 16])"

abbreviation utf8_enc :: "nat \<Rightarrow> bytes" where
  "utf8_enc c \<equiv> push_utf8 [] c"

abbreviation utf16_enc :: "nat \<Rightarrow> nat list" where
  "utf16_enc c \<equiv> push_utf16 [] c"

lemma push_utf8_append: "push_utf8 out c = out @ utf8_enc c"
  by (simp add: push_utf8_def)

lemma push_utf16_append: "push_utf16 units c = units @ utf16_enc c"
  by (simp add: push_utf16_def)

lemma utf8_enc_not_Nil [simp]: "utf8_enc c \<noteq> []"
  by (simp add: push_utf8_def)

section \<open>Strict decoding\<close>

definition is_continuation :: "u8 \<Rightarrow> bool" where
  "is_continuation b \<longleftrightarrow> 0x80 \<le> b \<and> b \<le> 0xBF"

text \<open>
  The scalar at the front of a byte string and the bytes after it, if the front is exactly one
  well-formed sequence.
\<close>

definition utf8_front :: "bytes \<Rightarrow> (nat \<times> bytes) option" where
  "utf8_front bs =
     (case bs of
        [] \<Rightarrow> None
      | b0 # r \<Rightarrow>
        if b0 < 0x80 then Some (unat b0, r)
        else if 0xC2 \<le> b0 \<and> b0 < 0xE0 then
          (case r of
             b1 # r' \<Rightarrow>
               if is_continuation b1 then Some ((unat b0 - 0xC0) * 0x40 + (unat b1 - 0x80), r')
               else None
           | _ \<Rightarrow> None)
        else if 0xE0 \<le> b0 \<and> b0 < 0xF0 then
          (case r of
             b1 # b2 # r' \<Rightarrow>
               if (if b0 = 0xE0 then 0xA0 else 0x80) \<le> b1 \<and> b1 \<le> (if b0 = 0xED then 0x9F else 0xBF)
                  \<and> is_continuation b2
               then Some ((unat b0 - 0xE0) * 0x1000 + (unat b1 - 0x80) * 0x40 + (unat b2 - 0x80), r')
               else None
           | _ \<Rightarrow> None)
        else if 0xF0 \<le> b0 \<and> b0 \<le> 0xF4 then
          (case r of
             b1 # b2 # b3 # r' \<Rightarrow>
               if (if b0 = 0xF0 then 0x90 else 0x80) \<le> b1 \<and> b1 \<le> (if b0 = 0xF4 then 0x8F else 0xBF)
                  \<and> is_continuation b2 \<and> is_continuation b3
               then Some ((unat b0 - 0xF0) * 0x40000 + (unat b1 - 0x80) * 0x1000
                          + (unat b2 - 0x80) * 0x40 + (unat b3 - 0x80), r')
               else None
           | _ \<Rightarrow> None)
        else None)"

lemma utf8_front_shorter [dest]: "utf8_front bs = Some (c, r) \<Longrightarrow> length r < length bs"
  by (auto simp: utf8_front_def split: list.splits if_splits)

function utf8_decode :: "bytes \<Rightarrow> nat list option" where
  "utf8_decode bs =
     (if bs = [] then Some []
      else case utf8_front bs of
             None \<Rightarrow> None
           | Some (c, r) \<Rightarrow> (case utf8_decode r of None \<Rightarrow> None | Some cs \<Rightarrow> Some (c # cs)))"
  by pat_completeness auto
termination
  by (relation "measure length") auto

declare utf8_decode.simps [simp del]

definition utf8_valid :: "bytes \<Rightarrow> bool" where
  "utf8_valid bs \<longleftrightarrow> utf8_decode bs \<noteq> None"

text \<open>The standard library's \<open>String::from_utf8\<close>.\<close>

definition from_utf8 :: "bytes \<Rightarrow> string option" where
  "from_utf8 bs = (if utf8_valid bs then Some (text_of bs) else None)"

text \<open>The invariant of a Rust string.\<close>

definition is_str :: "string \<Rightarrow> bool" where
  "is_str s \<longleftrightarrow> utf8_valid (as_bytes s)"

section \<open>Encoding and decoding are inverse\<close>

lemmas word_nat_order = word_less_nat_alt word_le_nat_alt

lemma unat_of_nat_u8: "n < 256 \<Longrightarrow> unat (of_nat n :: u8) = n"
  by (simp add: unat_of_nat)

lemma of_nat_u8_eqI: "unat (b :: u8) = n \<Longrightarrow> of_nat n = b"
  by auto

lemma u8_eq_unat: "(a :: u8) = b \<longleftrightarrow> unat a = unat b"
  by (simp add: word_unat_eq_iff)

text \<open>The base-64 digits of a scalar value, in the form the linear arithmetic below uses.\<close>

lemma digits64:
  fixes c :: nat
  obtains d3 d2 d1 d0 where "c = d3 * 0x40000 + d2 * 0x1000 + d1 * 0x40 + d0"
    and "d2 < 64" "d1 < 64" "d0 < 64"
    and "c mod 0x40 = d0" "c div 0x40 mod 0x40 = d1" "c div 0x1000 mod 0x40 = d2"
    and "c div 0x40 = d3 * 0x1000 + d2 * 0x40 + d1" "c div 0x1000 = d3 * 0x40 + d2"
    and "c div 0x40000 = d3"
proof -
  let ?q = "c div 64" and ?p = "c div 64 div 64"
  have c: "c = ?q * 64 + c mod 64" and q: "?q = ?p * 64 + ?q mod 64"
    and p: "?p = ?p div 64 * 64 + ?p mod 64"
    by (simp_all add: div_mult_mod_eq)
  have d: "c div 0x1000 = ?p" "c div 0x40000 = ?p div 64"
    by (simp_all flip: div_mult2_eq)
  have q': "?q = ?p div 64 * 0x1000 + ?p mod 64 * 0x40 + ?q mod 64"
    using q p by linarith
  then have "c = ?p div 64 * 0x40000 + ?p mod 64 * 0x1000 + ?q mod 64 * 0x40 + c mod 64"
    using c by linarith
  then show ?thesis
    by (rule that) (use q' p in \<open>simp_all add: d\<close>)
qed

lemma utf8_front_1: "unat b0 < 0x80 \<Longrightarrow> utf8_front (b0 # r) = Some (unat b0, r)"
  by (simp add: utf8_front_def word_nat_order)

lemma utf8_front_2:
  "0xC2 \<le> unat b0 \<Longrightarrow> unat b0 < 0xE0 \<Longrightarrow> 0x80 \<le> unat b1 \<Longrightarrow> unat b1 < 0xC0 \<Longrightarrow>
   utf8_front (b0 # b1 # r) = Some ((unat b0 - 0xC0) * 0x40 + (unat b1 - 0x80), r)"
  by (simp add: utf8_front_def word_nat_order is_continuation_def)

lemma utf8_front_3:
  assumes "0xE0 \<le> unat b0" "unat b0 < 0xF0" "0x80 \<le> unat b1" "unat b1 < 0xC0"
    and "unat b0 = 0xE0 \<longrightarrow> 0xA0 \<le> unat b1" "unat b0 = 0xED \<longrightarrow> unat b1 \<le> 0x9F"
    and "0x80 \<le> unat b2" "unat b2 < 0xC0"
  shows "utf8_front (b0 # b1 # b2 # r) =
     Some ((unat b0 - 0xE0) * 0x1000 + (unat b1 - 0x80) * 0x40 + (unat b2 - 0x80), r)"
  using assms by (simp add: utf8_front_def word_nat_order is_continuation_def u8_eq_unat)

lemma utf8_front_4:
  assumes "0xF0 \<le> unat b0" "unat b0 < 0xF5" "0x80 \<le> unat b1" "unat b1 < 0xC0"
    and "unat b0 = 0xF0 \<longrightarrow> 0x90 \<le> unat b1" "unat b0 = 0xF4 \<longrightarrow> unat b1 \<le> 0x8F"
    and "0x80 \<le> unat b2" "unat b2 < 0xC0" "0x80 \<le> unat b3" "unat b3 < 0xC0"
  shows "utf8_front (b0 # b1 # b2 # b3 # r) =
     Some ((unat b0 - 0xF0) * 0x40000 + (unat b1 - 0x80) * 0x1000
           + (unat b2 - 0x80) * 0x40 + (unat b3 - 0x80), r)"
  using assms by (simp add: utf8_front_def word_nat_order is_continuation_def u8_eq_unat)

lemma utf8_front_enc:
  assumes "is_scalar c"
  shows "utf8_front (utf8_enc c @ r) = Some (c, r)"
proof -
  obtain d3 d2 d1 d0 where c: "c = d3 * 0x40000 + d2 * 0x1000 + d1 * 0x40 + d0"
    and d: "d2 < 64" "d1 < 64" "d0 < 64"
    and e: "c mod 0x40 = d0" "c div 0x40 mod 0x40 = d1" "c div 0x1000 mod 0x40 = d2"
      "c div 0x40 = d3 * 0x1000 + d2 * 0x40 + d1" "c div 0x1000 = d3 * 0x40 + d2"
      "c div 0x40000 = d3"
    by (rule digits64)
  have byte: "\<exists>b::u8. b = of_nat n \<and> unat b = n" if "n < 256" for n
    using unat_of_nat_u8 [OF that] by blast
  obtain b0 :: u8 where b0: "of_nat (0x80 + d0) = b0" and u0: "unat b0 = 0x80 + d0"
    using byte [of "0x80 + d0"] d by auto
  obtain b1 :: u8 where b1: "of_nat (0x80 + d1) = b1" and u1: "unat b1 = 0x80 + d1"
    using byte [of "0x80 + d1"] d by auto
  obtain b2 :: u8 where b2: "of_nat (0x80 + d2) = b2" and u2: "unat b2 = 0x80 + d2"
    using byte [of "0x80 + d2"] d by auto
  consider "c < 0x80" | "0x80 \<le> c" "c < 0x800" | "0x800 \<le> c" "c < 0x10000" | "0x10000 \<le> c"
    by linarith
  then show ?thesis
  proof cases
    case 1
    then show ?thesis by (simp add: push_utf8_def utf8_front_1 unat_of_nat_u8)
  next
    case 2
    have z: "d3 = 0" "d2 = 0" using 2 c by linarith+
    then have z': "2 \<le> d1" "d1 < 32" using 2 c d by linarith+
    obtain l :: u8 where l: "of_nat (0xC0 + d1) = l" and ul: "unat l = 0xC0 + d1"
      using byte [of "0xC0 + d1"] z' by auto
    have "utf8_enc c = [l, b0]"
      using 2 unfolding push_utf8_def e z by (simp add: l b0 del: of_nat_add)
    then show ?thesis using z z' d by (simp add: utf8_front_2 ul u0 c)
  next
    case 3
    have "d3 = 0" using 3 c by linarith
    with 3 c d have z: "d3 = 0" "d2 < 16" "d2 = 0 \<longrightarrow> 32 \<le> d1" by linarith+
    have s: "d2 = 13 \<longrightarrow> d1 \<le> 31" using assms c z d unfolding is_scalar_def by linarith
    obtain l :: u8 where l: "of_nat (0xE0 + d2) = l" and ul: "unat l = 0xE0 + d2"
      using byte [of "0xE0 + d2"] z by auto
    have "utf8_enc c = [l, b1, b0]"
      using 3 unfolding push_utf8_def e(1,2,5) z(1) by (simp add: l b0 b1 del: of_nat_add)
    then show ?thesis using z d s by (simp add: utf8_front_3 ul u0 u1 c)
  next
    case 4
    have z: "d3 < 5" "d3 = 0 \<longrightarrow> 16 \<le> d2" "d3 = 4 \<longrightarrow> d2 \<le> 15"
      using 4 c d assms unfolding is_scalar_def by linarith+
    obtain l :: u8 where l: "of_nat (0xF0 + d3) = l" and ul: "unat l = 0xF0 + d3"
      using byte [of "0xF0 + d3"] z by auto
    have "utf8_enc c = [l, b2, b1, b0]"
      using 4 unfolding push_utf8_def e(1,2,3,6) by (simp add: l b0 b1 b2 del: of_nat_add)
    then show ?thesis using z d by (simp add: utf8_front_4 ul u0 u1 u2 c)
  qed
qed

text \<open>Conversely, whatever the strict decoder accepts is the encoding of the scalar it returns.\<close>

lemma base64_digit: "(d::nat) < 0x40 \<Longrightarrow> (n * 0x40 + d) div 0x40 = n \<and> (n * 0x40 + d) mod 0x40 = d"
  by simp

lemma utf8_enc_2:
  assumes "0xC2 \<le> unat (b0::u8)" "unat b0 < 0xE0" "0x80 \<le> unat (b1::u8)" "unat b1 < 0xC0"
  shows "utf8_enc ((unat b0 - 0xC0) * 0x40 + (unat b1 - 0x80)) = [b0, b1]"
proof -
  define p q where "p = unat b0 - 0xC0" and "q = unat b1 - 0x80"
  have u: "unat b0 = 0xC0 + p" "unat b1 = 0x80 + q" "2 \<le> p" "p < 32" "q < 64"
    using assms by (auto simp: p_def q_def)
  have "(p * 0x40 + q) div 0x40 = p" "(p * 0x40 + q) mod 0x40 = q" using u by simp_all
  moreover have "\<not> p * 0x40 + q < 0x80" "p * 0x40 + q < 0x800" using u by linarith+
  ultimately have "utf8_enc (p * 0x40 + q) = [of_nat (0xC0 + p), of_nat (0x80 + q)]"
    by (simp add: push_utf8_def del: of_nat_add)
  then show ?thesis by (simp only: flip: p_def q_def u(1,2)) simp
qed

lemma utf8_enc_3:
  assumes "0xE0 \<le> unat (b0::u8)" "unat b0 < 0xF0" "0x80 \<le> unat (b1::u8)" "unat b1 < 0xC0"
    and "unat b0 = 0xE0 \<longrightarrow> 0xA0 \<le> unat b1" "0x80 \<le> unat (b2::u8)" "unat b2 < 0xC0"
  shows "utf8_enc ((unat b0 - 0xE0) * 0x1000 + (unat b1 - 0x80) * 0x40 + (unat b2 - 0x80)) = [b0, b1, b2]"
proof -
  define p q r where "p = unat b0 - 0xE0" and "q = unat b1 - 0x80" and "r = unat b2 - 0x80"
  have u: "unat b0 = 0xE0 + p" "unat b1 = 0x80 + q" "unat b2 = 0x80 + r" "p < 16" "q < 64" "r < 64"
    and s: "p = 0 \<longrightarrow> 32 \<le> q"
    using assms by (auto simp: p_def q_def r_def)
  let ?c = "p * 0x1000 + q * 0x40 + r"
  have c: "?c = (p * 0x40 + q) * 0x40 + r" by simp
  have d: "?c div 0x40 = p * 0x40 + q" "?c mod 0x40 = r"
    unfolding c using base64_digit u(6) by blast+
  have "?c div 0x1000 = ?c div 0x40 div 0x40" by (simp flip: div_mult2_eq)
  then have "?c div 0x1000 = p" using d u by simp
  moreover have "?c div 0x40 mod 0x40 = q" using d u by simp
  moreover have "\<not> ?c < 0x800" "?c < 0x10000" using u s by linarith+
  ultimately have "utf8_enc ?c = [of_nat (0xE0 + p), of_nat (0x80 + q), of_nat (0x80 + r)]"
    using d by (simp add: push_utf8_def del: of_nat_add)
  then show ?thesis by (simp only: flip: p_def q_def r_def u(1-3)) simp
qed

lemma utf8_enc_4:
  assumes "0xF0 \<le> unat (b0::u8)" "unat b0 < 0xF5" "0x80 \<le> unat (b1::u8)" "unat b1 < 0xC0"
    and "unat b0 = 0xF0 \<longrightarrow> 0x90 \<le> unat b1" "0x80 \<le> unat (b2::u8)" "unat b2 < 0xC0"
    and "0x80 \<le> unat (b3::u8)" "unat b3 < 0xC0"
  shows "utf8_enc ((unat b0 - 0xF0) * 0x40000 + (unat b1 - 0x80) * 0x1000 + (unat b2 - 0x80) * 0x40
           + (unat b3 - 0x80)) = [b0, b1, b2, b3]"
proof -
  define p q r s where "p = unat b0 - 0xF0" and "q = unat b1 - 0x80" and "r = unat b2 - 0x80"
    and "s = unat b3 - 0x80"
  have u: "unat b0 = 0xF0 + p" "unat b1 = 0x80 + q" "unat b2 = 0x80 + r" "unat b3 = 0x80 + s"
    "p < 5" "q < 64" "r < 64" "s < 64"
    and l: "p = 0 \<longrightarrow> 16 \<le> q"
    using assms by (auto simp: p_def q_def r_def s_def)
  let ?c = "p * 0x40000 + q * 0x1000 + r * 0x40 + s"
  have c: "?c = ((p * 0x40 + q) * 0x40 + r) * 0x40 + s" by simp
  have d: "?c div 0x40 = (p * 0x40 + q) * 0x40 + r" "?c mod 0x40 = s"
    unfolding c using base64_digit u(8) by blast+
  have "?c div 0x1000 = ?c div 0x40 div 0x40" by (simp flip: div_mult2_eq)
  then have d': "?c div 0x1000 = p * 0x40 + q" using d u by simp
  have "?c div 0x40000 = ?c div 0x1000 div 0x40" by (simp flip: div_mult2_eq)
  then have "?c div 0x40000 = p" using d' u by simp
  moreover have "?c div 0x40 mod 0x40 = r" "?c div 0x1000 mod 0x40 = q"
    unfolding d(1) d' using base64_digit u by blast+
  moreover have "\<not> ?c < 0x10000" using u l by linarith
  ultimately have "utf8_enc ?c = [of_nat (0xF0 + p), of_nat (0x80 + q), of_nat (0x80 + r), of_nat (0x80 + s)]"
    using d by (simp add: push_utf8_def del: of_nat_add)
  then show ?thesis by (simp only: flip: p_def q_def r_def s_def u(1-4)) simp
qed

lemma utf8_front_cases:
  assumes "utf8_front bs = Some (c, r)"
  obtains (one) b0 where "bs = b0 # r" "c = unat b0" "unat b0 < 0x80"
  | (two) b0 b1 where "bs = b0 # b1 # r" "c = (unat b0 - 0xC0) * 0x40 + (unat b1 - 0x80)"
      "0xC2 \<le> unat b0" "unat b0 < 0xE0" "0x80 \<le> unat b1" "unat b1 < 0xC0"
  | (three) b0 b1 b2 where "bs = b0 # b1 # b2 # r"
      "c = (unat b0 - 0xE0) * 0x1000 + (unat b1 - 0x80) * 0x40 + (unat b2 - 0x80)"
      "0xE0 \<le> unat b0" "unat b0 < 0xF0" "(if unat b0 = 0xE0 then 0xA0 else 0x80) \<le> unat b1"
      "unat b1 \<le> (if unat b0 = 0xED then 0x9F else 0xBF)" "0x80 \<le> unat b2" "unat b2 < 0xC0"
  | (four) b0 b1 b2 b3 where "bs = b0 # b1 # b2 # b3 # r"
      "c = (unat b0 - 0xF0) * 0x40000 + (unat b1 - 0x80) * 0x1000 + (unat b2 - 0x80) * 0x40 + (unat b3 - 0x80)"
      "0xF0 \<le> unat b0" "unat b0 < 0xF5" "(if unat b0 = 0xF0 then 0x90 else 0x80) \<le> unat b1"
      "unat b1 \<le> (if unat b0 = 0xF4 then 0x8F else 0xBF)" "0x80 \<le> unat b2" "unat b2 < 0xC0"
      "0x80 \<le> unat b3" "unat b3 < 0xC0"
proof -
  obtain b0 t where Cons: "bs = b0 # t" using assms by (cases bs) (auto simp: utf8_front_def)
  note front = assms [unfolded Cons utf8_front_def is_continuation_def word_nat_order u8_eq_unat]
  consider "unat b0 < 0x80" | "0xC2 \<le> unat b0" "unat b0 < 0xE0" | "0xE0 \<le> unat b0" "unat b0 < 0xF0"
    | "0xF0 \<le> unat b0" "unat b0 < 0xF5"
    using front by (auto split: if_splits)
  then show ?thesis
  proof cases
    case 1
    with front Cons one show ?thesis by auto
  next
    case 2
    with front obtain b1 where "t = b1 # r" "c = (unat b0 - 0xC0) * 0x40 + (unat b1 - 0x80)"
      "0x80 \<le> unat b1" "unat b1 < 0xC0"
      by (auto split: list.splits if_splits)
    with 2 Cons two show ?thesis by simp
  next
    case 3
    with front obtain b1 b2 where "t = b1 # b2 # r"
      "c = (unat b0 - 0xE0) * 0x1000 + (unat b1 - 0x80) * 0x40 + (unat b2 - 0x80)"
      "(if unat b0 = 0xE0 then 0xA0 else 0x80) \<le> unat b1"
      "unat b1 \<le> (if unat b0 = 0xED then 0x9F else 0xBF)" "0x80 \<le> unat b2" "unat b2 < 0xC0"
      by (auto split: list.splits if_splits)
    with 3 Cons three show ?thesis by metis
  next
    case 4
    with front obtain b1 b2 b3 where "t = b1 # b2 # b3 # r"
      "c = (unat b0 - 0xF0) * 0x40000 + (unat b1 - 0x80) * 0x1000 + (unat b2 - 0x80) * 0x40 + (unat b3 - 0x80)"
      "(if unat b0 = 0xF0 then 0x90 else 0x80) \<le> unat b1"
      "unat b1 \<le> (if unat b0 = 0xF4 then 0x8F else 0xBF)" "0x80 \<le> unat b2" "unat b2 < 0xC0"
      "0x80 \<le> unat b3" "unat b3 < 0xC0"
      by (auto split: list.splits if_splits)
    with 4 Cons four show ?thesis by metis
  qed
qed

lemma utf8_front_Some:
  assumes "utf8_front bs = Some (c, r)"
  shows "bs = utf8_enc c @ r \<and> is_scalar c"
  using assms
proof (cases rule: utf8_front_cases)
  case (one b0)
  then show ?thesis by (simp add: push_utf8_def is_scalar_def)
next
  case (two b0 b1)
  then have "c < 0xD800" by linarith
  then have "is_scalar c" by (simp add: is_scalar_def)
  with two utf8_enc_2 [of b0 b1] show ?thesis by simp
next
  case (three b0 b1 b2)
  have "utf8_enc c = [b0, b1, b2]"
    unfolding three(2) using three by (intro utf8_enc_3) (auto split: if_splits)
  moreover have "is_scalar c" unfolding three(2) is_scalar_def using three(3-8) by (auto split: if_splits)
  ultimately show ?thesis using three(1) by simp
next
  case (four b0 b1 b2 b3)
  have "utf8_enc c = [b0, b1, b2, b3]"
    unfolding four(2) using four by (intro utf8_enc_4) (auto split: if_splits)
  moreover have "is_scalar c" unfolding four(2) is_scalar_def using four(3-10) by (auto split: if_splits)
  ultimately show ?thesis using four(1) by simp
qed

interpretation utf8_frame: frame utf8_enc is_scalar
  by unfold_locales (metis option.inject prod.inject utf8_front_enc)

definition utf8_text :: "nat list \<Rightarrow> bytes" where
  "utf8_text cs = concat (map utf8_enc cs)"

lemma utf8_text_simps [simp]:
  "utf8_text [] = []" "utf8_text (c # cs) = utf8_enc c @ utf8_text cs"
  "utf8_text (cs @ ds) = utf8_text cs @ utf8_text ds"
  by (simp_all add: utf8_text_def)

lemma utf8_decode_text: "list_all is_scalar cs \<Longrightarrow> utf8_decode (utf8_text cs) = Some cs"
proof (induction cs)
  case Nil
  then show ?case by (simp add: utf8_decode.simps)
next
  case (Cons c cs)
  then show ?case
    by (simp add: utf8_decode.simps [of "utf8_enc c @ utf8_text cs"] utf8_front_enc)
qed

lemma utf8_decode_Some:
  "utf8_decode bs = Some cs \<Longrightarrow> bs = utf8_text cs \<and> list_all is_scalar cs"
proof (induction bs arbitrary: cs rule: utf8_decode.induct)
  case (1 bs)
  show ?case
  proof (cases "bs = []")
    case True
    with 1 show ?thesis by (simp add: utf8_decode.simps)
  next
    case False
    with 1(2) obtain c r cs' where f: "utf8_front bs = Some (c, r)"
      and r: "utf8_decode r = Some cs'" and cs: "cs = c # cs'"
      by (auto simp: utf8_decode.simps [of bs] split: option.splits prod.splits)
    from 1(1) [OF False f refl r] utf8_front_Some [OF f] cs show ?thesis by simp
  qed
qed

lemma utf8_valid_iff: "utf8_valid bs \<longleftrightarrow> (\<exists>cs. list_all is_scalar cs \<and> bs = utf8_text cs)"
  using utf8_decode_text utf8_decode_Some unfolding utf8_valid_def by blast

lemma utf8_text_inject:
  "list_all is_scalar cs \<Longrightarrow> list_all is_scalar ds \<Longrightarrow> utf8_text cs = utf8_text ds \<longleftrightarrow> cs = ds"
  by (metis option.inject utf8_decode_text)

lemma utf8_valid_ascii: "list_all (\<lambda>b. b < 0x80) bs \<Longrightarrow> utf8_valid bs"
proof (induction bs)
  case (Cons b bs)
  then show ?case by (auto simp: utf8_valid_def utf8_decode.simps [of "b # bs"] utf8_front_def)
qed (simp add: utf8_valid_def utf8_decode.simps)

lemma utf8_valid_append: "utf8_valid a \<Longrightarrow> utf8_valid b \<Longrightarrow> utf8_valid (a @ b)"
  unfolding utf8_valid_iff by (metis list_all_append utf8_text_simps(3))

end
