(* ===== verification/Hashx.thy ===== *)
theory Hashx
  imports Utf8
begin

text \<open>
  \<open>core/src/hashx.rs\<close>: the length-prefix framing of every preimage (RCP section 9), the lowercase
  hexadecimal spelling of digests and its strict parser. SHA-256 itself is code outside the
  repository: the operations that hash take it as an argument of the model.
\<close>

section \<open>Length prefixes\<close>

definition MAX_LP_LEN :: nat where
  "MAX_LP_LEN = 2 ^ 32 - 1"

text \<open>\<open>to_be_bytes\<close> of an unsigned integer of \<open>n\<close> bytes.\<close>

primrec to_be_bytes :: "nat \<Rightarrow> nat \<Rightarrow> bytes" where
  "to_be_bytes 0 k = []"
| "to_be_bytes (Suc n) k = of_nat (k div 256 ^ n) # to_be_bytes n k"

text \<open>The flag is the returned Boolean, the list the buffer after the call.\<close>

definition lp_into :: "bytes \<Rightarrow> bytes \<Rightarrow> bool \<times> bytes" where
  "lp_into out b =
     (if length b > MAX_LP_LEN then (False, out)
      else (True, out @ to_be_bytes 4 (length b mod 2 ^ 32) @ b))"

definition lp_str_into :: "bytes \<Rightarrow> string \<Rightarrow> bool \<times> bytes" where
  "lp_str_into out s = lp_into out (as_bytes s)"

section \<open>Hexadecimal\<close>

definition HEX :: bytes where
  "HEX = as_bytes ''0123456789abcdef''"

fun hex_lower_into :: "bytes \<Rightarrow> bytes \<Rightarrow> bytes" where
  "hex_lower_into [] out = out"
| "hex_lower_into (x # b) out =
     hex_lower_into b (out @ [HEX ! unat (drop_bit 4 x), HEX ! unat (x AND 0xF)])"

text \<open>The panic is \<open>Code.abort\<close>; \<open>hex_text_is_ascii\<close> below shows that no caller reaches it.\<close>

definition ascii_string :: "bytes \<Rightarrow> string" where
  "ascii_string bs =
     (case from_utf8 bs of
        Some s \<Rightarrow> s
      | None \<Rightarrow> Code.abort (STR ''hex digest text is ASCII'') (\<lambda>_. []))"

definition hex_lower :: "bytes \<Rightarrow> string" where
  "hex_lower b = ascii_string (hex_lower_into b [])"

definition sha256_prefixed :: "(bytes \<Rightarrow> bytes) \<Rightarrow> bytes \<Rightarrow> string" where
  "sha256_prefixed sha256 data =
     ascii_string (hex_lower_into (sha256 data) (as_bytes ''sha256:''))"

definition hex_val :: "u8 \<Rightarrow> u8 option" where
  "hex_val c =
     (if 0x30 \<le> c \<and> c \<le> 0x39 then Some (c - 0x30)
      else if 0x61 \<le> c \<and> c \<le> 0x66 then Some (c - 0x61 + 10)
      else None)"

text \<open>One iteration of the loops of \<open>parse_sha256\<close> and \<open>hex32\<close>: the byte at position \<open>i\<close>.\<close>

definition hex_byte_at :: "bytes \<Rightarrow> nat \<Rightarrow> u8 option" where
  "hex_byte_at bs i =
     (case hex_val (bs ! (2 * i)) of
        None \<Rightarrow> None
      | Some hi \<Rightarrow>
        (case hex_val (bs ! (2 * i + 1)) of
           None \<Rightarrow> None
         | Some lo \<Rightarrow> Some (push_bit 4 hi OR lo)))"

definition hex32 :: "string \<Rightarrow> bytes option" where
  "hex32 s = (if length s \<noteq> 64 then None else those (map (hex_byte_at (as_bytes s)) [0..<32]))"

definition parse_sha256 :: "string \<Rightarrow> bytes option" where
  "parse_sha256 s =
     (case strip_prefix ''sha256:'' s of
        None \<Rightarrow> None
      | Some hex \<Rightarrow>
        if length hex \<noteq> 64 then None
        else those (map (hex_byte_at (as_bytes hex)) [0..<32]))"

section \<open>Facts about hexadecimal digits\<close>

lemma hex_val_HEX: "n < 16 \<Longrightarrow> hex_val (HEX ! n) = Some (of_nat n)"
proof -
  have "list_all (\<lambda>n. hex_val (HEX ! n) = Some (of_nat n)) [0..<16]" by code_simp
  then show "n < 16 \<Longrightarrow> hex_val (HEX ! n) = Some (of_nat n)" by (simp add: list_all_iff)
qed

lemma HEX_hex_val: "hex_val c = Some v \<Longrightarrow> unat v < 16 \<and> HEX ! unat v = c"
proof -
  have "\<forall>c. case hex_val c of None \<Rightarrow> True | Some v \<Rightarrow> unat v < 16 \<and> HEX ! unat v = c"
    unfolding u8_all_iff by code_simp
  then show "hex_val c = Some v \<Longrightarrow> unat v < 16 \<and> HEX ! unat v = c"
    by (auto dest: spec [of _ c])
qed

lemma hex_digits_byte:
  "unat (drop_bit 4 (x::u8)) < 16" "unat (x AND 0xF) < 16"
  "push_bit 4 (drop_bit 4 x) OR (x AND 0xF) = x"
proof -
  have "\<forall>x::u8. unat (drop_bit 4 x) < 16 \<and> unat (x AND 0xF) < 16
      \<and> push_bit 4 (drop_bit 4 x) OR (x AND 0xF) = x"
    unfolding u8_all_iff by code_simp
  then show "unat (drop_bit 4 x) < 16" "unat (x AND 0xF) < 16"
    "push_bit 4 (drop_bit 4 x) OR (x AND 0xF) = x" by auto
qed

lemma hex_byte_digits:
  assumes "unat (h::u8) < 16" and "unat (l::u8) < 16"
  shows "drop_bit 4 (push_bit 4 h OR l) = h" and "(push_bit 4 h OR l) AND 0xF = l"
proof -
  have "list_all (\<lambda>h. list_all (\<lambda>l. drop_bit 4 (push_bit 4 (of_nat h) OR of_nat l) = (of_nat h :: u8)
      \<and> (push_bit 4 (of_nat h) OR of_nat l) AND 0xF = (of_nat l :: u8)) [0..<16]) [0..<16]"
    by code_simp
  then have *: "drop_bit 4 (push_bit 4 (of_nat m) OR of_nat n) = (of_nat m :: u8)
      \<and> (push_bit 4 (of_nat m) OR of_nat n) AND 0xF = (of_nat n :: u8)" if "m < 16" "n < 16" for m n
    using that by (simp add: list_all_iff)
  show "drop_bit 4 (push_bit 4 h OR l) = h" "(push_bit 4 h OR l) AND 0xF = l"
    using * [OF assms] by simp_all
qed

definition hex_text :: "bytes \<Rightarrow> bytes" where
  "hex_text b = concat (map (\<lambda>x. [HEX ! unat (drop_bit 4 x), HEX ! unat (x AND 0xF)]) b)"

lemma hex_lower_into_eq: "hex_lower_into b out = out @ hex_text b"
  by (induction b out rule: hex_lower_into.induct) (simp_all add: hex_text_def)

lemma length_hex_text [simp]: "length (hex_text b) = 2 * length b"
  by (induction b) (simp_all add: hex_text_def)

lemma nth_hex_text:
  "i < length b \<Longrightarrow> hex_text b ! (2 * i) = HEX ! unat (drop_bit 4 (b ! i))"
  "i < length b \<Longrightarrow> hex_text b ! (2 * i + 1) = HEX ! unat ((b ! i) AND 0xF)"
  by (induction b arbitrary: i) (auto simp: hex_text_def nth_Cons split: nat.splits)

lemma HEX_ascii: "n < 16 \<Longrightarrow> HEX ! n < 0x80"
proof -
  have "list_all (\<lambda>n. HEX ! n < 0x80) [0..<16]" by code_simp
  then show "n < 16 \<Longrightarrow> HEX ! n < 0x80" by (simp add: list_all_iff)
qed

lemma hex_text_ascii: "list_all (\<lambda>c. c < 0x80) (hex_text b)"
  by (induction b) (simp_all add: hex_text_def HEX_ascii hex_digits_byte)

lemma hex_text_is_ascii:
  "list_all (\<lambda>c. c < 0x80) p \<Longrightarrow> from_utf8 (hex_lower_into b p) = Some (text_of (p @ hex_text b))"
  by (simp add: hex_lower_into_eq from_utf8_def utf8_valid_ascii hex_text_ascii)

lemma sha256_prefix_ascii: "list_all (\<lambda>c. c < 0x80) (as_bytes ''sha256:'')"
  by code_simp

lemma hex_lower_eq: "hex_lower b = text_of (hex_text b)"
  by (simp add: hex_lower_def ascii_string_def hex_text_is_ascii)

lemma sha256_prefixed_eq: "sha256_prefixed h data = ''sha256:'' @ hex_lower (h data)"
  unfolding sha256_prefixed_def ascii_string_def hex_text_is_ascii [OF sha256_prefix_ascii] hex_lower_eq
  by (simp add: text_of_def as_bytes_def)

lemma length_hex_lower [simp]: "length (hex_lower b) = 2 * length b"
  by (simp add: hex_lower_eq)

lemma hex_byte_at_text: "i < length b \<Longrightarrow> hex_byte_at (hex_text b) i = Some (b ! i)"
  using nth_hex_text [of i b]
  by (simp add: hex_byte_at_def hex_val_HEX hex_digits_byte del: One_nat_def)

lemma hex_byte_at_Some:
  "hex_byte_at s i = Some x \<Longrightarrow>
     s ! (2 * i) = HEX ! unat (drop_bit 4 x) \<and> s ! (2 * i + 1) = HEX ! unat (x AND 0xF)"
proof -
  assume "hex_byte_at s i = Some x"
  then obtain h l where d: "hex_val (s ! (2 * i)) = Some h" "hex_val (s ! (2 * i + 1)) = Some l"
    and x: "x = push_bit 4 h OR l"
    by (auto simp: hex_byte_at_def split: option.splits)
  from d [THEN HEX_hex_val] have "unat h < 16" "unat l < 16" by blast+
  then have "drop_bit 4 x = h" "x AND 0xF = l" unfolding x by (rule hex_byte_digits)+
  with d [THEN HEX_hex_val] show ?thesis by simp
qed

lemma nth_even_odd_equalityI:
  assumes "length xs = 2 * n" "length ys = 2 * n"
    and "\<And>i. i < n \<Longrightarrow> xs ! (2 * i) = ys ! (2 * i) \<and> xs ! (2 * i + 1) = ys ! (2 * i + 1)"
  shows "xs = ys"
proof (rule nth_equalityI)
  fix j assume "j < length xs"
  then have "j div 2 < n" using assms by auto
  then show "xs ! j = ys ! j"
    using assms(3) [of "j div 2"] by (cases "even j") (simp_all add: odd_two_times_div_two_succ)
qed (use assms in simp)

lemma hex32_iff: "hex32 s = Some d \<longleftrightarrow> length d = 32 \<and> s = hex_lower d"
proof
  assume "hex32 s = Some d"
  then have s: "length s = 64" and d: "length d = 32"
    and at: "\<And>i. i < 32 \<Longrightarrow> hex_byte_at (as_bytes s) i = Some (d ! i)"
    by (auto simp: hex32_def those_map_upt split: if_splits)
  have "as_bytes s = hex_text d"
    by (rule nth_even_odd_equalityI [of _ 32])
       (use s d in \<open>auto simp: nth_hex_text simp del: One_nat_def dest!: at [THEN hex_byte_at_Some]\<close>)
  then have "s = hex_lower d" by (metis hex_lower_eq text_of_as_bytes)
  with d show "length d = 32 \<and> s = hex_lower d" by simp
next
  assume "length d = 32 \<and> s = hex_lower d"
  then show "hex32 s = Some d"
    by (auto simp: hex32_def those_map_upt hex_lower_eq hex_byte_at_text)
qed

lemma parse_sha256_hex32:
  "parse_sha256 s = (case strip_prefix ''sha256:'' s of None \<Rightarrow> None | Some hex \<Rightarrow> hex32 hex)"
  by (simp add: parse_sha256_def hex32_def split: option.split)

lemma parse_sha256_iff:
  "parse_sha256 s = Some d \<longleftrightarrow> length d = 32 \<and> s = ''sha256:'' @ hex_lower d"
  by (auto simp: parse_sha256_hex32 hex32_iff strip_prefix_Some split: option.splits)
     (metis Cons_eq_appendI append_Nil option.distinct(1) strip_prefix_append)

lemma hex_text_inject [simp]: "hex_text a = hex_text b \<longleftrightarrow> a = b"
proof
  assume e: "hex_text a = hex_text b"
  then have "length (hex_text a) = length (hex_text b)" by simp
  then have l: "length a = length b" by simp
  show "a = b"
    by (rule nth_equalityI [OF l])
       (metis e l hex_byte_at_text option.inject)
qed simp

lemma hex_lower_inject [simp]: "hex_lower a = hex_lower b \<longleftrightarrow> a = b"
  by (simp add: hex_lower_eq)

lemma sha256_prefixed_inject [simp]:
  "sha256_prefixed h a = sha256_prefixed h b \<longleftrightarrow> h a = h b"
  by (simp add: sha256_prefixed_eq)

section \<open>Length prefixes are frames\<close>

lemma length_to_be_bytes [simp, frame_simps]: "length (to_be_bytes n k) = n"
  by (induction n) simp_all

lemma to_be_bytes_mod: "to_be_bytes n k = to_be_bytes n (k mod 256 ^ n)"
proof (induction n arbitrary: k)
  case (Suc n)
  have "(of_nat (k div 256 ^ n) :: u8) = of_nat (k mod 256 ^ Suc n div 256 ^ n)"
    by (rule word_unat_eq_iff [THEN iffD2])
       (simp add: unat_of_nat mod_mult2_eq div_mult2_eq mult.commute [of 256])
  moreover have "to_be_bytes n (k mod 256 ^ Suc n) = to_be_bytes n k"
    using Suc [of "k mod 256 ^ Suc n"] Suc [of k] by (simp add: mod_mod_cancel)
  ultimately show ?case by simp
qed simp

lemma to_be_bytes_inject:
  "j < 256 ^ n \<Longrightarrow> k < 256 ^ n \<Longrightarrow> to_be_bytes n j = to_be_bytes n k \<longleftrightarrow> j = k"
proof (induction n arbitrary: j k)
  case (Suc n)
  have d: "j div 256 ^ n < 256" "k div 256 ^ n < 256"
    using Suc.prems by (simp_all add: less_mult_imp_div_less mult.commute)
  have "to_be_bytes n j = to_be_bytes n k \<longleftrightarrow> j mod 256 ^ n = k mod 256 ^ n"
    using Suc.IH [of "j mod 256 ^ n" "k mod 256 ^ n"] by (simp flip: to_be_bytes_mod)
  moreover have "(of_nat (j div 256 ^ n) :: u8) = of_nat (k div 256 ^ n) \<longleftrightarrow> j div 256 ^ n = k div 256 ^ n"
    using d by (metis unat_of_nat_u8)
  ultimately show ?case by (auto) (metis div_mult_mod_eq)
qed simp

text \<open>The frame \<open>lp_into\<close> appends.\<close>

definition lp :: "bytes \<Rightarrow> bytes" where
  "lp b = to_be_bytes 4 (length b) @ b"

abbreviation lp_fits :: "bytes \<Rightarrow> bool" where
  "lp_fits b \<equiv> length b \<le> MAX_LP_LEN"

lemma lp_into_eq: "lp_into out b = (if lp_fits b then (True, out @ lp b) else (False, out))"
  by (simp add: lp_into_def lp_def MAX_LP_LEN_def)

lemma lp_not_Nil [simp]: "lp b \<noteq> []"
  using length_to_be_bytes [of 4 "length b"] by (auto simp: lp_def simp del: length_to_be_bytes)

interpretation lp_frame: frame lp lp_fits
proof
  fix a b r s assume fits: "lp_fits a" "lp_fits b" and eq: "lp a @ r = lp b @ s"
  then have len: "to_be_bytes 4 (length a) = to_be_bytes 4 (length b)" and rest: "a @ r = b @ s"
    by (simp_all add: lp_def append_eq_append_conv)
  have "length a < 256 ^ 4" "length b < 256 ^ 4" using fits by (simp_all add: MAX_LP_LEN_def)
  then have "length a = length b" using len to_be_bytes_inject by blast
  with rest show "a = b \<and> r = s" by simp
qed

definition be8 :: "64 word \<Rightarrow> bytes" where
  "be8 n = to_be_bytes 8 (unat n)"

lemma unat_u64_less: "unat (n :: 64 word) < 256 ^ 8"
  using unsigned_less [of n, where ?'a = nat] by simp

lemma be8_inject: "to_be_bytes 8 (unat a) = to_be_bytes 8 (unat b) \<longleftrightarrow> a = b" for a b :: "64 word"
  using to_be_bytes_inject [OF unat_u64_less unat_u64_less, of a b] by (metis word_unat_eq_iff)

interpretation be8_frame: frame be8 "\<lambda>_. True"
proof
  fix a b :: "64 word" and r s assume eq: "be8 a @ r = be8 b @ s"
  then have "to_be_bytes 8 (unat a) = to_be_bytes 8 (unat b)" and "r = s"
    by (simp_all add: be8_def append_eq_append_conv)
  then show "a = b \<and> r = s"
    by (simp add: be8_inject)
qed

interpretation digest_frame: frame "\<lambda>b. b" "\<lambda>b. length b = 32"
  by unfold_locales (simp add: append_eq_append_conv)

end
