(* ===== verification/B64.thy ===== *)
theory B64
  imports Hashx
begin

text \<open>
  \<open>core/src/b64.rs\<close>: base64url without padding. The encoder and the strict decoder are modelled on
  the same 32-bit accumulators the code uses; the decoder's error texts are represented by the value
  they format. The result of the theory is \<open>decode_iff\<close>: a text decodes to \<open>b\<close> exactly when it is the
  encoding of \<open>b\<close>, so every byte string has one accepted spelling.
\<close>

type_synonym u32 = "32 word"

definition ENC :: bytes where
  "ENC = as_bytes ''ABCDEFGHIJKLMNOPQRSTUVWXYZabcdefghijklmnopqrstuvwxyz0123456789-_''"

text \<open>The standard library's \<open>slice::chunks\<close>, and \<open>*chunk.get(i).unwrap_or(&0)\<close>.\<close>

fun chunks :: "nat \<Rightarrow> 'a list \<Rightarrow> 'a list list" where
  "chunks n [] = []"
| "chunks n (x # xs) = (if n = 0 then [] else take n (x # xs) # chunks n (drop n (x # xs)))"

declare chunks.simps(2) [simp del]

definition get_or_0 :: "bytes \<Rightarrow> nat \<Rightarrow> u8" where
  "get_or_0 chunk i = (if i < length chunk then chunk ! i else 0)"

definition encode_chunk :: "bytes \<Rightarrow> bytes \<times> nat" where
  "encode_chunk chunk =
     (let b0 = ucast (chunk ! 0) :: u32;
          b1 = ucast (get_or_0 chunk 1) :: u32;
          b2 = ucast (get_or_0 chunk 2) :: u32;
          n = push_bit 16 b0 OR push_bit 8 b1 OR b2
      in ([ENC ! unat (drop_bit 18 n AND 63),
           ENC ! unat (drop_bit 12 n AND 63),
           if length chunk > 1 then ENC ! unat (drop_bit 6 n AND 63) else 0,
           if length chunk > 2 then ENC ! unat (n AND 63) else 0],
          length chunk + 1))"

text \<open>\<open>out.push(symbol as char)\<close> appends the UTF-8 encoding of the code point \<open>symbol\<close>.\<close>

definition encode :: "bytes \<Rightarrow> string" where
  "encode input =
     text_of (fold (\<lambda>chunk out.
                case encode_chunk chunk of
                  (symbols, len) \<Rightarrow> fold (\<lambda>symbol out. push_utf8 out (unat symbol)) (take len symbols) out)
              (chunks 3 input) [])"

definition val :: "u8 \<Rightarrow> u8 option" where
  "val c =
     (if 0x41 \<le> c \<and> c \<le> 0x5A then Some (c - 0x41)
      else if 0x61 \<le> c \<and> c \<le> 0x7A then Some (c - 0x61 + 26)
      else if 0x30 \<le> c \<and> c \<le> 0x39 then Some (c - 0x30 + 52)
      else if c = 0x2D then Some 62
      else if c = 0x5F then Some 63
      else None)"

datatype decode_error = InvalidChar u8 | InvalidLength | NonCanonical

text \<open>
  A chunk of no or more than four values is the \<open>unreachable!()\<close> arm; \<open>chunks 4\<close> produces none.
\<close>

definition decode_chunk :: "bytes \<Rightarrow> (bytes \<times> nat, decode_error) result" where
  "decode_chunk chunk =
     (if length chunk = 1 then Err InvalidLength
      else if 2 \<le> length chunk \<and> length chunk \<le> 4 then
        (let n = push_bit 18 (ucast (chunk ! 0)) OR push_bit 12 (ucast (chunk ! 1))
                 OR push_bit 6 (ucast (get_or_0 chunk 2)) OR (ucast (get_or_0 chunk 3) :: u32)
         in if length chunk = 2 \<and> n AND 0xFFFF \<noteq> 0 \<or> length chunk = 3 \<and> n AND 0xFF \<noteq> 0
            then Err NonCanonical
            else Ok ([ucast (drop_bit 16 n), ucast (drop_bit 8 n), ucast n], length chunk - 1))
      else Code.abort (STR ''unreachable'') (\<lambda>_. Err InvalidLength))"

fun b64_vals :: "bytes \<Rightarrow> (bytes, decode_error) result" where
  "b64_vals [] = Ok []"
| "b64_vals (c # cs) =
     bind_result (ok_or (val c) (InvalidChar c)) (\<lambda>v. map_ok (\<lambda>vs. v # vs) (b64_vals cs))"

fun decode_chunks :: "bytes list \<Rightarrow> (bytes, decode_error) result" where
  "decode_chunks [] = Ok []"
| "decode_chunks (chunk # rest) =
     bind_result (decode_chunk chunk)
       (\<lambda>(bs, len). map_ok (\<lambda>out. take len bs @ out) (decode_chunks rest))"

definition decode_typed :: "string \<Rightarrow> (bytes, decode_error) result" where
  "decode_typed s = bind_result (b64_vals (as_bytes s)) (\<lambda>vals. decode_chunks (chunks 4 vals))"

datatype b64_error = DecodeError decode_error | WrongLength nat nat

definition decode :: "string \<Rightarrow> (bytes, b64_error) result" where
  "decode s = map_err DecodeError (decode_typed s)"

definition decode_fixed :: "nat \<Rightarrow> string \<Rightarrow> (bytes, b64_error) result" where
  "decode_fixed n s =
     bind_result (decode s) (\<lambda>v. if length v \<noteq> n then Err (WrongLength n (length v)) else Ok v)"

section \<open>Three bytes and four sextets of one accumulator\<close>

definition join8 :: "u8 \<Rightarrow> u8 \<Rightarrow> u8 \<Rightarrow> u32" where
  "join8 x y z = push_bit 16 (ucast x) OR push_bit 8 (ucast y) OR ucast z"

definition join6 :: "u8 \<Rightarrow> u8 \<Rightarrow> u8 \<Rightarrow> u8 \<Rightarrow> u32" where
  "join6 a b c d = push_bit 18 (ucast a) OR push_bit 12 (ucast b) OR push_bit 6 (ucast c) OR ucast d"

abbreviation sextet :: "u8 \<Rightarrow> bool" where
  "sextet v \<equiv> take_bit 6 v = v"

lemma and_63: "(w::u32) AND 63 = take_bit 6 w"
  by (simp add: take_bit_eq_mask mask_eq_exp_minus_1)

lemma bit_u8_less: "bit (v::u8) n \<Longrightarrow> n < 8"
  using bit_imp_le_length by force

lemma bit_sextet_less: "sextet v \<Longrightarrow> bit v n \<Longrightarrow> n < 6"
  by (metis bit_take_bit_iff)

lemma not_bit_24: "take_bit 24 n = n \<Longrightarrow> 24 \<le> i \<Longrightarrow> \<not> bit (n::u32) i"
  by (metis bit_take_bit_iff not_less)

lemma split8 [byte_simps]:
  "ucast (drop_bit 16 (join8 x y z)) = x" "ucast (drop_bit 8 (join8 x y z)) = y"
  "ucast (join8 x y z) = z"
  unfolding join8_def by (rule bit_word_eqI; auto simp: bit_simps dest: bit_u8_less)+

lemma split6 [byte_simps]:
  assumes "sextet a" "sextet b" "sextet c" "sextet d"
  shows "drop_bit 18 (join6 a b c d) AND 63 = ucast a" "drop_bit 12 (join6 a b c d) AND 63 = ucast b"
    "drop_bit 6 (join6 a b c d) AND 63 = ucast c" "join6 a b c d AND 63 = ucast d"
  using assms [THEN bit_sextet_less]
  unfolding join6_def and_63 by - (rule bit_word_eqI; fastforce simp: bit_simps)+

lemma join8_split:
  "take_bit 24 n = n \<Longrightarrow> join8 (ucast (drop_bit 16 n)) (ucast (drop_bit 8 n)) (ucast n) = n"
proof (rule bit_word_eqI)
  fix i :: nat assume n: "take_bit 24 n = n"
  consider "i < 8" | "8 \<le> i" "i < 16" | "16 \<le> i" "i < 24" | "24 \<le> i" by linarith
  then show "bit (join8 (ucast (drop_bit 16 n)) (ucast (drop_bit 8 n)) (ucast n)) i = bit n i"
    by cases (auto simp: join8_def bit_simps not_bit_24 [OF n])
qed

lemma join6_split:
  "take_bit 24 n = n \<Longrightarrow>
   join6 (ucast (drop_bit 18 n AND 63)) (ucast (drop_bit 12 n AND 63)) (ucast (drop_bit 6 n AND 63))
     (ucast (n AND 63)) = n"
proof (rule bit_word_eqI)
  fix i :: nat assume n: "take_bit 24 n = n"
  consider "i < 6" | "6 \<le> i" "i < 12" | "12 \<le> i" "i < 18" | "18 \<le> i" "i < 24" | "24 \<le> i" by linarith
  then show "bit (join6 (ucast (drop_bit 18 n AND 63)) (ucast (drop_bit 12 n AND 63))
      (ucast (drop_bit 6 n AND 63)) (ucast (n AND 63))) i = bit n i"
    by cases (auto simp: join6_def and_63 bit_simps not_bit_24 [OF n])
qed

lemma join8_24: "take_bit 24 (join8 x y z) = join8 x y z"
  by (rule bit_word_eqI) (auto simp: join8_def bit_simps dest: bit_u8_less)

lemma join6_24:
  assumes "sextet a" "sextet b" "sextet c" "sextet d"
  shows "take_bit 24 (join6 a b c d) = join6 a b c d"
  using assms [THEN bit_sextet_less] by - (rule bit_word_eqI, fastforce simp: join6_def bit_simps)

section \<open>The alphabet\<close>

lemma val_ENC: "n < 64 \<Longrightarrow> val (ENC ! n) = Some (of_nat n)"
proof -
  have "list_all (\<lambda>n. val (ENC ! n) = Some (of_nat n)) [0..<64]" by code_simp
  then show "n < 64 \<Longrightarrow> val (ENC ! n) = Some (of_nat n)" by (simp add: list_all_iff)
qed

lemma ENC_ascii: "n < 64 \<Longrightarrow> unat (ENC ! n) < 0x80"
proof -
  have "list_all (\<lambda>n. unat (ENC ! n) < 0x80) [0..<64]" by code_simp
  then show "n < 64 \<Longrightarrow> unat (ENC ! n) < 0x80" by (simp add: list_all_iff)
qed

lemma ENC_val: "val c = Some v \<Longrightarrow> sextet v \<and> ENC ! unat v = c"
proof -
  have "\<forall>c. case val c of None \<Rightarrow> True | Some v \<Rightarrow> take_bit 6 v = v \<and> ENC ! unat v = c"
    unfolding u8_all_iff by code_simp
  then show "val c = Some v \<Longrightarrow> sextet v \<and> ENC ! unat v = c"
    by (auto dest: spec [of _ c])
qed

lemma unat_sextet: "sextet v \<Longrightarrow> unat v < 64"
proof -
  have "\<forall>v::u8. take_bit 6 v = v \<longrightarrow> unat v < 64" unfolding u8_all_iff by code_simp
  then show "sextet v \<Longrightarrow> unat v < 64" by blast
qed

lemma b64_vals_iff:
  "b64_vals cs = Ok vs \<longleftrightarrow> list_all sextet vs \<and> cs = map (\<lambda>v. ENC ! unat v) vs"
proof (induction cs arbitrary: vs)
  case (Cons c cs)
  have "val c = Some v \<longleftrightarrow> sextet v \<and> c = ENC ! unat v" for v
    using ENC_val [of c v] val_ENC [OF unat_sextet, of v] by auto
  with Cons show ?case by (cases vs) auto
qed auto

section \<open>One chunk\<close>

definition enc_chunk :: "bytes \<Rightarrow> bytes" where
  "enc_chunk chunk = take (snd (encode_chunk chunk)) (fst (encode_chunk chunk))"

definition symbols :: "bytes \<Rightarrow> bytes" where
  "symbols vs = map (\<lambda>v. ENC ! unat v) vs"

lemma unat_and_63: "unat ((n::u32) AND 63) < 64"
proof -
  have "n AND 63 \<le> 63" by (rule word_and_le1)
  then show ?thesis by (simp add: word_le_nat_alt)
qed

lemma ucast_sextet: "sextet (ucast ((n::u32) AND 63))"
  by (rule bit_word_eqI) (auto simp: and_63 bit_simps)

lemma unat_ucast_sextet: "unat (ucast ((n::u32) AND 63) :: u8) = unat (n AND 63)"
  using unat_and_63 [of n] by (simp add: unsigned_ucast_eq take_bit_nat_eq_self)

lemma unat_ucast_u8: "unat (ucast (v::u8) :: u32) = unat v"
  by (simp add: unsigned_ucast_eq take_bit_nat_eq_self less_trans [OF unat_u8_less])

lemma sextet_0 [simp]: "sextet 0"
  by simp

lemma enc_chunk_1:
  "enc_chunk [x] = (let n = join8 x 0 0 in [ENC ! unat (drop_bit 18 n AND 63), ENC ! unat (drop_bit 12 n AND 63)])"
  by (simp add: enc_chunk_def encode_chunk_def join8_def get_or_0_def Let_def)

lemma enc_chunk_2:
  "enc_chunk [x, y] = (let n = join8 x y 0 in [ENC ! unat (drop_bit 18 n AND 63),
     ENC ! unat (drop_bit 12 n AND 63), ENC ! unat (drop_bit 6 n AND 63)])"
  by (simp add: enc_chunk_def encode_chunk_def join8_def get_or_0_def Let_def)

lemma enc_chunk_3:
  "enc_chunk [x, y, z] = (let n = join8 x y z in [ENC ! unat (drop_bit 18 n AND 63),
     ENC ! unat (drop_bit 12 n AND 63), ENC ! unat (drop_bit 6 n AND 63), ENC ! unat (n AND 63)])"
  by (simp add: enc_chunk_def encode_chunk_def join8_def get_or_0_def Let_def)

lemma decode_chunk_2:
  "decode_chunk [a, b] = (let n = join6 a b 0 0 in
     if n AND 0xFFFF \<noteq> 0 then Err NonCanonical
     else Ok ([ucast (drop_bit 16 n), ucast (drop_bit 8 n), ucast n], 1))"
  by (simp add: decode_chunk_def join6_def get_or_0_def Let_def)

lemma decode_chunk_3:
  "decode_chunk [a, b, c] = (let n = join6 a b c 0 in
     if n AND 0xFF \<noteq> 0 then Err NonCanonical
     else Ok ([ucast (drop_bit 16 n), ucast (drop_bit 8 n), ucast n], 2))"
  by (simp add: decode_chunk_def join6_def get_or_0_def Let_def)

lemma decode_chunk_4:
  "decode_chunk [a, b, c, d] = (let n = join6 a b c d in
     Ok ([ucast (drop_bit 16 n), ucast (drop_bit 8 n), ucast n], 3))"
  by (simp add: decode_chunk_def join6_def get_or_0_def Let_def numeral_3_eq_3 numeral_2_eq_2)

lemma low_bits_join8:
  "join8 x 0 0 AND 0xFFFF = 0" "join8 x y 0 AND 0xFF = 0"
  "drop_bit 6 (join8 x 0 0) AND 63 = 0" "join8 x 0 0 AND 63 = 0" "join8 x y 0 AND 63 = 0"
proof -
  have m: "(0xFFFF::u32) = mask 16" "(0xFF::u32) = mask 8" "(63::u32) = mask 6"
    by (simp_all add: mask_eq_exp_minus_1)
  show "join8 x 0 0 AND 0xFFFF = 0" "join8 x y 0 AND 0xFF = 0"
    "drop_bit 6 (join8 x 0 0) AND 63 = 0" "join8 x 0 0 AND 63 = 0" "join8 x y 0 AND 63 = 0"
    unfolding m by (rule bit_word_eqI; auto simp: join8_def bit_simps)+
qed

lemma low_bits_zero:
  "(n::u32) AND 0xFFFF = 0 \<Longrightarrow> ucast n = (0::u8) \<and> ucast (drop_bit 8 n) = (0::u8)"
  "n AND 0xFF = 0 \<Longrightarrow> ucast n = (0::u8)"
proof -
  have m: "(0xFFFF::u32) = mask 16" "(0xFF::u32) = mask 8"
    by (simp_all add: mask_eq_exp_minus_1)
  have b: "n AND mask k = 0 \<Longrightarrow> i < k \<Longrightarrow> i < 32 \<Longrightarrow> \<not> bit n i" for k i
    using bit_and_iff [of n "mask k" i] by (simp add: bit_simps)
  show "n AND 0xFFFF = 0 \<Longrightarrow> ucast n = (0::u8) \<and> ucast (drop_bit 8 n) = (0::u8)"
    unfolding m by (auto intro!: bit_word_eqI simp: bit_simps b)
  show "n AND 0xFF = 0 \<Longrightarrow> ucast n = (0::u8)"
    unfolding m by (auto intro!: bit_word_eqI simp: bit_simps b)
qed

lemma sextets_join6:
  assumes "sextet a" "sextet b" "sextet c" "sextet d" and n: "join6 a b c d = n"
  shows "ENC ! unat (drop_bit 18 n AND 63) = ENC ! unat a" "ENC ! unat (drop_bit 12 n AND 63) = ENC ! unat b"
    "ENC ! unat (drop_bit 6 n AND 63) = ENC ! unat c" "ENC ! unat (n AND 63) = ENC ! unat d"
  unfolding n [symmetric] split6 [OF assms(1-4)] unat_ucast_u8 by (rule refl)+

lemma short_list_cases:
  assumes "xs \<noteq> []" "length xs \<le> 4"
  obtains a where "xs = [a]" | a b where "xs = [a, b]" | a b c where "xs = [a, b, c]"
    | a b c d where "xs = [a, b, c, d]"
proof -
  have "length xs \<noteq> 0" using assms by simp
  then have "length xs = 1 \<or> length xs = 2 \<or> length xs = 3 \<or> length xs = 4"
    using assms(2) by linarith
  then show ?thesis using that by (auto simp: length_Suc_conv numeral_eq_Suc)
qed

lemma decode_enc_chunk:
  assumes "c \<noteq> []" "length c \<le> 3"
  obtains vs bs k where "list_all sextet vs" "symbols vs = enc_chunk c" "length vs = Suc (length c)"
    "decode_chunk vs = Ok (bs, k)" "take k bs = c"
proof -
  have c4: "length c \<le> 4" using assms by simp
  let ?v = "\<lambda>k n. ucast (drop_bit k n AND 63) :: u8"
  note ex = symbols_def unat_ucast_sextet ucast_sextet Let_def
  note join = join6_split [OF join8_24]
  show ?thesis
  proof (rule short_list_cases [OF assms(1) c4])
    fix x assume c: "c = [x]"
    let ?n = "join8 x 0 0"
    have "join6 (?v 18 ?n) (?v 12 ?n) 0 0 = ?n" using join [of x 0 0] by (simp add: low_bits_join8)
    then show ?thesis
      using that [of "[?v 18 ?n, ?v 12 ?n]"]
      by (simp add: c ex enc_chunk_1 decode_chunk_2 low_bits_join8 byte_simps)
  next
    fix x y assume c: "c = [x, y]"
    let ?n = "join8 x y 0"
    have "join6 (?v 18 ?n) (?v 12 ?n) (?v 6 ?n) 0 = ?n" using join [of x y 0] by (simp add: low_bits_join8)
    then show ?thesis
      using that [of "[?v 18 ?n, ?v 12 ?n, ?v 6 ?n]"]
      by (simp add: c ex enc_chunk_2 decode_chunk_3 low_bits_join8 byte_simps)
  next
    fix x y z assume c: "c = [x, y, z]"
    let ?n = "join8 x y z"
    have "join6 (?v 18 ?n) (?v 12 ?n) (?v 6 ?n) (ucast (?n AND 63)) = ?n" using join [of x y z] .
    then show ?thesis
      using that [of "[?v 18 ?n, ?v 12 ?n, ?v 6 ?n, ucast (?n AND 63)]"]
      by (simp add: c ex enc_chunk_3 decode_chunk_4 byte_simps)
  qed (use assms in simp)
qed

lemma enc_decode_chunk:
  assumes vs: "vs \<noteq> []" "length vs \<le> 4" "list_all sextet vs" and d: "decode_chunk vs = Ok (bs, k)"
  shows "enc_chunk (take k bs) = symbols vs \<and> length vs = Suc (length (take k bs)) \<and> take k bs \<noteq> []"
proof (rule short_list_cases [OF vs(1,2)])
  fix a assume "vs = [a]"
  with d show ?thesis by (simp add: decode_chunk_def)
next
  fix a b assume v: "vs = [a, b]"
  let ?n = "join6 a b 0 0"
  have s: "sextet a" "sextet b" using vs v by simp_all
  from d v have z: "?n AND 0xFFFF = 0" and bs: "take k bs = [ucast (drop_bit 16 ?n)]"
    by (auto simp: decode_chunk_2 Let_def split: if_splits)
  have "join8 (ucast (drop_bit 16 ?n)) 0 0 = ?n"
    using join8_split [OF join6_24, of a b 0 0] low_bits_zero(1) [OF z] s by simp
  then show ?thesis
    using sextets_join6 [OF s sextet_0 sextet_0 refl] by (simp add: bs v enc_chunk_1 symbols_def)
next
  fix a b c assume v: "vs = [a, b, c]"
  let ?n = "join6 a b c 0"
  have s: "sextet a" "sextet b" "sextet c" using vs v by simp_all
  from d v have z: "?n AND 0xFF = 0" and bs: "take k bs = [ucast (drop_bit 16 ?n), ucast (drop_bit 8 ?n)]"
    by (auto simp: decode_chunk_3 Let_def split: if_splits)
  have "join8 (ucast (drop_bit 16 ?n)) (ucast (drop_bit 8 ?n)) 0 = ?n"
    using join8_split [OF join6_24, of a b c 0] low_bits_zero(2) [OF z] s by simp
  then show ?thesis
    using sextets_join6 [OF s sextet_0 refl] by (simp add: bs v enc_chunk_2 symbols_def)
next
  fix a b c e assume v: "vs = [a, b, c, e]"
  let ?n = "join6 a b c e"
  have s: "sextet a" "sextet b" "sextet c" "sextet e" using vs v by simp_all
  from d v have bs: "take k bs = [ucast (drop_bit 16 ?n), ucast (drop_bit 8 ?n), ucast ?n]"
    by (auto simp: decode_chunk_4 Let_def)
  have "join8 (ucast (drop_bit 16 ?n)) (ucast (drop_bit 8 ?n)) (ucast ?n) = ?n"
    using join8_split [OF join6_24, of a b c e] s by simp
  then show ?thesis
    using sextets_join6 [OF s refl] by (simp add: bs v enc_chunk_3 symbols_def)
qed

section \<open>Whole texts\<close>

lemma chunks_unfold: "xs \<noteq> [] \<Longrightarrow> 0 < n \<Longrightarrow> chunks n xs = take n xs # chunks n (drop n xs)"
  by (cases xs) (simp_all add: chunks.simps(2))

lemma chunks_append: "length xs = n \<Longrightarrow> 0 < n \<Longrightarrow> chunks n (xs @ ys) = xs # chunks n ys"
  by (subst chunks_unfold) auto

lemma chunks_short: "xs \<noteq> [] \<Longrightarrow> length xs \<le> n \<Longrightarrow> chunks n xs = [xs]"
  by (cases xs) (simp_all add: chunks.simps(2))

definition enc_text :: "bytes \<Rightarrow> bytes" where
  "enc_text b = concat (map enc_chunk (chunks 3 b))"

lemma enc_text_Nil [simp]: "enc_text [] = []"
  by (simp add: enc_text_def)

lemma enc_text_step: "b \<noteq> [] \<Longrightarrow> enc_text b = enc_chunk (take 3 b) @ enc_text (drop 3 b)"
  by (simp add: enc_text_def chunks_unfold)

lemma symbols_append: "symbols (vs @ ws) = symbols vs @ symbols ws"
  by (simp add: symbols_def)

lemma decode_enc_text:
  "\<exists>vs. list_all sextet vs \<and> symbols vs = enc_text b \<and> decode_chunks (chunks 4 vs) = Ok b"
proof (induction b rule: length_induct)
  case (1 b)
  show ?case
  proof (cases "b = []")
    case True
    then show ?thesis by (intro exI [of _ "[]"]) (simp add: symbols_def)
  next
    case False
    obtain vs bs k where vs: "list_all sextet vs" "symbols vs = enc_chunk (take 3 b)"
      "length vs = Suc (length (take 3 b))" "decode_chunk vs = Ok (bs, k)" "take k bs = take 3 b"
      using decode_enc_chunk [of "take 3 b"] False by auto
    obtain ws where ws: "list_all sextet ws" "symbols ws = enc_text (drop 3 b)"
      "decode_chunks (chunks 4 ws) = Ok (drop 3 b)"
      using 1 [rule_format, of "drop 3 b"] False by auto
    have "chunks 4 (vs @ ws) = vs # chunks 4 ws"
    proof (cases "length b < 3")
      case True
      with ws(2) have "ws = []" by (simp add: symbols_def)
      moreover have "vs \<noteq> []" "length vs \<le> 4" using vs(3) True by auto
      ultimately show ?thesis by (simp add: chunks_short)
    qed (use vs in \<open>auto intro!: chunks_append\<close>)
    then have "decode_chunks (chunks 4 (vs @ ws)) = Ok b"
      using vs(4,5) ws(3) by simp
    with vs ws False show ?thesis
      by (intro exI [of _ "vs @ ws"]) (simp add: symbols_append enc_text_step)
  qed
qed

lemma enc_decode_text:
  "list_all sextet vs \<Longrightarrow> decode_chunks (chunks 4 vs) = Ok b \<Longrightarrow> symbols vs = enc_text b"
proof (induction vs arbitrary: b rule: length_induct)
  case (1 vs)
  show ?case
  proof (cases "vs = []")
    case True
    with 1 show ?thesis by (simp add: symbols_def)
  next
    case False
    then have c: "chunks 4 vs = take 4 vs # chunks 4 (drop 4 vs)" by (simp add: chunks_unfold)
    with 1(3) obtain bs k b' where d: "decode_chunk (take 4 vs) = Ok (bs, k)"
      and r: "decode_chunks (chunks 4 (drop 4 vs)) = Ok b'" and b: "b = take k bs @ b'"
      by auto
    have s: "list_all sextet (take 4 vs)" "list_all sextet (drop 4 vs)"
      using 1(2) set_take_drop [of 4 vs] by (auto simp: list_all_iff)
    have h: "enc_chunk (take k bs) = symbols (take 4 vs)"
        "length (take 4 vs) = Suc (length (take k bs))" "take k bs \<noteq> []"
      using enc_decode_chunk [OF _ _ s(1) d] False by auto
    have t: "symbols (drop 4 vs) = enc_text b'"
      using 1(1) s(2) r False by simp
    have "enc_text b = enc_chunk (take k bs) @ enc_text b'"
    proof (cases "length vs < 4")
      case True
      with t r have "b' = []" by simp
      with h b True show ?thesis by (simp add: enc_text_def chunks_short)
    next
      case False
      with h b have "length (take k bs) = 3" by simp
      then have "chunks 3 (take k bs @ b') = take k bs # chunks 3 b'" by (rule chunks_append) simp
      then show ?thesis by (simp add: b enc_text_def)
    qed
    with h t show ?thesis by (metis append_take_drop_id symbols_append)
  qed
qed

lemma enc_chunk_ascii: "c \<noteq> [] \<Longrightarrow> length c \<le> 3 \<Longrightarrow> list_all (\<lambda>b. unat b < 0x80) (enc_chunk c)"
proof -
  assume "c \<noteq> []" "length c \<le> 3"
  then obtain vs where "list_all sextet vs" and e: "symbols vs = enc_chunk c"
    by (rule decode_enc_chunk)
  then show ?thesis unfolding e [symmetric]
    by (auto simp: symbols_def list_all_iff ENC_ascii unat_sextet)
qed

lemma push_ascii_symbols:
  "list_all (\<lambda>b. unat b < 0x80) bs \<Longrightarrow> fold (\<lambda>symbol out. push_utf8 out (unat symbol)) bs out = out @ bs"
  by (induction bs arbitrary: out) (simp_all add: push_utf8_def)

lemma encode_fold:
  "list_all (\<lambda>c. c \<noteq> [] \<and> length c \<le> 3) cs \<Longrightarrow>
   fold (\<lambda>chunk out. case encode_chunk chunk of
       (syms, len) \<Rightarrow> fold (\<lambda>symbol out. push_utf8 out (unat symbol)) (take len syms) out) cs out
   = out @ concat (map enc_chunk cs)"
proof (induction cs arbitrary: out)
  case (Cons c cs)
  then have "list_all (\<lambda>b. unat b < 0x80) (enc_chunk c)" by (simp add: enc_chunk_ascii)
  with Cons show ?case
    by (cases "encode_chunk c") (simp add: push_ascii_symbols enc_chunk_def)
qed simp

lemma chunks_bounded: "0 < n \<Longrightarrow> list_all (\<lambda>c. c \<noteq> [] \<and> length c \<le> n) (chunks n xs)"
proof (induction xs rule: length_induct)
  case (1 xs)
  then show ?case by (cases "xs = []") (simp_all add: chunks_unfold)
qed

lemma encode_eq: "encode b = text_of (enc_text b)"
  by (simp add: encode_def encode_fold chunks_bounded enc_text_def)

lemma decode_typed_iff: "decode_typed s = Ok b \<longleftrightarrow> s = encode b"
proof
  assume "decode_typed s = Ok b"
  then obtain vs where "list_all sextet vs" "as_bytes s = symbols vs" "decode_chunks (chunks 4 vs) = Ok b"
    by (auto simp: decode_typed_def b64_vals_iff symbols_def)
  then have "as_bytes s = enc_text b" using enc_decode_text by simp
  then show "s = encode b" by (metis encode_eq text_of_as_bytes)
next
  assume s: "s = encode b"
  obtain vs where "list_all sextet vs" "symbols vs = enc_text b" "decode_chunks (chunks 4 vs) = Ok b"
    using decode_enc_text by blast
  then show "decode_typed s = Ok b"
    unfolding decode_typed_def s encode_eq bind_result_eq_Ok b64_vals_iff by (auto simp: symbols_def)
qed

lemma decode_iff: "decode s = Ok b \<longleftrightarrow> s = encode b"
  by (simp add: decode_def decode_typed_iff)

lemma decode_encode [simp]: "decode (encode b) = Ok b"
  by (simp add: decode_iff)

lemma encode_inject [simp]: "encode a = encode b \<longleftrightarrow> a = b"
  by (metis decode_encode result.inject(1))

lemma decode_fixed_iff: "decode_fixed n s = Ok b \<longleftrightarrow> length b = n \<and> s = encode b"
  by (auto simp: decode_fixed_def decode_iff)

end
