(* ===== verification/Canon_Order.thy ===== *)
theory Canon_Order
  imports Utf8
begin

text \<open>
  The key order of the canonical serializer (\<open>core/src/canon.rs\<close>): UTF-16 code units of UTF-8 text,
  their strict lexicographic order, and the stable merge sort of member positions. The main results
  are that the sort is the library's stable \<open>sort_key\<close> for the lexicographic order on code units, and
  that the code units determine the key.
\<close>

definition positions :: "nat \<Rightarrow> nat list" where
  "positions n = [0..<n]"

fun units_lt :: "nat list \<Rightarrow> nat list \<Rightarrow> bool" where
  "units_lt (x # a) (y # b) = (if x = y then units_lt a b else x < y)"
| "units_lt a b = (length a < length b)"

fun merge_by_units :: "nat list list \<Rightarrow> nat list \<Rightarrow> nat list \<Rightarrow> nat list" where
  "merge_by_units units left [] = left"
| "merge_by_units units [] right = right"
| "merge_by_units units (l # left) (r # right) =
     (if \<not> units_lt (units ! r) (units ! l) then l # merge_by_units units left (r # right)
      else r # merge_by_units units (l # left) right)"

function sort_by_units :: "nat list list \<Rightarrow> nat list \<Rightarrow> nat list" where
  "sort_by_units units pos =
     (if length pos \<le> 1 then pos
      else let mid = length pos - length pos div 2
           in merge_by_units units (sort_by_units units (take mid pos))
                (sort_by_units units (drop mid pos)))"
  by pat_completeness auto
termination
  by (relation "measure (length \<circ> snd)") auto

declare sort_by_units.simps [simp del]

text \<open>
  The loop of \<open>utf16_units\<close>: the first byte selects the width, and the bytes are read by offset. The
  argument is always the text of a \<open>String\<close>, so no offset runs past the end and no subtraction
  underflows (\<open>utf16_units_text\<close>).
\<close>

function utf16_units :: "bytes \<Rightarrow> nat list" where
  "utf16_units s =
     (if s = [] then []
      else
        let b0 = unat (s ! 0);
            (cp, width) =
              (if b0 < 0x80 then (b0, 1)
               else if b0 < 0xE0 then ((b0 - 0xC0) * 0x40 + (unat (s ! 1) - 0x80), 2)
               else if b0 < 0xF0 then
                 ((b0 - 0xE0) * 0x1000 + (unat (s ! 1) - 0x80) * 0x40 + (unat (s ! 2) - 0x80), 3)
               else
                 ((b0 - 0xF0) * 0x40000 + (unat (s ! 1) - 0x80) * 0x1000
                    + (unat (s ! 2) - 0x80) * 0x40 + (unat (s ! 3) - 0x80), 4 :: nat))
        in push_utf16 [] cp @ utf16_units (drop width s))"
  by pat_completeness auto
termination
  by (relation "measure length") (auto split: if_splits)

declare utf16_units.simps [simp del]

section \<open>The sort\<close>

lemma units_lt_less: "units_lt a b \<longleftrightarrow> a < b"
  by (induction a b rule: units_lt.induct) (auto simp: neq_Nil_conv, metis Nil_less_Cons neq_Nil_conv not_less_iff_gr_or_eq)

lemma mset_merge_by_units [simp]: "mset (merge_by_units u xs ys) = mset xs + mset ys"
  by (induction u xs ys rule: merge_by_units.induct) simp_all

lemma set_merge_by_units [simp]: "set (merge_by_units u xs ys) = set xs \<union> set ys"
  by (metis mset_merge_by_units set_mset_mset set_mset_union)

lemma sorted_merge_by_units:
  "sorted (map ((!) u) xs) \<Longrightarrow> sorted (map ((!) u) ys) \<Longrightarrow> sorted (map ((!) u) (merge_by_units u xs ys))"
  by (induction u xs ys rule: merge_by_units.induct) (auto simp: units_lt_less)

lemma filter_merge_by_units:
  "sorted (map ((!) u) xs) \<Longrightarrow>
   filter (\<lambda>p. k = u ! p) (merge_by_units u xs ys) = filter (\<lambda>p. k = u ! p) xs @ filter (\<lambda>p. k = u ! p) ys"
proof (induction u xs ys rule: merge_by_units.induct)
  case (3 u l left r right)
  show ?case
  proof (cases "units_lt (u ! r) (u ! l)")
    case True
    then have "k = u ! r \<Longrightarrow> filter (\<lambda>p. k = u ! p) (l # left) = []"
      using 3(3) by (auto simp: filter_empty_conv units_lt_less)
    with True 3 show ?thesis by auto
  qed (use 3 in auto)
qed simp_all

lemma sort_by_units_spec:
  "mset (sort_by_units u ps) = mset ps \<and> sorted (map ((!) u) (sort_by_units u ps))
   \<and> (\<forall>k. filter (\<lambda>p. k = u ! p) (sort_by_units u ps) = filter (\<lambda>p. k = u ! p) ps)"
proof (induction u ps rule: sort_by_units.induct)
  case (1 u ps)
  show ?case
  proof (cases "length ps \<le> 1")
    case True
    then show ?thesis by (cases ps) (auto simp: sort_by_units.simps [of u])
  next
    case False
    define mid where "mid = length ps - length ps div 2"
    have s: "sort_by_units u ps = merge_by_units u (sort_by_units u (take mid ps)) (sort_by_units u (drop mid ps))"
      using False by (simp add: sort_by_units.simps [of u ps] mid_def Let_def)
    have "mset (take mid ps) + mset (drop mid ps) = mset ps"
      by (metis append_take_drop_id mset_append)
    moreover have "filter P (take mid ps) @ filter P (drop mid ps) = filter P ps" for P
      by (metis append_take_drop_id filter_append)
    ultimately show ?thesis
      using 1(1,2) [OF False mid_def] unfolding s
      by (auto simp: sorted_merge_by_units filter_merge_by_units)
  qed
qed

lemma sort_by_units_sort_key: "sort_by_units u ps = sort_key ((!) u) ps"
  using sort_by_units_spec [of u ps] by (intro properties_for_sort_key [symmetric]) auto

section \<open>Code units determine the text\<close>

lemma utf16_enc_cases:
  assumes "is_scalar c"
  obtains "c < 0x10000" "utf16_enc c = [c]" "\<not> (0xD800 \<le> c \<and> c < 0xDC00)"
  | h l where "utf16_enc c = [0xD800 + h, 0xDC00 + l]" "h < 0x400" "l < 0x400" "c = 0x10000 + h * 0x400 + l"
proof (cases "c < 0x10000")
  case True
  with assms that(1) show ?thesis by (auto simp: push_utf16_def is_scalar_def)
next
  case False
  have "(c - 0x10000) div 0x400 < 0x400" using assms False by (auto simp: is_scalar_def)
  moreover have "(c - 0x10000) mod 0x400 < 0x400" by simp
  moreover have "c = 0x10000 + (c - 0x10000) div 0x400 * 0x400 + (c - 0x10000) mod 0x400"
    using False by (simp add: div_mult_mod_eq ac_simps)
  ultimately show ?thesis
    using that(2) [of "(c - 0x10000) div 0x400" "(c - 0x10000) mod 0x400"] False
    by (simp add: push_utf16_def)
qed

interpretation utf16_frame: frame utf16_enc is_scalar
proof
  fix a b r s assume "is_scalar a" "is_scalar b" and e: "utf16_enc a @ r = utf16_enc b @ s"
  then show "a = b \<and> r = s"
    by (elim utf16_enc_cases) (use e in auto)
qed

lemma utf16_units_step:
  assumes "is_scalar c"
  shows "utf16_units (utf8_enc c @ r) = utf16_enc c @ utf16_units r"
proof -
  have f: "utf8_front (utf8_enc c @ r) = Some (c, r)" by (rule utf8_front_enc [OF assms])
  show ?thesis
    using f unfolding utf16_units.simps [of "utf8_enc c @ r"]
    by (auto simp: utf8_front_def word_nat_order Let_def split: list.splits if_splits)
qed

definition utf16_text :: "nat list \<Rightarrow> nat list" where
  "utf16_text cs = concat (map utf16_enc cs)"

lemma utf16_units_text: "list_all is_scalar cs \<Longrightarrow> utf16_units (utf8_text cs) = utf16_text cs"
  by (induction cs) (simp_all add: utf16_units_step utf16_text_def utf16_units.simps [of "[]"])

lemma utf16_units_inject:
  assumes "utf8_valid a" "utf8_valid b"
  shows "utf16_units a = utf16_units b \<longleftrightarrow> a = b"
proof -
  obtain as bs where a: "list_all is_scalar as" "a = utf8_text as"
    and b: "list_all is_scalar bs" "b = utf8_text bs"
    using assms by (auto simp: utf8_valid_iff)
  have "utf16_enc c \<noteq> []" for c by (simp add: push_utf16_def)
  then have "utf16_text as = utf16_text bs \<Longrightarrow> as = bs"
    using utf16_frame.frames_inject a b by (auto simp: utf16_text_def)
  with a b show ?thesis by (auto simp: utf16_units_text utf8_text_inject)
qed

end
