(* ===== verification/Canon_Value.thy ===== *)
theory Canon_Value
  imports Canon_Order
begin

text \<open>
  The canonical value model and the canonical serializer of \<open>core/src/canon.rs\<close>. The normalization
  tables of the unicode-normalization crate are a parameter \<open>uni\<close> of every operation that
  normalizes; \<open>nfc\<close> is the code's wrapper around it.

  A writer takes the output buffer and returns it extended, with the uniqueness flag of the code.
  \<open>write_array\<close> and \<open>write_members\<close> take the writers of their elements, so that \<open>write_canonical\<close> is
  structurally recursive while the calls happen in the code's order. \<open>write_canonical_eq\<close> shows the
  text written and the flag returned as plain functions of the value.
\<close>

datatype canon_value =
    Null
  | Bool bool
  | CInt int
  | Str string
  | Array "canon_value list"
  | Object "(string \<times> canon_value) list"

section \<open>Accessors\<close>

definition as_object :: "canon_value \<Rightarrow> (string \<times> canon_value) list option" where
  "as_object v = (case v of Object m \<Rightarrow> Some m | _ \<Rightarrow> None)"

definition as_str :: "canon_value \<Rightarrow> string option" where
  "as_str v = (case v of Str s \<Rightarrow> Some s | _ \<Rightarrow> None)"

definition as_array :: "canon_value \<Rightarrow> canon_value list option" where
  "as_array v = (case v of Array a \<Rightarrow> Some a | _ \<Rightarrow> None)"

definition as_int :: "canon_value \<Rightarrow> int option" where
  "as_int v = (case v of CInt n \<Rightarrow> Some n | _ \<Rightarrow> None)"

definition is_null :: "canon_value \<Rightarrow> bool" where
  "is_null v = (case v of Null \<Rightarrow> True | _ \<Rightarrow> False)"

fun member_loop :: "(string \<times> canon_value) list \<Rightarrow> string \<Rightarrow> canon_value option" where
  "member_loop [] key = None"
| "member_loop ((k, v) # ms) key = (if as_bytes k \<noteq> as_bytes key then member_loop ms key else Some v)"

definition member_of :: "canon_value \<Rightarrow> string \<Rightarrow> canon_value option" where
  "member_of v key = (case v of Object m \<Rightarrow> member_loop m key | _ \<Rightarrow> None)"

definition get :: "canon_value \<Rightarrow> string \<Rightarrow> canon_value option" where
  "get v key = member_of v key"

definition without_keys :: "canon_value \<Rightarrow> string list \<Rightarrow> canon_value" where
  "without_keys v keys =
     (case v of Object m \<Rightarrow> Object (filter (\<lambda>(k, _). k \<notin> set keys) m) | other \<Rightarrow> other)"

section \<open>Normalization and checked construction\<close>

definition is_ascii :: "string \<Rightarrow> bool" where
  "is_ascii s \<longleftrightarrow> list_all (\<lambda>b. b < 0x80) (as_bytes s)"

definition nfc :: "(string \<Rightarrow> string) \<Rightarrow> string \<Rightarrow> string" where
  "nfc uni s = (if is_ascii s then s else uni s)"

definition string_value :: "(string \<Rightarrow> string) \<Rightarrow> string \<Rightarrow> canon_value" where
  "string_value uni s = Str (nfc uni s)"

text \<open>The loop of \<open>CanonValue::object\<close>; the error carries the repeated key its message formats.\<close>

fun object_loop :: "(string \<Rightarrow> string) \<Rightarrow> (string \<times> canon_value) list \<Rightarrow> string list
    \<Rightarrow> (string \<times> canon_value) list \<Rightarrow> ((string \<times> canon_value) list, string) result" where
  "object_loop uni [] seen members = Ok members"
| "object_loop uni ((k, v) # pairs) seen members =
     (let key = nfc uni k
      in if key \<in> set seen then Err key
         else object_loop uni pairs (key # seen) (members @ [(key, v)]))"

definition object :: "(string \<Rightarrow> string) \<Rightarrow> (string \<times> canon_value) list \<Rightarrow> (canon_value, string) result" where
  "object uni pairs = map_ok Object (object_loop uni pairs [] [])"

section \<open>Writing scalars\<close>

definition hex_digit :: "u8 \<Rightarrow> u8" where
  "hex_digit n = (if n < 10 then 0x30 + n else 0x61 + (n - 10))"

definition escape_byte :: "u8 \<Rightarrow> bytes" where
  "escape_byte b =
     (if b = 0x22 then [0x5C, 0x22]
      else if b = 0x5C then [0x5C, 0x5C]
      else if b = 0x08 then [0x5C, 0x62]
      else if b = 0x09 then [0x5C, 0x74]
      else if b = 0x0A then [0x5C, 0x6E]
      else if b = 0x0C then [0x5C, 0x66]
      else if b = 0x0D then [0x5C, 0x72]
      else if b \<le> 0x1F then
        [0x5C, 0x75, 0x30, 0x30, hex_digit (drop_bit 4 b), hex_digit (b AND 0xF)]
      else [b])"

definition escape_into :: "bytes \<Rightarrow> bytes \<Rightarrow> bytes" where
  "escape_into s out = fold (\<lambda>b out. out @ escape_byte b) s (out @ [0x22]) @ [0x22]"

text \<open>
  The digit loop fills a 20-byte array from its end; \<open>digits\<close> is the part of the array filled so
  far. \<open>length_int_digits\<close> shows that the array never overflows.
\<close>

function int_digits :: "nat \<Rightarrow> bytes \<Rightarrow> bytes" where
  "int_digits u digits =
     (let digits = (0x30 + of_nat (u mod 10)) # digits; u = u div 10
      in if u = 0 then digits else int_digits u digits)"
  by pat_completeness auto
termination
  by (relation "measure fst") auto

declare int_digits.simps [simp del]

definition write_int :: "int \<Rightarrow> bytes \<Rightarrow> bytes" where
  "write_int n out =
     (if n < 0 then (out @ [0x2D]) @ int_digits (nat (- (n + 1)) + 1) []
      else out @ int_digits (nat n) [])"

section \<open>Writing composite values\<close>

type_synonym writer = "bytes \<Rightarrow> bytes \<times> bool"

definition write_array :: "writer list \<Rightarrow> writer" where
  "write_array items out =
     (case fold (\<lambda>i (out, unique).
              let out = (if i > 0 then out @ [0x2C] else out)
              in case (items ! i) out of (out, u) \<Rightarrow> (out, if \<not> u then False else unique))
            [0..<length items] (out @ [0x5B], True)
      of (out, unique) \<Rightarrow> (out @ [0x5D], unique))"

definition unmark_key :: "(string \<times> 'a) list \<Rightarrow> bytes \<Rightarrow> bool list \<Rightarrow> bool list" where
  "unmark_key members key keep =
     fold (\<lambda>j keep. if as_bytes (fst (members ! j)) = key then keep[j := False] else keep)
       [0..<length members] keep"

primrec unmark_stripped :: "(string \<times> 'a) list \<Rightarrow> string list \<Rightarrow> bool list \<Rightarrow> bool list" where
  "unmark_stripped members [] keep = keep"
| "unmark_stripped members (k # strip) keep =
     unmark_stripped members strip (unmark_key members (as_bytes k) keep)"

text \<open>One iteration of the member loop, for the \<open>n\<close>th member in sorted order.\<close>

definition write_member :: "(string \<times> writer) list \<Rightarrow> string list \<Rightarrow> nat list list \<Rightarrow> nat list \<Rightarrow> nat list
    \<Rightarrow> nat \<Rightarrow> bytes \<times> bool \<Rightarrow> bytes \<times> bool" where
  "write_member members keys units src order n st =
     (let (out, unique) = st;
          (out, unique) =
            (if n > 0 then
               (out @ [0x2C], if units ! (order ! (n - 1)) = units ! (order ! n) then False else unique)
             else (out, unique));
          out = escape_into (as_bytes (keys ! (order ! n))) out @ [0x3A]
      in case snd (members ! (src ! (order ! n))) out of
           (out, u) \<Rightarrow> (out, if \<not> u then False else unique))"

definition write_members :: "(string \<Rightarrow> string) \<Rightarrow> (string \<times> writer) list \<Rightarrow> bool list \<Rightarrow> writer" where
  "write_members uni members keep out =
     (let src = filter (\<lambda>i. keep ! i) [0..<length members];
          keys = map (\<lambda>i. nfc uni (fst (members ! i))) src;
          units = map (\<lambda>key. utf16_units (as_bytes key)) keys;
          order = sort_by_units units (positions (length units))
      in case fold (write_member members keys units src order) [0..<length order] (out @ [0x7B], True)
         of (out, unique) \<Rightarrow> (out @ [0x7D], unique))"

definition write_object_with :: "(string \<Rightarrow> string) \<Rightarrow> (string \<times> writer) list \<Rightarrow> string list \<Rightarrow> writer" where
  "write_object_with uni members strip =
     write_members uni members (unmark_stripped members strip (replicate (length members) True))"

primrec write_canonical :: "(string \<Rightarrow> string) \<Rightarrow> canon_value \<Rightarrow> writer" where
  "write_canonical uni Null = (\<lambda>out. (out @ as_bytes ''null'', True))"
| "write_canonical uni (Bool b) = (\<lambda>out. (out @ as_bytes (if b then ''true'' else ''false''), True))"
| "write_canonical uni (CInt n) = (\<lambda>out. (write_int n out, True))"
| "write_canonical uni (Str s) = (\<lambda>out. (escape_into (as_bytes (nfc uni s)) out, True))"
| "write_canonical uni (Array items) = write_array (map (write_canonical uni) items)"
| "write_canonical uni (Object members) =
     write_object_with uni (map (map_prod (\<lambda>k. k) (write_canonical uni)) members) []"

definition write_object :: "(string \<Rightarrow> string) \<Rightarrow> (string \<times> canon_value) list \<Rightarrow> string list \<Rightarrow> writer" where
  "write_object uni members strip =
     write_object_with uni (map (map_prod (\<lambda>k. k) (write_canonical uni)) members) strip"

text \<open>
  \<open>serialize\<close> discards the uniqueness flag outside debug builds. Its panic is unreachable
  (\<open>serialize_eq\<close>).
\<close>

definition serialize :: "(string \<Rightarrow> string) \<Rightarrow> canon_value \<Rightarrow> string" where
  "serialize uni v =
     (case from_utf8 (fst (write_canonical uni v [])) of
        Some text \<Rightarrow> text
      | None \<Rightarrow> Code.abort (STR ''RCP canonical text is always UTF-8'') (\<lambda>_. []))"

section \<open>The text and the flag as functions of the value\<close>

definition quote :: "bytes \<Rightarrow> bytes" where
  "quote s = [0x22] @ concat (map escape_byte s) @ [0x22]"

fun join_comma :: "bytes list \<Rightarrow> bytes" where
  "join_comma [] = []"
| "join_comma [t] = t"
| "join_comma (t # u # ts) = t @ [0x2C] @ join_comma (u # ts)"

definition int_text :: "int \<Rightarrow> bytes" where
  "int_text n = (if n < 0 then 0x2D # int_digits (nat (- n)) [] else int_digits (nat n) [])"

definition key_units :: "string \<Rightarrow> nat list" where
  "key_units k = utf16_units (as_bytes k)"

definition member_text :: "string \<times> bytes \<Rightarrow> bytes" where
  "member_text kt = quote (as_bytes (fst kt)) @ [0x3A] @ snd kt"

definition object_text :: "(string \<times> bytes) list \<Rightarrow> bytes" where
  "object_text kts = [0x7B] @ join_comma (map member_text (sort_key (key_units \<circ> fst) kts)) @ [0x7D]"

primrec canon_text :: "(string \<Rightarrow> string) \<Rightarrow> canon_value \<Rightarrow> bytes" where
  "canon_text uni Null = as_bytes ''null''"
| "canon_text uni (Bool b) = as_bytes (if b then ''true'' else ''false'')"
| "canon_text uni (CInt n) = int_text n"
| "canon_text uni (Str s) = quote (as_bytes (nfc uni s))"
| "canon_text uni (Array items) = [0x5B] @ join_comma (map (canon_text uni) items) @ [0x5D]"
| "canon_text uni (Object members) = object_text (map (map_prod (nfc uni) (canon_text uni)) members)"

primrec keys_unique :: "(string \<Rightarrow> string) \<Rightarrow> canon_value \<Rightarrow> bool" where
  "keys_unique uni Null = True"
| "keys_unique uni (Bool b) = True"
| "keys_unique uni (CInt n) = True"
| "keys_unique uni (Str s) = True"
| "keys_unique uni (Array items) = list_all id (map (keys_unique uni) items)"
| "keys_unique uni (Object members) =
     (distinct (map (\<lambda>(k, _). key_units (nfc uni k)) members)
      \<and> list_all snd (map (map_prod (\<lambda>k. k) (keys_unique uni)) members))"

abbreviation writes :: "writer \<Rightarrow> bytes \<Rightarrow> bool \<Rightarrow> bool" where
  "writes w t u \<equiv> \<forall>out. w out = (out @ t, u)"

lemma escape_into_eq: "escape_into s out = out @ quote s"
proof -
  have "fold (\<lambda>b out. out @ escape_byte b) s out = out @ concat (map escape_byte s)" for out
    by (induction s arbitrary: out) simp_all
  then show ?thesis by (simp add: escape_into_def quote_def)
qed

lemma write_int_eq: "write_int n out = out @ int_text n"
proof -
  have "n < 0 \<Longrightarrow> nat (- (n + 1)) + 1 = nat (- n)" by simp
  then show ?thesis by (simp add: write_int_def int_text_def del: One_nat_def)
qed

lemma join_comma_snoc: "join_comma (ts @ [t]) = join_comma ts @ (if ts = [] then [] else [0x2C]) @ t"
  by (induction ts rule: join_comma.induct) auto

text \<open>Both element loops: a comma before every element but the first, the flags conjoined.\<close>

lemma comma_loop:
  assumes "\<And>i out uq. i < n \<Longrightarrow> step i (out, uq) = ((if i > 0 then out @ [0x2C] else out) @ t i, uq \<and> c i)"
  shows "fold step [0..<n] (out, uq) = (out @ join_comma (map t [0..<n]), uq \<and> (\<forall>i<n. c i))"
  using assms
proof (induction n)
  case (Suc n)
  then have "fold step [0..<n] (out, uq) = (out @ join_comma (map t [0..<n]), uq \<and> (\<forall>i<n. c i))"
    by simp
  with Suc.prems [of n] show ?case by (auto simp: join_comma_snoc less_Suc_eq)
qed simp

lemma write_array_writes:
  assumes "list_all2 (\<lambda>w (t, u). writes w t u) ws tus"
  shows "writes (write_array ws) ([0x5B] @ join_comma (map fst tus) @ [0x5D]) (list_all snd tus)"
proof
  fix out
  have len: "length ws = length tus" using assms by (rule list_all2_lengthD)
  have w: "i < length ws \<Longrightarrow> (ws ! i) out = (out @ fst (tus ! i), snd (tus ! i))" for i out
    using list_all2_nthD [OF assms, of i] by (simp add: case_prod_beta)
  have m: "map (\<lambda>i. fst (tus ! i)) [0..<length tus] = map fst tus"
    by (rule nth_equalityI) simp_all
  have l: "fold (\<lambda>i (out, unique).
              let out = (if i > 0 then out @ [0x2C] else out)
              in case (ws ! i) out of (out, u) \<Rightarrow> (out, if \<not> u then False else unique))
            [0..<length ws] (out @ [0x5B], True)
      = ((out @ [0x5B]) @ join_comma (map (\<lambda>i. fst (tus ! i)) [0..<length ws]), True \<and> (\<forall>i<length ws. snd (tus ! i)))"
    by (rule comma_loop [where t = "\<lambda>i. fst (tus ! i)" and c = "\<lambda>i. snd (tus ! i)"]) (simp add: w)
  show "write_array ws out = (out @ [0x5B] @ join_comma (map fst tus) @ [0x5D], list_all snd tus)"
    unfolding write_array_def l by (simp add: list_all_length len m)
qed

lemma sort_key_eqI: "(\<And>x. x \<in> set xs \<Longrightarrow> f x = g x) \<Longrightarrow> sort_key f xs = sort_key g xs"
proof (rule properties_for_sort_key)
  assume eq: "\<And>x. x \<in> set xs \<Longrightarrow> f x = g x"
  have "map f (sort_key g xs) = map g (sort_key g xs)" using eq by simp
  then show "sorted (map f (sort_key g xs))" using sorted_sort_key [of g xs] by (rule ssubst)
  fix k assume k: "k \<in> set (sort_key g xs)"
  have "filter (\<lambda>x. f k = f x) ys = filter (\<lambda>x. g x = g k) ys" if "set ys \<subseteq> set xs" for ys
    using that eq k by (intro filter_cong) auto
  from this [of xs] this [of "sort_key g xs"]
  show "filter (\<lambda>x. f k = f x) (sort_key g xs) = filter (\<lambda>x. f k = f x) xs"
    by (simp add: sort_key_stable)
qed simp

lemma sort_key_map: "sort_key f (map g xs) = map g (sort_key (\<lambda>x. f (g x)) xs)"
proof (induction xs)
  case (Cons x xs)
  have "insort_key f (g x) (map g ys) = map g (insort_key (\<lambda>x. f (g x)) x ys)" for ys
    by (induction ys) simp_all
  with Cons show ?case by simp
qed simp

lemma sort_key_positions: "map ((!) xs) (sort_key (\<lambda>p. f (xs ! p)) [0..<length xs]) = sort_key f xs"
proof (rule properties_for_sort_key [symmetric])
  let ?o = "sort_key (\<lambda>p. f (xs ! p)) [0..<length xs]"
  have "mset (map ((!) xs) ?o) = mset (map ((!) xs) [0..<length xs])" by simp
  then show "mset (map ((!) xs) ?o) = mset xs" by (simp only: map_nth)
  show "filter (\<lambda>x. f k = f x) (map ((!) xs) ?o) = filter (\<lambda>x. f k = f x) xs" for k
  proof -
    have "filter (\<lambda>x. f k = f x) (map ((!) xs) ?o) = map ((!) xs) (filter (\<lambda>p. f k = f (xs ! p)) [0..<length xs])"
      by (simp add: filter_map comp_def sort_key_stable eq_commute [of "f k"])
    also have "\<dots> = filter (\<lambda>x. f k = f x) (map ((!) xs) [0..<length xs])"
      by (simp add: filter_map comp_def)
    finally show ?thesis by (simp only: map_nth)
  qed
  show "sorted (map f (map ((!) xs) ?o))"
    using sorted_sort_key [of "\<lambda>p. f (xs ! p)" "[0..<length xs]"] by (simp add: comp_def)
qed

lemma sorted_adjacent_distinct:
  "sorted (xs :: 'a::linorder list) \<Longrightarrow> (\<forall>n. Suc n < length xs \<longrightarrow> xs ! n \<noteq> xs ! Suc n) \<longleftrightarrow> distinct xs"
  unfolding sorted_iff_nth_Suc
  by (metis (no_types, lifting) less_le nth_eq_iff_index_eq Suc_lessD n_not_Suc_n
      sorted_wrt_iff_nth_Suc_transp strict_sorted_iff transp_on_less)

lemma nth_unmark_key:
  "length keep = length ms \<Longrightarrow>
   length (unmark_key ms key keep) = length ms \<and>
   (\<forall>i<length ms. unmark_key ms key keep ! i = (keep ! i \<and> as_bytes (fst (ms ! i)) \<noteq> key))"
proof -
  assume len: "length keep = length ms"
  have "n \<le> length ms \<Longrightarrow>
    length (fold (\<lambda>j keep. if as_bytes (fst (ms ! j)) = key then keep[j := False] else keep) [0..<n] keep) = length ms
    \<and> (\<forall>i<length ms. fold (\<lambda>j keep. if as_bytes (fst (ms ! j)) = key then keep[j := False] else keep) [0..<n] keep ! i
         = (keep ! i \<and> (i < n \<longrightarrow> as_bytes (fst (ms ! i)) \<noteq> key)))" for n
  proof (induction n)
    case (Suc n)
    then show ?case by (auto simp: nth_list_update less_Suc_eq)
  qed (simp add: len)
  from this [of "length ms"] show ?thesis by (simp add: unmark_key_def)
qed

lemma nth_unmark_stripped:
  "length keep = length ms \<Longrightarrow>
   length (unmark_stripped ms strip keep) = length ms \<and>
   (\<forall>i<length ms. unmark_stripped ms strip keep ! i = (keep ! i \<and> fst (ms ! i) \<notin> set strip))"
proof (induction strip arbitrary: keep)
  case (Cons k strip)
  then show ?case using nth_unmark_key [of keep ms "as_bytes k"] by auto
qed simp

lemma filter_positions: "map ((!) xs) (filter (\<lambda>i. P (xs ! i)) [0..<length xs]) = filter P xs"
proof -
  have "filter P xs = filter P (map ((!) xs) [0..<length xs])" by (simp only: map_nth)
  then show ?thesis by (simp add: filter_map comp_def)
qed

text \<open>
  A sorted member list \<open>S\<close> of key, text and flag: the \<open>n\<close>th iteration writes its \<open>n\<close>th entry, and the
  loop's flag says that no two keys have the same code units and that every value was unique.
\<close>

definition entry_units :: "string \<times> bytes \<times> bool \<Rightarrow> nat list" where
  "entry_units e = key_units (fst e)"

definition entry_flag :: "(string \<times> bytes \<times> bool) list \<Rightarrow> nat \<Rightarrow> bool" where
  "entry_flag S n \<longleftrightarrow> (n > 0 \<longrightarrow> entry_units (S ! (n - 1)) \<noteq> entry_units (S ! n)) \<and> snd (snd (S ! n))"

lemma entry_flags_sorted:
  assumes "sorted (map entry_units S)"
  shows "(\<forall>n<length S. entry_flag S n) \<longleftrightarrow> distinct (map entry_units S) \<and> list_all (snd \<circ> snd) S"
proof -
  have "(\<forall>n<length S. n > 0 \<longrightarrow> entry_units (S ! (n - 1)) \<noteq> entry_units (S ! n))
      \<longleftrightarrow> (\<forall>n. Suc n < length S \<longrightarrow> entry_units (S ! n) \<noteq> entry_units (S ! Suc n))"
    by (metis diff_Suc_1 gr0_conv_Suc zero_less_Suc)
  also have "\<dots> \<longleftrightarrow> distinct (map entry_units S)"
    using sorted_adjacent_distinct [OF assms] by simp
  finally show ?thesis by (auto simp: entry_flag_def list_all_length)
qed

lemma write_member_step:
  assumes n: "n < length order"
    and S: "\<And>n. n < length order \<Longrightarrow> keys ! (order ! n) = fst (S ! n) \<and> units ! (order ! n) = entry_units (S ! n)
         \<and> writes (snd (ms ! (src ! (order ! n)))) (fst (snd (S ! n))) (snd (snd (S ! n)))"
  shows "write_member ms keys units src order n (out, uq)
    = ((if n > 0 then out @ [0x2C] else out) @ member_text (fst (S ! n), fst (snd (S ! n))), uq \<and> entry_flag S n)"
  using S [OF n] S [of "n - 1"] n
  by (cases "n > 0") (simp_all add: write_member_def entry_flag_def escape_into_eq member_text_def)

lemma sort_units_entries:
  assumes "map entry_units es = units"
  shows "map ((!) es) (sort_by_units units (positions (length units))) = sort_key entry_units es"
    and "set (sort_by_units units (positions (length units))) = {..<length es}"
proof -
  have "sort_key ((!) units) [0..<length es] = sort_key (\<lambda>p. entry_units (es ! p)) [0..<length es]"
    by (rule sort_key_eqI) (simp flip: assms)
  moreover have "length units = length es" by (simp flip: assms)
  ultimately show "map ((!) es) (sort_by_units units (positions (length units))) = sort_key entry_units es"
    and "set (sort_by_units units (positions (length units))) = {..<length es}"
    by (simp_all add: sort_by_units_sort_key positions_def sort_key_positions atLeast0LessThan)
qed

lemma write_members_writes:
  assumes kept: "map ((!) ms) (filter (\<lambda>i. keep ! i) [0..<length ms]) = kms"
    and w: "list_all2 (\<lambda>m e. nfc uni (fst m) = fst e \<and> writes (snd m) (fst (snd e)) (snd (snd e))) kms es"
  shows "writes (write_members uni ms keep) (object_text (map (\<lambda>e. (fst e, fst (snd e))) es))
     (distinct (map entry_units es) \<and> list_all (snd \<circ> snd) es)"
proof
  fix out
  define src where "src = filter (\<lambda>i. keep ! i) [0..<length ms]"
  define keys where "keys = map (\<lambda>i. nfc uni (fst (ms ! i))) src"
  define units where "units = map (\<lambda>key. utf16_units (as_bytes key)) keys"
  define order where "order = sort_by_units units (positions (length units))"
  define S where "S = sort_key entry_units es"
  have len: "length src = length es"
    using list_all2_lengthD [OF w] kept by (metis length_map src_def)
  have at: "keys ! p = fst (es ! p) \<and> writes (snd (ms ! (src ! p))) (fst (snd (es ! p))) (snd (snd (es ! p)))"
    if "p < length es" for p
    using list_all2_nthD2 [OF w that] that len unfolding kept [symmetric] keys_def src_def by simp
  have "length keys = length es" by (simp add: keys_def len)
  then have units: "map entry_units es = units"
    by (intro nth_equalityI) (simp_all add: at units_def entry_units_def key_units_def)
  note sorted = sort_units_entries [OF units, folded order_def S_def]
  have Sn: "order ! n < length es \<and> S ! n = es ! (order ! n)" if "n < length order" for n
    using that sorted nth_mem [OF that] by (auto simp flip: sorted(1))
  have ls: "length order = length S" by (simp flip: sorted(1))
  have "fold (write_member ms keys units src order) [0..<length order] (out @ [0x7B], True)
      = ((out @ [0x7B]) @ join_comma (map (\<lambda>n. member_text (fst (S ! n), fst (snd (S ! n)))) [0..<length order]),
         True \<and> (\<forall>n<length order. entry_flag S n))"
    by (intro comma_loop write_member_step) (simp_all add: Sn at flip: units)
  moreover have "map (\<lambda>n. member_text (fst (S ! n), fst (snd (S ! n)))) [0..<length order]
      = map member_text (sort_key (key_units \<circ> fst) (map (\<lambda>e. (fst e, fst (snd e))) es))"
    by (rule nth_equalityI) (simp_all add: ls sort_key_map S_def entry_units_def [abs_def] comp_def)
  moreover have "(\<forall>n<length order. entry_flag S n) \<longleftrightarrow> distinct (map entry_units es) \<and> list_all (snd \<circ> snd) es"
    using entry_flags_sorted [of S] mset_eq_imp_distinct_iff [of "map entry_units S" "map entry_units es"]
    by (simp add: ls S_def list_all_iff)
  ultimately show "write_members uni ms keep out = (out @ object_text (map (\<lambda>e. (fst e, fst (snd e))) es),
     distinct (map entry_units es) \<and> list_all (snd \<circ> snd) es)"
    unfolding write_members_def Let_def order_def units_def keys_def src_def
    by (simp add: object_text_def)
qed

lemma write_object_with_writes:
  assumes "list_all2 (\<lambda>m e. nfc uni (fst m) = fst e \<and> writes (snd m) (fst (snd e)) (snd (snd e)))
     (filter (\<lambda>m. fst m \<notin> set strip) ms) es"
  shows "writes (write_object_with uni ms strip) (object_text (map (\<lambda>e. (fst e, fst (snd e))) es))
     (distinct (map entry_units es) \<and> list_all (snd \<circ> snd) es)"
proof -
  have k: "i < length ms \<Longrightarrow> unmark_stripped ms strip (replicate (length ms) True) ! i = (fst (ms ! i) \<notin> set strip)" for i
    using nth_unmark_stripped [of "replicate (length ms) True" ms strip] by simp
  have "filter (\<lambda>i. unmark_stripped ms strip (replicate (length ms) True) ! i) [0..<length ms]
      = filter (\<lambda>i. fst (ms ! i) \<notin> set strip) [0..<length ms]"
    by (rule filter_cong) (simp_all add: k)
  then have "map ((!) ms) (filter (\<lambda>i. unmark_stripped ms strip (replicate (length ms) True) ! i) [0..<length ms])
      = filter (\<lambda>m. fst m \<notin> set strip) ms"
    using filter_positions [of ms "\<lambda>m. fst m \<notin> set strip"] by simp
  then show ?thesis unfolding write_object_with_def using assms by (rule write_members_writes)
qed

lemma write_canonical_eq: "write_canonical uni v out = (out @ canon_text uni v, keys_unique uni v)"
proof (induction v arbitrary: out)
  case (Array items)
  have "list_all2 (\<lambda>w (t, u). writes w t u) (map (write_canonical uni) items)
     (map (\<lambda>v. (canon_text uni v, keys_unique uni v)) items)"
    using Array by (simp add: list_all2_conv_all_nth)
  from write_array_writes [OF this] show ?case by (simp add: comp_def list_all_iff)
next
  case (Object members)
  let ?es = "map (\<lambda>(k, v). (nfc uni k, canon_text uni v, keys_unique uni v)) members"
  have "list_all2 (\<lambda>m e. nfc uni (fst m) = fst e \<and> writes (snd m) (fst (snd e)) (snd (snd e)))
     (filter (\<lambda>m. fst m \<notin> set []) (map (map_prod (\<lambda>k. k) (write_canonical uni)) members)) ?es"
    using Object [OF nth_mem] by (auto simp: list_all2_conv_all_nth case_prod_beta prod_set_defs)
  from write_object_with_writes [OF this] show ?case
    by (simp add: comp_def entry_units_def list_all_iff map_prod_def case_prod_unfold)
qed (simp_all add: write_int_eq escape_into_eq)

lemma write_object_eq_without_keys:
  "write_object uni members strip out = write_canonical uni (without_keys (Object members) strip) out"
proof -
  let ?kept = "filter (\<lambda>m. fst m \<notin> set strip) members"
  let ?es = "map (\<lambda>(k, v). (nfc uni k, canon_text uni v, keys_unique uni v)) ?kept"
  have "filter (\<lambda>m. fst m \<notin> set strip) (map (map_prod (\<lambda>k. k) (write_canonical uni)) members)
      = map (map_prod (\<lambda>k. k) (write_canonical uni)) ?kept"
    by (simp add: filter_map comp_def)
  then have "list_all2 (\<lambda>m e. nfc uni (fst m) = fst e \<and> writes (snd m) (fst (snd e)) (snd (snd e)))
     (filter (\<lambda>m. fst m \<notin> set strip) (map (map_prod (\<lambda>k. k) (write_canonical uni)) members)) ?es"
    by (simp add: list_all2_conv_all_nth case_prod_beta write_canonical_eq)
  from write_object_with_writes [OF this] show ?thesis
    by (simp add: write_object_def write_canonical_eq without_keys_def comp_def entry_units_def list_all_iff
        map_prod_def case_prod_unfold del: write_canonical.simps)
qed

section \<open>Invariants and canonical form\<close>

text \<open>
  What every \<open>CanonValue\<close> satisfies by its Rust types: strings are UTF-8 and integers fit in 64 bits.
  \<open>nfc_ok\<close> is what the code relies on of the unicode-normalization crate.
\<close>

primrec value_ok :: "canon_value \<Rightarrow> bool" where
  "value_ok Null = True"
| "value_ok (Bool b) = True"
| "value_ok (CInt n) = in_i64 n"
| "value_ok (Str s) = is_str s"
| "value_ok (Array items) = list_all id (map value_ok items)"
| "value_ok (Object members) = list_all (\<lambda>(k, w). is_str k \<and> w) (map (map_prod (\<lambda>k. k) value_ok) members)"

definition nfc_ok :: "(string \<Rightarrow> string) \<Rightarrow> bool" where
  "nfc_ok uni \<longleftrightarrow> (\<forall>s. is_str s \<longrightarrow> is_str (uni s) \<and> uni (uni s) = uni s)"

primrec canonical :: "(string \<Rightarrow> string) \<Rightarrow> canon_value \<Rightarrow> canon_value" where
  "canonical uni Null = Null"
| "canonical uni (Bool b) = Bool b"
| "canonical uni (CInt n) = CInt n"
| "canonical uni (Str s) = Str (nfc uni s)"
| "canonical uni (Array items) = Array (map (canonical uni) items)"
| "canonical uni (Object members) =
     Object (sort_key (key_units \<circ> fst) (map (map_prod (nfc uni) (canonical uni)) members))"

lemma value_ok_Object [simp]:
  "value_ok (Object ms) \<longleftrightarrow> (\<forall>(k, v) \<in> set ms. is_str k \<and> value_ok v)"
  by (auto simp: list_all_iff)

lemma value_ok_Array [simp]: "value_ok (Array vs) \<longleftrightarrow> (\<forall>v \<in> set vs. value_ok v)"
  by (auto simp: list_all_iff)

declare value_ok.simps(5,6) [simp del]

lemma is_str_nfc: "nfc_ok uni \<Longrightarrow> is_str s \<Longrightarrow> is_str (nfc uni s)"
  by (simp add: nfc_ok_def nfc_def)

lemma nfc_idem: "nfc_ok uni \<Longrightarrow> is_str s \<Longrightarrow> nfc uni (nfc uni s) = nfc uni s"
  by (simp add: nfc_ok_def nfc_def)

lemma is_ascii_is_str: "is_ascii s \<Longrightarrow> is_str s"
  by (simp add: is_ascii_def is_str_def utf8_valid_ascii)

lemma nfc_ascii [simp]: "is_ascii s \<Longrightarrow> nfc uni s = s"
  by (simp add: nfc_def)

section \<open>The text is UTF-8\<close>

lemma utf8_enc_high: "0x80 \<le> c \<Longrightarrow> is_scalar c \<Longrightarrow> b \<in> set (utf8_enc c) \<Longrightarrow> 0x80 \<le> unat b"
proof -
  assume c: "0x80 \<le> c" "is_scalar c" and b: "b \<in> set (utf8_enc c)"
  have "utf8_front (utf8_enc c @ []) = Some (c, [])" by (rule utf8_front_enc [OF c(2)])
  with c b show "0x80 \<le> unat b"
    by (auto simp: utf8_front_def is_continuation_def word_nat_order split: list.splits if_splits)
qed

lemma escape_byte_id: "0x80 \<le> unat b \<Longrightarrow> escape_byte b = [b]"
  by (simp add: escape_byte_def word_nat_order u8_eq_unat)

lemma escape_byte_ascii: "unat b < 0x80 \<Longrightarrow> list_all (\<lambda>b. b < 0x80) (escape_byte b)"
proof -
  have "\<forall>b. unat b < 0x80 \<longrightarrow> list_all (\<lambda>b. b < 0x80) (escape_byte b)"
    unfolding u8_all_iff by code_simp
  then show "unat b < 0x80 \<Longrightarrow> list_all (\<lambda>b. b < 0x80) (escape_byte b)" by blast
qed

lemma escape_utf8_enc:
  assumes "is_scalar c"
  shows "concat (map escape_byte (utf8_enc c)) = (if c < 0x80 then escape_byte (of_nat c) else utf8_enc c)"
proof (cases "c < 0x80")
  case False
  have "map escape_byte (utf8_enc c) = map (\<lambda>b. [b]) (utf8_enc c)"
    using False assms by (intro map_cong refl escape_byte_id utf8_enc_high [of c]) simp_all
  then have "concat (map escape_byte (utf8_enc c)) = utf8_enc c" by (simp only: concat_map_singleton map_ident)
  with False show ?thesis by simp
qed (simp add: push_utf8_def)

lemma utf8_valid_enc: "is_scalar c \<Longrightarrow> utf8_valid (utf8_enc c)"
  unfolding utf8_valid_iff by (intro exI [of _ "[c]"]) simp

lemma utf8_valid_punct:
  assumes b: "b < 0x80"
  shows "utf8_valid s \<Longrightarrow> utf8_valid (b # s)"
    and "utf8_valid s \<Longrightarrow> utf8_valid t \<Longrightarrow> utf8_valid (s @ b # t)"
    and "utf8_valid s \<Longrightarrow> utf8_valid (s @ [b])"
proof -
  have "utf8_valid [b]" by (rule utf8_valid_ascii) (use b in simp)
  then have *: "utf8_valid s \<Longrightarrow> utf8_valid (b # s)" for s using utf8_valid_append [of "[b]" s] by simp
  show "utf8_valid s \<Longrightarrow> utf8_valid (b # s)" by (rule *)
  show "utf8_valid s \<Longrightarrow> utf8_valid t \<Longrightarrow> utf8_valid (s @ b # t)" by (intro utf8_valid_append *)
  show "utf8_valid s \<Longrightarrow> utf8_valid (s @ [b])"
    using \<open>utf8_valid [b]\<close> by (intro utf8_valid_append)
qed

lemma utf8_valid_quote: "utf8_valid s \<Longrightarrow> utf8_valid (quote s)"
proof -
  have "list_all is_scalar cs \<Longrightarrow> utf8_valid (concat (map escape_byte (utf8_text cs)))" for cs
  proof (induction cs)
    case (Cons c cs)
    have "utf8_valid (concat (map escape_byte (utf8_enc c)))"
      using Cons.prems escape_byte_ascii [of "of_nat c"]
      by (simp add: escape_utf8_enc unat_of_nat_u8 utf8_valid_ascii utf8_valid_enc)
    with Cons show ?case by (simp add: utf8_valid_append)
  qed (simp add: utf8_valid_ascii)
  then show "utf8_valid s \<Longrightarrow> utf8_valid (quote s)"
    unfolding quote_def utf8_valid_iff [of s] by (auto simp: utf8_valid_punct)
qed

lemma utf8_valid_join: "list_all utf8_valid ts \<Longrightarrow> utf8_valid (join_comma ts)"
proof (induction ts rule: join_comma.induct)
  case (3 t u ts)
  moreover have "utf8_valid [0x2C]" by (rule utf8_valid_ascii) simp
  ultimately show ?case unfolding join_comma.simps by (intro utf8_valid_append) simp_all
qed (simp_all add: utf8_valid_ascii)

lemma int_digits_ascii: "list_all (\<lambda>b. b < 0x80) ds \<Longrightarrow> list_all (\<lambda>b. b < 0x80) (int_digits u ds)"
proof (induction u ds rule: int_digits.induct)
  case (1 u ds)
  have "u mod 10 < 10" by simp
  then have "unat (0x30 + of_nat (u mod 10) :: u8) = 0x30 + u mod 10"
    using unat_of_nat_u8 [of "0x30 + u mod 10"] by simp
  then have "(0x30 + of_nat (u mod 10) :: u8) < 0x80" by (simp add: word_nat_order)
  with 1 show ?case unfolding int_digits.simps [of u ds] Let_def by (cases "u div 10 = 0") simp_all
qed

lemma canon_text_valid: "nfc_ok uni \<Longrightarrow> value_ok v \<Longrightarrow> utf8_valid (canon_text uni v)"
proof (induction v)
  case (CInt n)
  have "list_all (\<lambda>b. b < 0x80) (int_text n)" by (simp add: int_text_def int_digits_ascii)
  then show ?case by (simp add: utf8_valid_ascii)
next
  case (Str s)
  then show ?case by (simp add: utf8_valid_quote is_str_nfc flip: is_str_def)
next
  case (Array items)
  then have "utf8_valid (join_comma (map (canon_text uni) items))"
    by (intro utf8_valid_join) (simp add: list_all_iff)
  then show ?case by (simp add: utf8_valid_punct)
next
  case (Object ms)
  then have "utf8_valid (member_text (nfc uni k, canon_text uni v))" if "(k, v) \<in> set ms" for k v
    using that by (fastforce simp: member_text_def utf8_valid_punct is_str_nfc [unfolded is_str_def]
        utf8_valid_quote is_str_def)
  then have "utf8_valid (join_comma (map member_text (sort_key (key_units \<circ> fst) (map (map_prod (nfc uni) (canon_text uni)) ms))))"
    by (intro utf8_valid_join) (auto simp: list_all_iff)
  then show ?case by (simp add: object_text_def utf8_valid_punct)
qed (simp_all add: utf8_valid_ascii byte_of_def)

lemma serialize_eq: "nfc_ok uni \<Longrightarrow> value_ok v \<Longrightarrow> as_bytes (serialize uni v) = canon_text uni v"
  by (simp add: serialize_def write_canonical_eq from_utf8_def canon_text_valid)

end
