(* ===== verification/Canon_Parse.thy ===== *)
theory Canon_Parse
  imports Canon_Value
begin

text \<open>
  The RCP parser of \<open>core/src/canon.rs\<close>, over the same explicit byte index. Nested values are parsed
  by recursion on \<open>fuel\<close>, one unit per level of nesting, and each element loop runs on its own count
  of iterations; \<open>None\<close> is running out of either. \<open>parse_document\<close> supplies \<open>MAX_DEPTH + 1\<close> levels and
  \<open>length s + 1\<close> iterations, and \<open>Canon_Total\<close> proves that they are never used up.
\<close>

datatype error_kind =
    TrailingData | UnexpectedChar | UnexpectedEnd | LiteralTrue | LiteralFalse | LiteralNull
  | MissingDigits | Fraction | Exponent | NegativeZero | OutOfRange | DepthLimit | ArrayDelimiter
  | ExpectedKey | ObjectDelimiter | UnterminatedString | UnterminatedEscape | InvalidEscape
  | RawControl | TruncatedUnicodeEscape | InvalidHexDigit | Utf8Lead | Utf8Truncated | Utf8Invalid
  | UnpairedHigh | HighNotLow | InvalidScalar | UnpairedLow

datatype parse_error = At error_kind nat | Expected u8 nat | DuplicateKey string nat

definition MAX_DEPTH :: nat where
  "MAX_DEPTH = 256"

section \<open>Bytes and whitespace\<close>

definition is_ws :: "u8 \<Rightarrow> bool" where
  "is_ws b \<longleftrightarrow> b = 0x20 \<or> b = 0x09 \<or> b = 0x0A \<or> b = 0x0D"

definition is_digit :: "u8 \<Rightarrow> bool" where
  "is_digit b \<longleftrightarrow> 0x30 \<le> b \<and> b \<le> 0x39"

definition digit_at :: "bytes \<Rightarrow> nat \<Rightarrow> bool" where
  "digit_at s i \<longleftrightarrow> i < length s \<and> is_digit (s ! i)"

definition byte_at :: "bytes \<Rightarrow> nat \<Rightarrow> u8 \<Rightarrow> bool" where
  "byte_at s i b \<longleftrightarrow> i < length s \<and> s ! i = b"

function skip_ws :: "bytes \<Rightarrow> nat \<Rightarrow> nat" where
  "skip_ws s i = (if i < length s \<and> is_ws (s ! i) then skip_ws s (i + 1) else i)"
  by pat_completeness auto
termination
  by (relation "measure (\<lambda>(s, i). length s - i)") auto

declare skip_ws.simps [simp del]

definition expect :: "bytes \<Rightarrow> nat \<Rightarrow> u8 \<Rightarrow> (nat, parse_error) result" where
  "expect s i b = (if byte_at s i b then Ok (i + 1) else Err (Expected b i))"

section \<open>Literals and numbers\<close>

definition parse_literal :: "bytes \<Rightarrow> nat \<Rightarrow> bytes \<Rightarrow> error_kind \<Rightarrow> canon_value
    \<Rightarrow> (canon_value \<times> nat, parse_error) result" where
  "parse_literal s i kw err v =
     (if length kw \<le> length s - i \<and> take (length kw) (drop i s) = kw then Ok (v, i + length kw)
      else Err (At err i))"

function digits_end :: "bytes \<Rightarrow> nat \<Rightarrow> nat" where
  "digits_end s i = (if i < length s \<and> is_digit (s ! i) then digits_end s (i + 1) else i)"
  by pat_completeness auto
termination
  by (relation "measure (\<lambda>(s, i). length s - i)") auto

declare digits_end.simps [simp del]

text \<open>
  The magnitude is a \<open>u64\<close> bounded by \<open>limit\<close>, so its updates do not wrap; \<open>in_range\<close> is the second
  component of the loop state.
\<close>

definition decimal_step :: "nat \<Rightarrow> bytes \<Rightarrow> nat \<Rightarrow> nat \<times> bool \<Rightarrow> nat \<times> bool" where
  "decimal_step limit s k st =
     (let (mag, in_range) = st; d = unat (s ! k - 0x30)
      in if mag > (limit - d) div 10 then (mag, False) else (mag * 10 + d, in_range))"

definition decimal_i64 :: "bytes \<Rightarrow> nat \<Rightarrow> nat \<Rightarrow> bool \<Rightarrow> int option" where
  "decimal_i64 s from to negative =
     (let limit = (if negative then 9223372036854775808 else 9223372036854775807 :: nat);
          (mag, in_range) = fold (decimal_step limit s) [from..<to] (0, True)
      in if \<not> in_range then None
         else if \<not> negative then Some (int mag)
         else if mag = limit then Some (- (2 ^ 63))
         else Some (- int mag))"

text \<open>The integer part: \<open>0\<close> alone, or a nonzero digit and more digits.\<close>

definition integer_part :: "bytes \<Rightarrow> nat \<Rightarrow> (nat, parse_error) result" where
  "integer_part s i =
     (if byte_at s i 0x30 then Ok (i + 1)
      else if i < length s \<and> is_digit (s ! i) then Ok (digits_end s (i + 1))
      else Err (At MissingDigits i))"

definition parse_number :: "bytes \<Rightarrow> nat \<Rightarrow> (int \<times> nat, parse_error) result" where
  "parse_number s start =
     (let negative = byte_at s start 0x2D;
          digits = (if negative then start + 1 else start)
      in bind_result (integer_part s digits)
           (\<lambda>i. if byte_at s i 0x2E then Err (At Fraction i)
                else if byte_at s i 0x65 \<or> byte_at s i 0x45 then Err (At Exponent i)
                else if negative \<and> i - digits = 1 \<and> s ! digits = 0x30 then Err (At NegativeZero start)
                else case decimal_i64 s digits i negative of
                       Some n \<Rightarrow> Ok (n, i)
                     | None \<Rightarrow> Err (At OutOfRange start)))"

section \<open>Strings\<close>

text \<open>UTF-16 code units are numbers below \<open>0x10000\<close>.\<close>

definition short_escape :: "u8 \<Rightarrow> nat" where
  "short_escape e =
     (if e = 0x22 then 0x22 else if e = 0x5C then 0x5C else if e = 0x2F then 0x2F
      else if e = 0x62 then 0x08 else if e = 0x66 then 0x0C else if e = 0x6E then 0x0A
      else if e = 0x72 then 0x0D else if e = 0x74 then 0x09 else 0xFFFF)"

definition hex_value :: "u8 \<Rightarrow> nat" where
  "hex_value c =
     (if 0x30 \<le> c \<and> c \<le> 0x39 then unat (c - 0x30)
      else if 0x61 \<le> c \<and> c \<le> 0x66 then unat (c - 0x61 + 10)
      else if 0x41 \<le> c \<and> c \<le> 0x46 then unat (c - 0x41 + 10)
      else 16)"

definition parse_hex4 :: "bytes \<Rightarrow> nat \<Rightarrow> (nat \<times> nat, parse_error) result" where
  "parse_hex4 s i =
     (if length s - i < 4 then Err (At TruncatedUnicodeEscape i)
      else
        let d0 = hex_value (s ! i); d1 = hex_value (s ! (i + 1));
            d2 = hex_value (s ! (i + 2)); d3 = hex_value (s ! (i + 3))
        in if d0 > 15 then Err (At InvalidHexDigit i)
           else if d1 > 15 then Err (At InvalidHexDigit (i + 1))
           else if d2 > 15 then Err (At InvalidHexDigit (i + 2))
           else if d3 > 15 then Err (At InvalidHexDigit (i + 3))
           else Ok (d0 * 0x1000 + d1 * 0x100 + d2 * 0x10 + d3, i + 4))"

definition utf8_scalar :: "bytes \<Rightarrow> nat \<Rightarrow> nat \<Rightarrow> nat option" where
  "utf8_scalar s i len =
     (let b0 = unat (s ! i); b1 = s ! (i + 1); b2 = s ! (i + 2); b3 = s ! (i + 3);
          lo = (if b0 = 0xE0 then 0xA0 else if b0 = 0xF0 then 0x90 else 0x80);
          hi = (if b0 = 0xED then 0x9F else if b0 = 0xF4 then 0x8F else 0xBF)
      in if len = 1 then Some b0
         else if len = 2 then
           (if b0 \<ge> 0xC2 \<and> is_continuation b1 then Some ((b0 - 0xC0) * 0x40 + (unat b1 - 0x80)) else None)
         else if b1 < lo \<or> b1 > hi \<or> \<not> is_continuation b2 then None
         else if len = 3 then
           Some ((b0 - 0xE0) * 0x1000 + (unat b1 - 0x80) * 0x40 + (unat b2 - 0x80))
         else if b0 > 0xF4 \<or> \<not> is_continuation b3 then None
         else Some ((b0 - 0xF0) * 0x40000 + (unat b1 - 0x80) * 0x1000
                    + (unat b2 - 0x80) * 0x40 + (unat b3 - 0x80)))"

definition next_utf8_char :: "bytes \<Rightarrow> nat \<Rightarrow> (nat \<times> nat, parse_error) result" where
  "next_utf8_char s i =
     (let lead = s ! i
      in bind_result
           (if lead < 0x80 then Ok 1
            else if drop_bit 5 lead = 0b110 then Ok 2
            else if drop_bit 4 lead = 0b1110 then Ok 3
            else if drop_bit 3 lead = 0b11110 then Ok 4
            else Err (At Utf8Lead i))
           (\<lambda>len. if length s - i < len then Err (At Utf8Truncated i)
                  else case utf8_scalar s i len of
                         Some c \<Rightarrow> Ok (c, len)
                       | None \<Rightarrow> Err (At Utf8Invalid i)))"

lemma next_utf8_char_len: "next_utf8_char s i = Ok (c, len) \<Longrightarrow> 0 < len \<and> i + len \<le> length s \<or> i \<ge> length s"
  by (auto simp: next_utf8_char_def Let_def split: if_splits option.splits)

lemma parse_hex4_Ok: "parse_hex4 s i = Ok (u, j) \<Longrightarrow> j = i + 4 \<and> i + 4 \<le> length s \<and> u < 0x10000"
  by (auto simp: parse_hex4_def Let_def split: if_splits)

text \<open>The loop of \<open>parse_string\<close>: the collected units and the offset past the closing quote.\<close>

function string_loop :: "bytes \<Rightarrow> nat \<Rightarrow> nat list \<Rightarrow> (nat list \<times> nat, parse_error) result" where
  "string_loop s i units =
     (if i \<ge> length s then Err (At UnterminatedString i)
      else
        let b = s ! i
        in if b = 0x22 then Ok (units, i + 1)
           else if b = 0x5C then
             (if i + 1 \<ge> length s then Err (At UnterminatedEscape (i + 1))
              else
                let e = s ! (i + 1)
                in if e = 0x75 then
                     (case parse_hex4 s (i + 2) of
                        Ok (u, j) \<Rightarrow> string_loop s j (units @ [u])
                      | Err f \<Rightarrow> Err f)
                   else
                     let u = short_escape e
                     in if u < 0x80 then string_loop s (i + 2) (units @ [u])
                        else Err (At InvalidEscape (i + 2)))
           else if b < 0x20 then Err (At RawControl i)
           else
             (case next_utf8_char s i of
                Ok (c, len) \<Rightarrow> string_loop s (i + len) (push_utf16 units c)
              | Err f \<Rightarrow> Err f))"
  by pat_completeness auto
termination
  by (relation "measure (\<lambda>(s, i, units). length s - i)")
     (auto dest: parse_hex4_Ok next_utf8_char_len)

declare string_loop.simps [simp del]

fun utf16_strict_loop :: "nat list \<Rightarrow> bytes \<Rightarrow> (bytes, error_kind) result" where
  "utf16_strict_loop [] out = Ok out"
| "utf16_strict_loop (u # us) out =
     (if u \<ge> 0xD800 \<and> u \<le> 0xDBFF then
        (case us of
           [] \<Rightarrow> Err UnpairedHigh
         | lo # us' \<Rightarrow>
             if lo < 0xDC00 \<or> lo > 0xDFFF then Err HighNotLow
             else utf16_strict_loop us' (push_utf8 out (0x10000 + (u - 0xD800) * 0x400 + (lo - 0xDC00))))
      else if u \<ge> 0xDC00 \<and> u \<le> 0xDFFF then Err UnpairedLow
      else utf16_strict_loop us (push_utf8 out u))"

definition decode_utf16_strict :: "nat list \<Rightarrow> (string, error_kind) result" where
  "decode_utf16_strict units =
     bind_result (utf16_strict_loop units []) (\<lambda>out. ok_or (from_utf8 out) InvalidScalar)"

definition parse_string :: "(string \<Rightarrow> string) \<Rightarrow> bytes \<Rightarrow> nat \<Rightarrow> (string \<times> nat, parse_error) result" where
  "parse_string uni s i =
     bind_result (expect s i 0x22) (\<lambda>i.
     bind_result (string_loop s i []) (\<lambda>(units, i).
     map_ok (\<lambda>t. (nfc uni t, i)) (map_err (\<lambda>e. At e i) (decode_utf16_strict units))))"

section \<open>Arrays and objects\<close>

type_synonym value_parser = "nat \<Rightarrow> (canon_value \<times> nat, parse_error) result option"

text \<open>\<open>pv\<close> parses a value at an offset, one level deeper.\<close>

primrec array_loop :: "nat \<Rightarrow> value_parser \<Rightarrow> bytes \<Rightarrow> nat \<Rightarrow> canon_value list
    \<Rightarrow> (canon_value \<times> nat, parse_error) result option" where
  "array_loop 0 pv s i items = None"
| "array_loop (Suc n) pv s i items =
     (case pv (skip_ws s i) of
        None \<Rightarrow> None
      | Some (Err e) \<Rightarrow> Some (Err e)
      | Some (Ok (v, j)) \<Rightarrow>
          let items = items @ [v]; i = skip_ws s j
          in if byte_at s i 0x2C then array_loop n pv s (i + 1) items
             else if byte_at s i 0x5D then Some (Ok (Array items, i + 1))
             else Some (Err (At ArrayDelimiter i)))"

definition parse_array :: "nat \<Rightarrow> value_parser \<Rightarrow> bytes \<Rightarrow> nat \<Rightarrow> nat
    \<Rightarrow> (canon_value \<times> nat, parse_error) result option" where
  "parse_array n pv s i depth =
     (case expect s i 0x5B of
        Err e \<Rightarrow> Some (Err e)
      | Ok i \<Rightarrow>
          if depth \<ge> MAX_DEPTH then Some (Err (At DepthLimit i))
          else
            let i = skip_ws s i
            in if byte_at s i 0x5D then Some (Ok (Array [], i + 1))
               else array_loop n pv s i [])"

definition widen :: "bytes \<Rightarrow> nat list" where
  "widen s = map unat s"

definition first_repeat :: "nat list list \<Rightarrow> nat" where
  "first_repeat units =
     (let order = sort_by_units units (positions (length units))
      in fold (\<lambda>n first.
                 if units ! (order ! (n - 1)) = units ! (order ! n) \<and> order ! n < first then order ! n else first)
           [1..<length order] (length units))"

text \<open>What the member loop leaves behind: its accumulators, the fault if any and the offset.\<close>

record object_acc =
  acc_units :: "nat list list"
  acc_starts :: "nat list"
  acc_keys :: "string list"
  acc_members :: "(string \<times> canon_value) list"
  acc_fault :: "parse_error option"
  acc_i :: nat

definition stop_at :: "object_acc \<Rightarrow> parse_error \<Rightarrow> object_acc option" where
  "stop_at a e = Some (a \<lparr> acc_fault := Some e \<rparr>)"

primrec members_loop :: "nat \<Rightarrow> (string \<Rightarrow> string) \<Rightarrow> value_parser \<Rightarrow> bytes \<Rightarrow> object_acc \<Rightarrow> object_acc option" where
  "members_loop 0 uni pv s a = None"
| "members_loop (Suc n) uni pv s a =
     (let i = skip_ws s (acc_i a)
      in if \<not> byte_at s i 0x22 then stop_at a (At ExpectedKey i)
         else
           case parse_string uni s i of
             Err e \<Rightarrow> stop_at a e
           | Ok (key, j) \<Rightarrow>
               let a = a \<lparr> acc_units := acc_units a @ [widen (as_bytes key)],
                           acc_starts := acc_starts a @ [i],
                           acc_keys := acc_keys a @ [key] \<rparr>
               in case expect s (skip_ws s j) 0x3A of
                    Err e \<Rightarrow> stop_at a e
                  | Ok j \<Rightarrow>
                      (case pv (skip_ws s j) of
                         None \<Rightarrow> None
                       | Some (Err e) \<Rightarrow> stop_at a e
                       | Some (Ok (v, j)) \<Rightarrow>
                           let a = a \<lparr> acc_members := acc_members a @ [(key, v)] \<rparr>; i = skip_ws s j
                           in if byte_at s i 0x2C then members_loop n uni pv s (a \<lparr> acc_i := i + 1 \<rparr>)
                              else if byte_at s i 0x7D then Some (a \<lparr> acc_i := i + 1 \<rparr>)
                              else stop_at a (At ObjectDelimiter i)))"

definition parse_object :: "nat \<Rightarrow> (string \<Rightarrow> string) \<Rightarrow> value_parser \<Rightarrow> bytes \<Rightarrow> nat \<Rightarrow> nat
    \<Rightarrow> (canon_value \<times> nat, parse_error) result option" where
  "parse_object n uni pv s i depth =
     (case expect s i 0x7B of
        Err e \<Rightarrow> Some (Err e)
      | Ok i \<Rightarrow>
          if depth \<ge> MAX_DEPTH then Some (Err (At DepthLimit i))
          else
            let i = skip_ws s i
            in if byte_at s i 0x7D then Some (Ok (Object [], i + 1))
               else
                 (case members_loop n uni pv s
                         \<lparr> acc_units = [], acc_starts = [], acc_keys = [], acc_members = [],
                           acc_fault = None, acc_i = i \<rparr> of
                    None \<Rightarrow> None
                  | Some a \<Rightarrow>
                      let dup = first_repeat (acc_units a)
                      in if dup < length (acc_units a) then
                           Some (Err (DuplicateKey (acc_keys a ! dup) (acc_starts a ! dup)))
                         else
                           (case acc_fault a of
                              Some e \<Rightarrow> Some (Err e)
                            | None \<Rightarrow> Some (Ok (Object (acc_members a), acc_i a)))))"

section \<open>Values and documents\<close>

primrec parse_value :: "nat \<Rightarrow> (string \<Rightarrow> string) \<Rightarrow> bytes \<Rightarrow> nat \<Rightarrow> nat
    \<Rightarrow> (canon_value \<times> nat, parse_error) result option" where
  "parse_value 0 uni s i depth = None"
| "parse_value (Suc fuel) uni s i depth =
     (if i \<ge> length s then Some (Err (At UnexpectedEnd i))
      else
        let b = s ! i
        in if b = 0x7B then
             parse_object (length s + 1) uni (\<lambda>j. parse_value fuel uni s j (depth + 1)) s i depth
           else if b = 0x5B then
             parse_array (length s + 1) (\<lambda>j. parse_value fuel uni s j (depth + 1)) s i depth
           else if b = 0x22 then Some (map_ok (\<lambda>(t, j). (Str t, j)) (parse_string uni s i))
           else if b = 0x74 then Some (parse_literal s i (as_bytes ''true'') LiteralTrue (Bool True))
           else if b = 0x66 then Some (parse_literal s i (as_bytes ''false'') LiteralFalse (Bool False))
           else if b = 0x6E then Some (parse_literal s i (as_bytes ''null'') LiteralNull Null)
           else if b = 0x2D \<or> is_digit b then Some (map_ok (\<lambda>(n, j). (CInt n, j)) (parse_number s i))
           else Some (Err (At UnexpectedChar i)))"

declare parse_value.simps(2) [simp del]

definition finish_top_level :: "bytes \<Rightarrow> nat \<Rightarrow> (unit, parse_error) result" where
  "finish_top_level s i =
     (let k = skip_ws s i in if k \<noteq> length s then Err (At TrailingData k) else Ok ())"

definition parse_top_level_general :: "(string \<Rightarrow> string) \<Rightarrow> bytes \<Rightarrow> nat
    \<Rightarrow> (canon_value \<times> nat, parse_error) result option" where
  "parse_top_level_general uni s i = parse_value (MAX_DEPTH + 1) uni s (skip_ws s i) 0"

definition parse_document :: "(string \<Rightarrow> string) \<Rightarrow> string \<Rightarrow> (canon_value, parse_error) result option" where
  "parse_document uni input =
     (let s = as_bytes input
      in if byte_at s 0 0x2D \<or> digit_at s 0 then
           Some (bind_result (parse_number s 0) (\<lambda>(n, j). map_ok (\<lambda>_. CInt n) (finish_top_level s j)))
         else
           map_option (\<lambda>r. bind_result r (\<lambda>(v, j). map_ok (\<lambda>_. v) (finish_top_level s j)))
             (parse_top_level_general uni s 0))"

end
