(* ===== verification/Canon_Total.thy ===== *)
theory Canon_Total
  imports Canon_Parse
begin

text \<open>
  The parser is total and its results are well formed: \<open>parse_document\<close> returns a value or an error on
  every input, each successful step moves the cursor forward and stays within the input, and an
  accepted value satisfies \<open>parsed\<close>: normalized strings and keys, distinct keys, 64-bit integers.
\<close>

section \<open>Cursor progress of the lexical parsers\<close>

named_theorems progress \<open>cursor movement of successful parsers\<close>

lemma skip_ws_ge [progress]: "i \<le> skip_ws s i"
  by (induction s i rule: skip_ws.induct) (metis Suc_eq_plus1 Suc_leD order_refl skip_ws.simps)

lemma skip_ws_le [progress]: "i \<le> length s \<Longrightarrow> skip_ws s i \<le> length s"
  by (induction s i rule: skip_ws.induct) (metis Suc_eq_plus1 Suc_leI skip_ws.simps)

lemma byte_at_less [progress]: "byte_at s i b \<Longrightarrow> i < length s"
  by (simp add: byte_at_def)

lemma expect_Ok [simp]: "expect s i b = Ok j \<longleftrightarrow> byte_at s i b \<and> j = i + 1"
  by (auto simp: expect_def)

lemma digits_end_bounds: "i \<le> length s \<Longrightarrow> i \<le> digits_end s i \<and> digits_end s i \<le> length s"
proof (induction s i rule: digits_end.induct)
  case (1 s i)
  show ?case
  proof (cases "i < length s \<and> is_digit (s ! i)")
    case True
    with 1 have "i + 1 \<le> digits_end s (i + 1) \<and> digits_end s (i + 1) \<le> length s" by simp
    with True show ?thesis unfolding digits_end.simps [of s i] by auto
  next
    case False
    with 1 show ?thesis unfolding digits_end.simps [of s i] by auto
  qed
qed

lemma integer_part_Ok: "integer_part s i = Ok j \<Longrightarrow> i < j \<and> j \<le> length s"
  using digits_end_bounds [of "i + 1" s] by (auto simp: integer_part_def byte_at_def split: if_splits)

lemma decimal_step_bound:
  assumes "300 < limit" "fst st \<le> limit"
  shows "fst (decimal_step limit s k st) \<le> limit"
proof -
  let ?d = "unat (s ! k - 0x30)"
  have "?d \<le> limit" using assms unat_u8_less [of "s ! k - 0x30"] by linarith
  then have "fst st \<le> (limit - ?d) div 10 \<Longrightarrow> fst st * 10 + ?d \<le> limit" by linarith
  with assms show ?thesis by (cases st) (simp add: decimal_step_def Let_def)
qed

lemma decimal_fold_bound:
  "300 < limit \<Longrightarrow> fst st \<le> limit \<Longrightarrow> fst (fold (decimal_step limit s) ks st) \<le> limit"
  by (induction ks arbitrary: st) (simp_all add: decimal_step_bound)

lemma decimal_i64_range: "decimal_i64 s from to negative = Some n \<Longrightarrow> in_i64 n"
  using decimal_fold_bound [of "if negative then 9223372036854775808 else 9223372036854775807" "(0, True)" s "[from..<to]"]
  by (auto simp: decimal_i64_def in_i64_def Let_def split: if_splits prod.splits)

lemma parse_number_Ok: "parse_number s i = Ok (n, j) \<Longrightarrow> i < j \<and> j \<le> length s \<and> in_i64 n"
  by (fastforce simp: parse_number_def Let_def decimal_i64_range dest!: integer_part_Ok split: if_splits option.splits)

section \<open>Strings\<close>

lemma string_loop_Ok: "string_loop s i us = Ok (us', j) \<Longrightarrow> i < j \<and> j \<le> length s"
proof (induction s i us rule: string_loop.induct)
  case (1 s i us)
  note loop = "1.prems" [unfolded string_loop.simps [of s i us] Let_def]
  have i: "i < length s" using loop by (auto split: if_splits)
  consider "s ! i = 0x22"
    | u k where "s ! i = 0x5C" "i + 1 < length s" "s ! (i + 1) = 0x75" "parse_hex4 s (i + 2) = Ok (u, k)"
        "string_loop s k (us @ [u]) = Ok (us', j)"
    | "s ! i = 0x5C" "i + 1 < length s" "s ! (i + 1) \<noteq> 0x75" "short_escape (s ! (i + 1)) < 0x80"
        "string_loop s (i + 2) (us @ [short_escape (s ! (i + 1))]) = Ok (us', j)"
    | c l where "s ! i \<noteq> 0x22" "s ! i \<noteq> 0x5C" "\<not> s ! i < 0x20" "next_utf8_char s i = Ok (c, l)"
        "string_loop s (i + l) (push_utf16 us c) = Ok (us', j)"
    using loop i by (auto split: if_splits result.splits)
  then show ?case
  proof cases
    case 1
    with loop i show ?thesis by auto
  next
    case 2
    then have "k < j \<and> j \<le> length s" using "1.IH"(1) [OF _ refl _ _ _ refl _ 2(4) refl] i by simp
    with 2 show ?thesis by (auto dest!: parse_hex4_Ok)
  next
    case 3
    then show ?thesis using "1.IH"(2) [OF _ refl _ _ _ refl _ refl] i by simp
  next
    case 4
    then have "i + l < j \<and> j \<le> length s" using "1.IH"(3) [OF _ refl _ _ _ 4(4) refl] i by simp
    with 4 show ?thesis by (auto dest!: next_utf8_char_len)
  qed
qed

lemma decode_utf16_strict_str: "decode_utf16_strict us = Ok t \<Longrightarrow> is_str t"
  by (auto simp: decode_utf16_strict_def from_utf8_def is_str_def split: if_splits)

lemma parse_string_progress: "parse_string uni s i = Ok (t, j) \<Longrightarrow> i < j \<and> j \<le> length s"
  by (auto simp: parse_string_def dest!: string_loop_Ok)

lemma parse_string_Ok:
  assumes "nfc_ok uni" "parse_string uni s i = Ok (t, j)"
  shows "is_str t \<and> nfc uni t = t"
proof -
  obtain us t' where "string_loop s (i + 1) [] = Ok (us, j)" "decode_utf16_strict us = Ok t'" "t = nfc uni t'"
    using assms(2) by (auto simp: parse_string_def)
  with assms(1) show ?thesis
    by (auto simp: is_str_nfc nfc_idem dest!: decode_utf16_strict_str string_loop_Ok)
qed

section \<open>The first repeated key\<close>

lemma sorted_wrt_filterD:
  "sorted_wrt P (filter Q xs) \<Longrightarrow> sorted_wrt (\<lambda>x y. Q x \<longrightarrow> Q y \<longrightarrow> P x y) xs"
  by (induction xs) (auto split: if_splits)

text \<open>A stable sort of positions lists equal keys in increasing position.\<close>

lemma sort_positions_stable:
  assumes "i < j" "j < length (sort_key f [0..<n])"
    and "f (sort_key f [0..<n] ! i) = f (sort_key f [0..<n] ! j)"
  shows "sort_key f [0..<n] ! i < sort_key f [0..<n] ! j"
proof -
  let ?k = "f (sort_key f [0..<n] ! j)"
  have "sorted_wrt (<) (filter (\<lambda>p. f p = ?k) (sort_key f [0..<n]))"
    by (simp add: sort_key_stable sorted_wrt_filter)
  from sorted_wrt_filterD [OF this] assms show ?thesis by (simp add: sorted_wrt_iff_nth_less)
qed

definition repeats :: "nat list list \<Rightarrow> nat \<Rightarrow> bool" where
  "repeats units p \<longleftrightarrow> p < length units \<and> (\<exists>q<p. units ! q = units ! p)"

lemma adjacent_iff_repeats:
  fixes units :: "nat list list"
  defines "order \<equiv> sort_key ((!) units) [0..<length units]"
  shows "(\<exists>n\<in>{1..<length order}. units ! (order ! (n - 1)) = units ! (order ! n) \<and> order ! n = p) \<longleftrightarrow> repeats units p"
proof
  have set: "set order = {0..<length units}" by (simp add: order_def)
  assume "\<exists>n\<in>{1..<length order}. units ! (order ! (n - 1)) = units ! (order ! n) \<and> order ! n = p"
  then obtain n where n: "0 < n" "n < length order" "units ! (order ! (n - 1)) = units ! (order ! n)" "order ! n = p"
    by (auto simp: Suc_le_eq)
  then have "order ! (n - 1) < order ! n"
    unfolding order_def by (intro sort_positions_stable) auto
  moreover have "p < length units" using n set nth_mem by fastforce
  ultimately show "repeats units p" using n unfolding repeats_def by auto
next
  have set: "set order = {0..<length units}" by (simp add: order_def)
  have srt: "sorted (map ((!) units) order)" unfolding order_def by (rule sorted_sort_key)
  assume "repeats units p"
  then obtain q where q: "q < p" "p < length units" "units ! q = units ! p" by (auto simp: repeats_def)
  from set q have "p \<in> set order" "q \<in> set order" by auto
  then obtain n m where n: "n < length order" "order ! n = p" and m: "m < length order" "order ! m = q"
    by (auto simp: in_set_conv_nth)
  have "m < n"
  proof (rule ccontr)
    assume "\<not> m < n"
    then have "n < m" using n m q by (metis nat_neq_iff)
    then have "p < q" using sort_positions_stable [of n m "(!) units" "length units"] n m q by (simp add: order_def)
    with q show False by simp
  qed
  then have "units ! q \<le> units ! (order ! (n - 1))" "units ! (order ! (n - 1)) \<le> units ! p"
    using sorted_nth_mono [OF srt, of m "n - 1"] sorted_nth_mono [OF srt, of "n - 1" n] n m by auto
  then have "units ! (order ! (n - 1)) = units ! p" using q by simp
  with n \<open>m < n\<close> show "\<exists>n\<in>{1..<length order}. units ! (order ! (n - 1)) = units ! (order ! n) \<and> order ! n = p"
    by (intro bexI [of _ n]) auto
qed

lemma fold_first_spec:
  fixes g :: "nat \<Rightarrow> nat" and P :: "nat \<Rightarrow> bool"
  defines "r m ns \<equiv> fold (\<lambda>n first. if P n \<and> g n < first then g n else first) ns m"
  shows "r m ns \<le> m \<and> (\<forall>n\<in>set ns. P n \<longrightarrow> r m ns \<le> g n) \<and> (r m ns = m \<or> (\<exists>n\<in>set ns. P n \<and> r m ns = g n))"
  unfolding r_def
proof (induction ns arbitrary: m)
  case (Cons n ns)
  show ?case using Cons [of m] Cons [of "g n"] by (auto intro: order_trans)
qed simp

lemma first_repeat_spec:
  "(first_repeat units = length units \<or> repeats units (first_repeat units))
   \<and> (\<forall>p. repeats units p \<longrightarrow> first_repeat units \<le> p)"
proof -
  define order where "order = sort_key ((!) units) [0..<length units]"
  define P where "P n \<longleftrightarrow> units ! (order ! (n - 1)) = units ! (order ! n)" for n
  have fr: "first_repeat units = fold (\<lambda>n first. if P n \<and> order ! n < first then order ! n else first)
      [1..<length order] (length units)"
    unfolding first_repeat_def sort_by_units_sort_key positions_def P_def order_def Let_def ..
  have rep: "repeats units p \<longleftrightarrow> (\<exists>n\<in>set [1..<length order]. P n \<and> order ! n = p)" for p
    using adjacent_iff_repeats [of units p, folded order_def] unfolding P_def set_upt by blast
  have r: "(\<forall>n\<in>set [1..<length order]. P n \<longrightarrow> first_repeat units \<le> order ! n)"
    "first_repeat units = length units \<or> (\<exists>n\<in>set [1..<length order]. P n \<and> first_repeat units = order ! n)"
    using fold_first_spec [of P "(!) order" "[1..<length order]" "length units", folded fr] by blast+
  from r(2) have "first_repeat units = length units \<or> repeats units (first_repeat units)"
    unfolding rep by fastforce
  moreover from r(1) have "repeats units p \<Longrightarrow> first_repeat units \<le> p" for p
    unfolding rep by blast
  ultimately show ?thesis by blast
qed

lemma first_repeat_distinct: "first_repeat units < length units \<longleftrightarrow> \<not> distinct units"
proof -
  have "(\<exists>p. repeats units p) \<longleftrightarrow> \<not> distinct units"
    unfolding repeats_def distinct_conv_nth by (metis less_trans nat_neq_iff)
  moreover have "repeats units p \<Longrightarrow> p < length units" for p by (simp add: repeats_def)
  ultimately show ?thesis using first_repeat_spec [of units] by (metis le_less_trans nat_neq_iff)
qed

section \<open>The loops over a nested value parser\<close>

text \<open>
  What \<open>parse_array\<close> and \<open>parse_object\<close> rely on of the parser of nested values: it returns, and a
  value it accepts ends strictly after the offset it was called at.
\<close>

definition push_member :: "object_acc \<Rightarrow> nat \<Rightarrow> string \<Rightarrow> canon_value \<Rightarrow> nat \<Rightarrow> object_acc" where
  "push_member a start key v i =
     a \<lparr> acc_units := acc_units a @ [widen (as_bytes key)], acc_starts := acc_starts a @ [start],
         acc_keys := acc_keys a @ [key], acc_members := acc_members a @ [(key, v)], acc_i := i \<rparr>"

lemma push_member_sel [simp]:
  "acc_units (push_member a p k v i) = acc_units a @ [widen (as_bytes k)]"
  "acc_keys (push_member a p k v i) = acc_keys a @ [k]"
  "acc_members (push_member a p k v i) = acc_members a @ [(k, v)]"
  "acc_fault (push_member a p k v i) = acc_fault a"
  "acc_i (push_member a p k v i) = i"
  by (simp_all add: push_member_def)

lemma members_loop_None:
  assumes "members_loop (Suc n) uni pv s a = None" "\<And>i. pv i \<noteq> None"
  obtains key j v k where "parse_string uni s (skip_ws s (acc_i a)) = Ok (key, j)"
    "pv (skip_ws s (Suc (skip_ws s j))) = Some (Ok (v, k))" "byte_at s (skip_ws s k) 0x2C"
    "members_loop n uni pv s (push_member a (skip_ws s (acc_i a)) key v (Suc (skip_ws s k))) = None"
  using assms(1)
  by (auto simp: assms(2) Let_def stop_at_def push_member_def split: if_splits result.splits option.splits)

lemma members_loop_Some:
  assumes "members_loop (Suc n) uni pv s a = Some b" "acc_fault b = None"
  obtains key j v k where "parse_string uni s (skip_ws s (acc_i a)) = Ok (key, j)"
    "pv (skip_ws s (Suc (skip_ws s j))) = Some (Ok (v, k))"
    "byte_at s (skip_ws s k) 0x2C \<and>
       members_loop n uni pv s (push_member a (skip_ws s (acc_i a)) key v (Suc (skip_ws s k))) = Some b
     \<or> byte_at s (skip_ws s k) 0x7D \<and> b = push_member a (skip_ws s (acc_i a)) key v (Suc (skip_ws s k))"
  using assms
  by (auto simp: Let_def stop_at_def push_member_def split: if_splits result.splits option.splits)

locale value_parser =
  fixes s :: bytes and pv :: value_parser
  assumes pv_total: "pv i \<noteq> None"
    and pv_progress: "pv i = Some (Ok (v, j)) \<Longrightarrow> i < j \<and> j \<le> length s"
begin

lemma array_loop_total: "i \<le> length s \<Longrightarrow> length s - i < n \<Longrightarrow> array_loop n pv s i items \<noteq> None"
proof (induction n arbitrary: i items)
  case (Suc n)
  show ?case
  proof (cases "\<exists>v j. pv (skip_ws s i) = Some (Ok (v, j)) \<and> byte_at s (skip_ws s j) 0x2C")
    case True
    then obtain v j where p: "pv (skip_ws s i) = Some (Ok (v, j))" and b: "byte_at s (skip_ws s j) 0x2C" by blast
    have "i < skip_ws s j" using pv_progress [OF p] skip_ws_ge [of i s] skip_ws_ge [of j s] by linarith
    moreover have "skip_ws s j < length s" using b by (rule byte_at_less)
    ultimately have "array_loop n pv s (skip_ws s j + 1) (items @ [v]) \<noteq> None"
      using Suc.prems by (intro Suc.IH) linarith+
    with p b show ?thesis by (simp add: Let_def)
  qed (use pv_total in \<open>auto simp: Let_def split: option.splits result.splits\<close>)
qed simp

lemma array_loop_progress:
  "array_loop n pv s i items = Some (Ok (v, j)) \<Longrightarrow> i < j \<and> j \<le> length s"
proof (induction n arbitrary: i items)
  case (Suc n)
  then obtain w k where p: "pv (skip_ws s i) = Some (Ok (w, k))"
    and c: "byte_at s (skip_ws s k) 0x2C \<and> array_loop n pv s (skip_ws s k + 1) (items @ [w]) = Some (Ok (v, j))
       \<or> byte_at s (skip_ws s k) 0x5D \<and> j = skip_ws s k + 1"
    by (auto simp: Let_def split: option.splits result.splits if_splits)
  have "i < skip_ws s k" using pv_progress [OF p] skip_ws_ge [of i s] skip_ws_ge [of k s] by linarith
  with c Suc.IH [of "skip_ws s k + 1" "items @ [w]"] show ?case by (auto dest: byte_at_less)
qed simp

lemma parse_array_total: "length s \<le> n \<Longrightarrow> parse_array n pv s i depth \<noteq> None"
  using array_loop_total [of "skip_ws s (Suc i)" n "[]"] skip_ws_le [of "Suc i" s] skip_ws_ge [of "Suc i" s]
  by (auto simp: parse_array_def Let_def byte_at_def Suc_le_eq split: result.split)

lemma parse_array_progress: "parse_array n pv s i depth = Some (Ok (v, j)) \<Longrightarrow> i < j \<and> j \<le> length s"
  using array_loop_progress [of n "skip_ws s (Suc i)" "[]" v j] skip_ws_ge [of "Suc i" s]
  by (auto simp: parse_array_def Let_def byte_at_def split: result.splits if_splits)

lemma member_progress:
  assumes "parse_string uni s (skip_ws s i) = Ok (key, j)"
    and "pv (skip_ws s (Suc (skip_ws s j))) = Some (Ok (v, k))"
  shows "i < skip_ws s k"
  using parse_string_progress [OF assms(1)] pv_progress [OF assms(2)] skip_ws_ge [of i s]
    skip_ws_ge [of j s] skip_ws_ge [of "Suc (skip_ws s j)" s] skip_ws_ge [of k s] by linarith

lemma members_loop_total:
  "acc_i a \<le> length s \<Longrightarrow> length s - acc_i a < n \<Longrightarrow> members_loop n uni pv s a \<noteq> None"
proof (induction n arbitrary: a)
  case (Suc n)
  show ?case
  proof (cases "members_loop (Suc n) uni pv s a")
    case None
    then obtain key j v k where str: "parse_string uni s (skip_ws s (acc_i a)) = Ok (key, j)"
      and val: "pv (skip_ws s (Suc (skip_ws s j))) = Some (Ok (v, k))" and c: "byte_at s (skip_ws s k) 0x2C"
      and rec: "members_loop n uni pv s (push_member a (skip_ws s (acc_i a)) key v (Suc (skip_ws s k))) = None"
      using pv_total by (rule members_loop_None)
    have "acc_i a < skip_ws s k" by (rule member_progress [OF str val])
    then have "members_loop n uni pv s (push_member a (skip_ws s (acc_i a)) key v (Suc (skip_ws s k))) \<noteq> None"
      using Suc.prems byte_at_less [OF c] by (intro Suc.IH) simp_all
    with rec show ?thesis by simp
  qed simp
qed simp

lemma members_loop_progress:
  "members_loop n uni pv s a = Some b \<Longrightarrow> acc_fault b = None \<Longrightarrow> acc_i a < acc_i b \<and> acc_i b \<le> length s"
proof (induction n arbitrary: a)
  case (Suc n)
  from Suc.prems obtain key j v k where str: "parse_string uni s (skip_ws s (acc_i a)) = Ok (key, j)"
    and val: "pv (skip_ws s (Suc (skip_ws s j))) = Some (Ok (v, k))"
    and c: "byte_at s (skip_ws s k) 0x2C \<and>
         members_loop n uni pv s (push_member a (skip_ws s (acc_i a)) key v (Suc (skip_ws s k))) = Some b
       \<or> byte_at s (skip_ws s k) 0x7D \<and> b = push_member a (skip_ws s (acc_i a)) key v (Suc (skip_ws s k))"
    by (rule members_loop_Some)
  have "acc_i a < skip_ws s k" by (rule member_progress [OF str val])
  with c Suc.IH [of "push_member a (skip_ws s (acc_i a)) key v (Suc (skip_ws s k))"] Suc.prems(2) show ?case
    by (auto dest: byte_at_less)
qed simp

lemma parse_object_total: "length s \<le> n \<Longrightarrow> parse_object n uni pv s i depth \<noteq> None"
proof (cases "byte_at s i 0x7B")
  case True
  assume n: "length s \<le> n"
  let ?a = "\<lparr> acc_units = [], acc_starts = [], acc_keys = [], acc_members = [],
                           acc_fault = None, acc_i = skip_ws s (Suc i) \<rparr>"
  have "Suc i \<le> length s" using True by (simp add: byte_at_def)
  then have "members_loop n uni pv s ?a \<noteq> None"
    using n skip_ws_le [of "Suc i" s] skip_ws_ge [of "Suc i" s] by (intro members_loop_total) simp_all
  with True show ?thesis by (auto simp: parse_object_def Let_def expect_def split: option.split)
qed (simp add: parse_object_def expect_def)

lemma parse_object_progress:
  "parse_object n uni pv s i depth = Some (Ok (v, j)) \<Longrightarrow> i < j \<and> j \<le> length s"
  using skip_ws_ge [of "Suc i" s]
  by (auto simp: parse_object_def Let_def byte_at_def expect_def dest!: members_loop_progress
      split: result.splits option.splits if_splits)

end

section \<open>Every document is decided\<close>

lemma parse_literal_Ok: "parse_literal s i kw e v = Ok (w, j) \<Longrightarrow> kw \<noteq> [] \<Longrightarrow> i < length s \<Longrightarrow>
    i < j \<and> j \<le> length s \<and> w = v"
  by (auto simp: parse_literal_def split: if_splits)

lemma parse_array_returns:
  assumes "depth < MAX_DEPTH \<Longrightarrow> value_parser s pv"
  shows "parse_array (length s + 1) pv s i depth \<noteq> None"
proof (cases "depth < MAX_DEPTH")
  case True
  from assms [OF True] show ?thesis by (rule value_parser.parse_array_total) simp
qed (auto simp: parse_array_def split: result.splits)

lemma parse_object_returns:
  assumes "depth < MAX_DEPTH \<Longrightarrow> value_parser s pv"
  shows "parse_object (length s + 1) uni pv s i depth \<noteq> None"
proof (cases "depth < MAX_DEPTH")
  case True
  from assms [OF True] show ?thesis by (rule value_parser.parse_object_total) simp
qed (auto simp: parse_object_def split: result.splits)

lemma parse_array_Ok_depth: "parse_array n pv s i depth = Some (Ok r) \<Longrightarrow> depth < MAX_DEPTH"
  by (auto simp: parse_array_def split: result.splits if_splits)

lemma parse_object_Ok_depth: "parse_object n uni pv s i depth = Some (Ok r) \<Longrightarrow> depth < MAX_DEPTH"
  by (auto simp: parse_object_def split: result.splits if_splits)

lemma parse_value_parser:
  "depth \<le> MAX_DEPTH \<Longrightarrow> MAX_DEPTH < fuel + depth \<Longrightarrow> value_parser s (\<lambda>i. parse_value fuel uni s i depth)"
proof (induction fuel arbitrary: depth)
  case (Suc fuel)
  let ?pv = "\<lambda>j. parse_value fuel uni s j (depth + 1)"
  have nested: "depth < MAX_DEPTH \<Longrightarrow> value_parser s ?pv" using Suc by simp
  note step = parse_value.simps(2) Let_def
  show ?case
  proof
    fix i
    show "parse_value (Suc fuel) uni s i depth \<noteq> None"
      using parse_array_returns [OF nested] parse_object_returns [OF nested] by (simp add: step)
    fix v j assume p: "parse_value (Suc fuel) uni s i depth = Some (Ok (v, j))"
    have "parse_array (length s + 1) ?pv s i depth = Some (Ok (v, j)) \<Longrightarrow> i < j \<and> j \<le> length s"
      using value_parser.parse_array_progress [OF nested] parse_array_Ok_depth by blast
    moreover have "parse_object (length s + 1) uni ?pv s i depth = Some (Ok (v, j)) \<Longrightarrow> i < j \<and> j \<le> length s"
      using value_parser.parse_object_progress [OF nested] parse_object_Ok_depth by blast
    ultimately show "i < j \<and> j \<le> length s"
      using p by (auto simp: step dest!: parse_string_progress parse_number_Ok parse_literal_Ok split: if_splits)
  qed
qed simp

text \<open>The instance the top level runs.\<close>

interpretation document: value_parser s "\<lambda>i. parse_value (MAX_DEPTH + 1) uni s i 0" for s uni
  by (rule parse_value_parser) simp_all

lemma parse_document_returns: "parse_document uni input \<noteq> None"
  using document.pv_total by (simp add: parse_document_def parse_top_level_general_def Let_def)

section \<open>Accepted values are well formed\<close>

primrec nesting :: "canon_value \<Rightarrow> nat" where
  "nesting Null = 0"
| "nesting (Bool b) = 0"
| "nesting (CInt n) = 0"
| "nesting (Str s) = 0"
| "nesting (Array items) = Suc (foldr max (map nesting items) 0)"
| "nesting (Object members) = Suc (foldr max (map snd (map (map_prod (\<lambda>k. k) nesting) members)) 0)"

primrec parsed :: "(string \<Rightarrow> string) \<Rightarrow> canon_value \<Rightarrow> bool" where
  "parsed uni Null = True"
| "parsed uni (Bool b) = True"
| "parsed uni (CInt n) = in_i64 n"
| "parsed uni (Str s) = (is_str s \<and> nfc uni s = s)"
| "parsed uni (Array items) = list_all id (map (parsed uni) items)"
| "parsed uni (Object members) =
     (distinct (map fst members)
      \<and> list_all (\<lambda>(k, w). is_str k \<and> nfc uni k = k \<and> w) (map (map_prod (\<lambda>k. k) (parsed uni)) members))"

lemma foldr_max_le: "foldr max xs 0 \<le> (n::nat) \<longleftrightarrow> (\<forall>x\<in>set xs. x \<le> n)"
  by (induction xs) auto

lemma nesting_Array_le: "nesting (Array vs) \<le> n \<longleftrightarrow> 0 < n \<and> (\<forall>v\<in>set vs. nesting v \<le> n - 1)"
  by (cases n) (auto simp: foldr_max_le)

lemma nesting_Object_le: "nesting (Object ms) \<le> n \<longleftrightarrow> 0 < n \<and> (\<forall>(k, v)\<in>set ms. nesting v \<le> n - 1)"
  by (cases n) (fastforce simp: foldr_max_le)+

lemma parsed_Array: "parsed uni (Array vs) \<longleftrightarrow> (\<forall>v\<in>set vs. parsed uni v)"
  by (auto simp: list_all_iff)

lemma parsed_Object:
  "parsed uni (Object ms) \<longleftrightarrow>
     distinct (map fst ms) \<and> (\<forall>(k, v)\<in>set ms. is_str k \<and> nfc uni k = k \<and> parsed uni v)"
  by (auto simp: list_all_iff)

declare parsed.simps(5,6) [simp del] nesting.simps(5,6) [simp del]

lemma array_loop_all:
  assumes "\<And>i v j. pv i = Some (Ok (v, j)) \<Longrightarrow> P v"
  shows "array_loop n pv s i items = Some (Ok (v, j)) \<Longrightarrow> \<exists>vs. v = Array (items @ vs) \<and> (\<forall>w\<in>set vs. P w)"
proof (induction n arbitrary: i items)
  case (Suc n)
  from Suc.prems obtain w k where pv: "pv (skip_ws s i) = Some (Ok (w, k))"
    and c: "array_loop n pv s (skip_ws s k + 1) (items @ [w]) = Some (Ok (v, j)) \<or> v = Array (items @ [w])"
    by (auto simp: Let_def split: option.splits result.splits if_splits)
  from pv have w: "P w" by (rule assms)
  from c show ?case
  proof
    assume "array_loop n pv s (skip_ws s k + 1) (items @ [w]) = Some (Ok (v, j))"
    from Suc.IH [OF this] obtain vs where "v = Array ((items @ [w]) @ vs)" "\<forall>x\<in>set vs. P x" by blast
    with w show ?thesis by (intro exI [of _ "w # vs"]) simp
  qed (use w in auto)
qed simp

lemma members_loop_all:
  assumes "\<And>i v j. pv i = Some (Ok (v, j)) \<Longrightarrow> P v" and "nfc_ok uni"
  shows "members_loop n uni pv s a = Some b \<Longrightarrow> acc_fault b = None \<Longrightarrow>
    acc_units a = map (widen \<circ> as_bytes \<circ> fst) (acc_members a) \<Longrightarrow>
    \<forall>(k, v)\<in>set (acc_members a). is_str k \<and> nfc uni k = k \<and> P v \<Longrightarrow>
    acc_units b = map (widen \<circ> as_bytes \<circ> fst) (acc_members b)
    \<and> (\<forall>(k, v)\<in>set (acc_members b). is_str k \<and> nfc uni k = k \<and> P v)"
proof (induction n arbitrary: a)
  case (Suc n)
  from Suc.prems(1,2) obtain key j v k where str: "parse_string uni s (skip_ws s (acc_i a)) = Ok (key, j)"
    and val: "pv (skip_ws s (Suc (skip_ws s j))) = Some (Ok (v, k))"
    and c: "byte_at s (skip_ws s k) 0x2C \<and>
         members_loop n uni pv s (push_member a (skip_ws s (acc_i a)) key v (Suc (skip_ws s k))) = Some b
       \<or> byte_at s (skip_ws s k) 0x7D \<and> b = push_member a (skip_ws s (acc_i a)) key v (Suc (skip_ws s k))"
    by (rule members_loop_Some)
  from c show ?case
  proof
    assume "byte_at s (skip_ws s k) 0x2C \<and>
         members_loop n uni pv s (push_member a (skip_ws s (acc_i a)) key v (Suc (skip_ws s k))) = Some b"
    then show ?thesis
      using Suc.IH [of "push_member a (skip_ws s (acc_i a)) key v (Suc (skip_ws s k))"] Suc.prems(2-4)
        parse_string_Ok [OF assms(2) str] assms(1) [OF val] by simp
  qed (use Suc.prems(2-4) parse_string_Ok [OF assms(2) str] assms(1) [OF val] in simp)
qed simp

lemma widen_inject [simp]: "widen a = widen b \<longleftrightarrow> a = b"
  by (simp add: widen_def inj_map_eq_map inj_unsigned)

lemma parse_array_all:
  assumes "parse_array n pv s i depth = Some (Ok (v, j))" "\<And>i v j. pv i = Some (Ok (v, j)) \<Longrightarrow> P v"
  obtains vs where "v = Array vs" "\<forall>w\<in>set vs. P w"
proof -
  have "v = Array [] \<or> array_loop n pv s (skip_ws s (Suc i)) [] = Some (Ok (v, j))"
    using assms(1) by (auto simp: parse_array_def Let_def split: result.splits if_splits)
  then have "\<exists>vs. v = Array vs \<and> (\<forall>w\<in>set vs. P w)"
    using array_loop_all [OF assms(2), where n = n and s = s and items = "[]" and v = v and j = j] by fastforce
  then show ?thesis using that by blast
qed

lemma parse_object_all:
  assumes "parse_object n uni pv s i depth = Some (Ok (v, j))" "\<And>i v j. pv i = Some (Ok (v, j)) \<Longrightarrow> P v"
    and "nfc_ok uni"
  obtains ms where "v = Object ms" "distinct (map fst ms)" "\<forall>(k, v)\<in>set ms. is_str k \<and> nfc uni k = k \<and> P v"
proof -
  let ?a = "\<lparr> acc_units = [], acc_starts = [], acc_keys = [], acc_members = [],
                           acc_fault = None, acc_i = skip_ws s (Suc i) \<rparr>"
  consider "v = Object []"
    | b where "members_loop n uni pv s ?a = Some b" "acc_fault b = None" "distinct (acc_units b)"
      "v = Object (acc_members b)"
    using assms(1) by (auto simp: parse_object_def Let_def first_repeat_distinct split: result.splits if_splits option.splits)
  then show ?thesis
  proof cases
    case 2
    then have "acc_units b = map (widen \<circ> as_bytes \<circ> fst) (acc_members b)"
      and ok: "\<forall>(k, v)\<in>set (acc_members b). is_str k \<and> nfc uni k = k \<and> P v"
      using members_loop_all [OF assms(2,3), where n = n and s = s and a = ?a and b = b] by simp_all
    with 2 have "distinct (map (\<lambda>k. widen (as_bytes k)) (map fst (acc_members b)))" by (simp add: comp_def)
    then have "distinct (map fst (acc_members b))" by (simp only: distinct_map)
    with 2 ok show ?thesis by (intro that)
  qed (use that in simp)
qed

lemma parsed_value_ok: "parsed uni v \<Longrightarrow> value_ok v"
proof (induction v)
  case (Object ms)
  then show ?case by (fastforce simp: parsed_Object)
qed (auto simp: parsed_Array)

definition good_at :: "(string \<Rightarrow> string) \<Rightarrow> nat \<Rightarrow> canon_value \<Rightarrow> bool" where
  "good_at uni depth v \<longleftrightarrow> parsed uni v \<and> nesting v + depth \<le> MAX_DEPTH"

lemma good_at_Array:
  "depth < MAX_DEPTH \<Longrightarrow> \<forall>w\<in>set vs. good_at uni (Suc depth) w \<Longrightarrow> good_at uni depth (Array vs)"
  using nesting_Array_le [of vs "MAX_DEPTH - depth"]
  by (auto simp: good_at_def parsed_Array)

lemma good_at_Object:
  "depth < MAX_DEPTH \<Longrightarrow> distinct (map fst ms) \<Longrightarrow>
   \<forall>(k, v)\<in>set ms. is_str k \<and> nfc uni k = k \<and> good_at uni (Suc depth) v \<Longrightarrow> good_at uni depth (Object ms)"
  using nesting_Object_le [of ms "MAX_DEPTH - depth"]
  by (fastforce simp: good_at_def parsed_Object)

lemma parse_value_good:
  assumes "nfc_ok uni"
  shows "depth \<le> MAX_DEPTH \<Longrightarrow> parse_value fuel uni s i depth = Some (Ok (v, j)) \<Longrightarrow> good_at uni depth v"
proof (induction fuel arbitrary: depth i v j)
  case (Suc fuel)
  let ?pv = "\<lambda>j. parse_value fuel uni s j (depth + 1)"
  have nested: "good_at uni (Suc depth) w" if "depth < MAX_DEPTH" "?pv i = Some (Ok (w, k))" for i w k
    using Suc.IH [of "Suc depth"] that by simp
  have arr: "parse_array (length s + 1) ?pv s i depth = Some (Ok (v, j)) \<Longrightarrow> good_at uni depth v"
  proof -
    assume p: "parse_array (length s + 1) ?pv s i depth = Some (Ok (v, j))"
    note d = parse_array_Ok_depth [OF p]
    from p nested [OF d] obtain vs where "v = Array vs" "\<forall>w\<in>set vs. good_at uni (Suc depth) w"
      by (rule parse_array_all)
    with d show ?thesis by (simp add: good_at_Array)
  qed
  have obj: "parse_object (length s + 1) uni ?pv s i depth = Some (Ok (v, j)) \<Longrightarrow> good_at uni depth v"
  proof -
    assume p: "parse_object (length s + 1) uni ?pv s i depth = Some (Ok (v, j))"
    note d = parse_object_Ok_depth [OF p]
    from p nested [OF d] assms obtain ms where "v = Object ms" "distinct (map fst ms)"
      "\<forall>(k, v)\<in>set ms. is_str k \<and> nfc uni k = k \<and> good_at uni (Suc depth) v"
      by (rule parse_object_all)
    with d show ?thesis by (simp add: good_at_Object)
  qed
  have lit: "parse_literal s i kw e w = Ok (v, j) \<Longrightarrow> v = w" for kw e w
    by (auto simp: parse_literal_def split: if_splits)
  have atom: "good_at uni depth Null" "good_at uni depth (Bool b)" "in_i64 n \<Longrightarrow> good_at uni depth (CInt n)"
    "is_str t \<Longrightarrow> nfc uni t = t \<Longrightarrow> good_at uni depth (Str t)" for b n t
    using Suc.prems(1) by (simp_all add: good_at_def)
  from Suc.prems(2) arr obj show ?case
    by (auto simp: parse_value.simps(2) Let_def atom dest!: parse_number_Ok parse_string_Ok [OF assms] lit split: if_splits)
qed simp

lemma parse_document_parsed:
  assumes "nfc_ok uni" "parse_document uni input = Some (Ok v)"
  shows "parsed uni v \<and> nesting v \<le> MAX_DEPTH"
  using assms parse_value_good [OF assms(1), of 0]
  by (auto simp: parse_document_def parse_top_level_general_def Let_def good_at_def dest!: parse_number_Ok split: if_splits)

end
