(* ===== verification/Canon_Roundtrip.thy ===== *)
theory Canon_Roundtrip
  imports Canon_Total
begin

text \<open>
  The parser reads back what the serializer wrote: on the canonical text of a value with unique keys
  and bounded nesting, \<open>parse_document\<close> returns the value's canonical form. Hence the canonical text
  determines the canonical form, which is what every digest over it binds.

  The lemmas describe the parser at an offset \<open>i\<close> by what remains there, \<open>drop i s = t @ r\<close>, and give
  the offset just past \<open>t\<close>.
\<close>

section \<open>Offsets and remaining input\<close>

lemma drop_ConsD:
  assumes "drop i s = b # r"
  shows "i < length s" "s ! i = b" "drop (Suc i) s = r"
proof -
  show i: "i < length s" using assms by (metis drop_eq_Nil list.distinct(1) not_le)
  show "s ! i = b" "drop (Suc i) s = r"
    using assms Cons_nth_drop_Suc [OF i] by simp_all
qed

lemma drop_appendD: "drop i s = t @ r \<Longrightarrow> drop (i + length t) s = r"
  by (metis add.commute append_eq_conv_conj drop_drop)

lemma drop_length_le: "drop i s = t @ r \<Longrightarrow> t \<noteq> [] \<Longrightarrow> i + length t \<le> length s"
  by (metis append_is_Nil_conv diff_add_inverse2 drop_eq_Nil le_add1 length_append length_drop nle_le
      add.commute le_diff_conv2 linear)

lemma nth_drop_append: "drop i s = t @ r \<Longrightarrow> k < length t \<Longrightarrow> s ! (i + k) = t ! k"
  by (metis drop_eq_Nil append_is_Nil_conv length_greater_0_conv less_imp_not_eq2 nle_le nth_append nth_drop
      list.size(3) not_less_zero)

lemma byte_at_drop: "drop i s = b # r \<Longrightarrow> byte_at s i c \<longleftrightarrow> b = c"
  by (auto simp: byte_at_def dest: drop_ConsD)

lemma byte_at_drop_Nil: "drop i s = [] \<Longrightarrow> \<not> byte_at s i c"
  by (simp add: byte_at_def)

lemma skip_ws_drop: "drop i s = b # r \<Longrightarrow> \<not> is_ws b \<Longrightarrow> skip_ws s i = i"
  by (simp add: skip_ws.simps [of s i] drop_ConsD)

lemma skip_ws_end: "length s \<le> i \<Longrightarrow> skip_ws s i = i"
  by (simp add: skip_ws.simps [of s i])

text \<open>What may follow a value inside canonical text.\<close>

definition delim :: "bytes \<Rightarrow> bool" where
  "delim r \<longleftrightarrow> r = [] \<or> hd r = 0x2C \<or> hd r = 0x5D \<or> hd r = 0x7D"

section \<open>Strings\<close>

lemma lead_byte:
  "drop_bit 5 (b::u8) = 0b110 \<longleftrightarrow> 0xC0 \<le> unat b \<and> unat b < 0xE0"
  "drop_bit 4 b = 0b1110 \<longleftrightarrow> 0xE0 \<le> unat b \<and> unat b < 0xF0"
  "drop_bit 3 b = 0b11110 \<longleftrightarrow> 0xF0 \<le> unat b \<and> unat b < 0xF8"
proof -
  have "\<forall>b::u8. (drop_bit 5 b = 0b110 \<longleftrightarrow> 0xC0 \<le> unat b \<and> unat b < 0xE0)
     \<and> (drop_bit 4 b = 0b1110 \<longleftrightarrow> 0xE0 \<le> unat b \<and> unat b < 0xF0)
     \<and> (drop_bit 3 b = 0b11110 \<longleftrightarrow> 0xF0 \<le> unat b \<and> unat b < 0xF8)"
    unfolding u8_all_iff by code_simp
  then show "drop_bit 5 (b::u8) = 0b110 \<longleftrightarrow> 0xC0 \<le> unat b \<and> unat b < 0xE0"
    "drop_bit 4 b = 0b1110 \<longleftrightarrow> 0xE0 \<le> unat b \<and> unat b < 0xF0"
    "drop_bit 3 b = 0b11110 \<longleftrightarrow> 0xF0 \<le> unat b \<and> unat b < 0xF8" by blast+
qed

text \<open>The escape of an ASCII byte takes one of the three forms the string loop distinguishes.\<close>

lemma escape_byte_forms:
  assumes "unat b < 0x80"
  obtains e where "escape_byte b = [0x5C, e]" "e \<noteq> 0x75" "short_escape e = unat b"
  | h l where "escape_byte b = [0x5C, 0x75, 0x30, 0x30, h, l]" "hex_value h \<le> 15" "hex_value l \<le> 15"
      "hex_value h * 0x10 + hex_value l = unat b"
  | "escape_byte b = [b]" "b \<noteq> 0x22" "b \<noteq> 0x5C" "0x20 \<le> unat b"
proof -
  have "\<forall>b. unat b < 0x80 \<longrightarrow> (let t = escape_byte b in
       t = [b] \<and> b \<noteq> 0x22 \<and> b \<noteq> 0x5C \<and> 0x20 \<le> unat b
     \<or> t = [0x5C, t ! 1] \<and> t ! 1 \<noteq> 0x75 \<and> short_escape (t ! 1) = unat b
     \<or> t = [0x5C, 0x75, 0x30, 0x30, t ! 4, t ! 5] \<and> hex_value (t ! 4) \<le> 15 \<and> hex_value (t ! 5) \<le> 15
         \<and> hex_value (t ! 4) * 0x10 + hex_value (t ! 5) = unat b)"
    unfolding u8_all_iff by code_simp
  with assms that show ?thesis unfolding Let_def by blast
qed

lemma next_utf8_char_front:
  assumes "utf8_front (drop i s) = Some (c, r)"
  shows "next_utf8_char s i = Ok (c, length (drop i s) - length r)"
proof -
  have nth: "s ! (i + k) = drop i s ! k" if "k < length (drop i s)" for k
    using that by simp
  have len: "length s - i = length (drop i s)" by simp
  note next_def = next_utf8_char_def utf8_scalar_def Let_def lead_byte word_nat_order is_continuation_def
  from assms show ?thesis
  proof (cases rule: utf8_front_cases)
    case (one b0)
    with nth [of 0] len show ?thesis by (simp add: next_def del: length_drop)
  next
    case (two b0 b1)
    with nth [of 0] nth [of 1] len show ?thesis by (simp add: next_def del: length_drop)
  next
    case (three b0 b1 b2)
    with nth [of 0] nth [of 1] nth [of 2] len show ?thesis
      by (simp add: next_def del: length_drop split: if_splits)
  next
    case (four b0 b1 b2 b3)
    with nth [of 0] nth [of 1] nth [of 2] nth [of 3] len show ?thesis
      by (simp add: next_def del: length_drop split: if_splits)
  qed
qed

lemma string_loop_quote:
  "drop i s = 0x22 # r \<Longrightarrow> string_loop s i us = Ok (us, i + 1)"
  by (frule drop_ConsD(1), drule drop_ConsD(2)) (simp add: string_loop.simps [of s i us] Let_def)

lemma parse_hex4_drop:
  assumes d: "drop i s = [a, b, c, e] @ r"
    and h: "hex_value a \<le> 15" "hex_value b \<le> 15" "hex_value c \<le> 15" "hex_value e \<le> 15"
  shows "parse_hex4 s i = Ok (hex_value a * 0x1000 + hex_value b * 0x100 + hex_value c * 0x10 + hex_value e, i + 4)"
proof -
  have "s ! i = a" "s ! (i + 1) = b" "s ! (i + 2) = c" "s ! (i + 3) = e"
    using nth_drop_append [OF d, of 0] nth_drop_append [OF d, of 1] nth_drop_append [OF d, of 2]
      nth_drop_append [OF d, of 3] by simp_all
  moreover have "\<not> length s - i < 4" using drop_length_le [OF d] by simp
  ultimately show ?thesis using h by (simp add: parse_hex4_def Let_def)
qed

lemma string_loop_scalar:
  assumes c: "is_scalar c" and d: "drop i s = concat (map escape_byte (utf8_enc c)) @ r"
  shows "string_loop s i us = string_loop s (i + length (concat (map escape_byte (utf8_enc c)))) (us @ utf16_enc c)"
proof (cases "c < 0x80")
  case True
  let ?b = "of_nat c :: u8"
  have b: "unat ?b = c" using True by (simp add: unat_of_nat_u8)
  have e: "concat (map escape_byte (utf8_enc c)) = escape_byte ?b" and u: "utf16_enc c = [c]"
    using True c by (simp_all add: escape_utf8_enc push_utf16_def)
  from True have "unat ?b < 0x80" by (simp add: b)
  then show ?thesis
  proof (cases rule: escape_byte_forms)
    case (1 x)
    with d e have d0: "drop i s = 0x5C # x # r" by simp
    note d1 = drop_ConsD [OF d0] drop_ConsD [OF drop_ConsD(3) [OF d0]]
    from 1 b True have "short_escape x = c" "c < 0x80" by simp_all
    with 1 d1 show ?thesis unfolding e u by (simp add: string_loop.simps [of s i us] Let_def)
  next
    case (2 h l)
    with d e have d0: "drop i s = [0x5C, 0x75, 0x30, 0x30, h, l] @ r" by simp
    note d1 = drop_ConsD [OF d0 [simplified]] drop_ConsD [OF drop_ConsD(3) [OF d0 [simplified]]]
    have "drop (Suc (Suc i)) s = [0x30, 0x30, h, l] @ r" using d1 by simp
    moreover have "hex_value 0x30 = 0" by (simp add: hex_value_def)
    ultimately have hex: "parse_hex4 s (Suc (Suc i)) = Ok (c, i + 6)"
      using parse_hex4_drop [of "Suc (Suc i)" s "0x30" "0x30" h l r] 2 b by simp
    have "length (escape_byte ?b) = 6" by (simp add: 2)
    then show ?thesis unfolding e u using d1 hex by (simp add: string_loop.simps [of s i us] Let_def)
  next
    case 3
    with d e have d0: "drop i s = ?b # r" by simp
    have "utf8_front (drop i s) = Some (c, r)" using d0 b True by (simp add: utf8_front_1)
    from next_utf8_char_front [OF this] have "next_utf8_char s i = Ok (c, 1)" using d0 by simp
    with 3 drop_ConsD [OF d0] b show ?thesis
      unfolding e u by (simp add: string_loop.simps [of s i us] Let_def push_utf16_append [of us] u word_nat_order)
  qed
next
  case False
  with c d have d0: "drop i s = utf8_enc c @ r" and e: "concat (map escape_byte (utf8_enc c)) = utf8_enc c"
    by (simp_all add: escape_utf8_enc)
  obtain b0 t where b0: "utf8_enc c = b0 # t" by (cases "utf8_enc c") simp_all
  have hi: "0x80 \<le> unat b0" using utf8_enc_high [of c b0] False c b0 by simp
  have "utf8_front (drop i s) = Some (c, r)" unfolding d0 by (rule utf8_front_enc [OF c])
  from next_utf8_char_front [OF this] have n: "next_utf8_char s i = Ok (c, length (utf8_enc c))" using d0 by simp
  have "b0 \<noteq> 0x22" "b0 \<noteq> 0x5C" "\<not> b0 < 0x20" using hi by (auto simp: word_nat_order)
  with n drop_ConsD(1,2) [of i s b0 "t @ r"] d0 b0 show ?thesis
    unfolding e by (simp add: string_loop.simps [of s i us] Let_def push_utf16_append [of us])
qed

lemma string_loop_text:
  "list_all is_scalar cs \<Longrightarrow> drop i s = concat (map escape_byte (utf8_text cs)) @ 0x22 # r \<Longrightarrow>
   string_loop s i us = Ok (us @ utf16_text cs, i + length (concat (map escape_byte (utf8_text cs))) + 1)"
proof (induction cs arbitrary: i us)
  case Nil
  then show ?case by (simp add: string_loop_quote utf16_text_def)
next
  case (Cons c cs)
  let ?e = "concat (map escape_byte (utf8_enc c))"
  from Cons.prems have c: "is_scalar c" and d: "drop i s = ?e @ concat (map escape_byte (utf8_text cs)) @ 0x22 # r"
    by simp_all
  have "string_loop s i us = string_loop s (i + length ?e) (us @ utf16_enc c)"
    by (rule string_loop_scalar [OF c d])
  also have "\<dots> = Ok ((us @ utf16_enc c) @ utf16_text cs, (i + length ?e) + length (concat (map escape_byte (utf8_text cs))) + 1)"
    using Cons.prems by (intro Cons.IH) (simp_all add: drop_appendD [OF d])
  finally show ?case by (simp add: utf16_text_def)
qed

lemma utf16_strict_pair:
  assumes "h < 0x400" "l < 0x400"
  shows "utf16_strict_loop ((0xD800 + h) # (0xDC00 + l) # us) out
    = utf16_strict_loop us (push_utf8 out (0x10000 + h * 0x400 + l))"
proof -
  have "0xD800 \<le> 0xD800 + h \<and> 0xD800 + h \<le> 0xDBFF" "\<not> (0xDC00 + l < 0xDC00 \<or> 0xDFFF < 0xDC00 + l)"
    using assms by auto
  then show ?thesis
    unfolding utf16_strict_loop.simps(2) [of "0xD800 + h"] list.case by (simp only: if_True if_False simp_thms add_diff_cancel_left')
qed

lemma utf16_strict_scalar:
  assumes "is_scalar c"
  shows "utf16_strict_loop (utf16_enc c @ us) out = utf16_strict_loop us (out @ utf8_enc c)"
  using assms
proof (cases rule: utf16_enc_cases)
  case 1
  then have "\<not> (0xD800 \<le> c \<and> c \<le> 0xDBFF)" "\<not> (0xDC00 \<le> c \<and> c \<le> 0xDFFF)"
    using assms unfolding is_scalar_def by linarith+
  then show ?thesis
    unfolding 1(2) append_Cons append_Nil utf16_strict_loop.simps(2) push_utf8_append [of out] by (simp only: if_False)
next
  case (2 h l)
  then show ?thesis using utf16_strict_pair [of h l us out] push_utf8_append [of out] by simp
qed

lemma decode_utf16_text:
  assumes "list_all is_scalar cs"
  shows "decode_utf16_strict (utf16_text cs) = Ok (text_of (utf8_text cs))"
proof -
  have "utf16_strict_loop (utf16_text cs) out = Ok (out @ utf8_text cs)" for out
    using assms by (induction cs arbitrary: out) (simp_all add: utf16_text_def utf16_strict_scalar)
  moreover have "utf8_valid (utf8_text cs)" using assms by (auto simp: utf8_valid_iff)
  ultimately show ?thesis by (simp add: decode_utf16_strict_def from_utf8_def)
qed

lemma parse_string_quote:
  assumes "is_str k" "drop i s = quote (as_bytes k) @ r"
  shows "parse_string uni s i = Ok (nfc uni k, i + length (quote (as_bytes k)))"
proof -
  obtain cs where cs: "list_all is_scalar cs" "as_bytes k = utf8_text cs"
    using assms(1) by (auto simp: is_str_def utf8_valid_iff)
  have d: "drop i s = 0x22 # concat (map escape_byte (utf8_text cs)) @ 0x22 # r"
    using assms(2) cs by (simp add: quote_def)
  have "string_loop s (Suc i) [] = Ok (utf16_text cs, Suc i + length (concat (map escape_byte (utf8_text cs))) + 1)"
    using string_loop_text [OF cs(1) drop_ConsD(3) [OF d], of "[]"] by simp
  then show ?thesis
    using byte_at_drop [OF d] cs by (simp add: parse_string_def expect_def decode_utf16_text quote_def)
       (metis cs(2) text_of_as_bytes)
qed

section \<open>Numbers\<close>

definition digit_byte :: "nat \<Rightarrow> u8" where
  "digit_byte d = 0x30 + of_nat d"

lemma digit_byte_facts:
  "d < 10 \<Longrightarrow> is_digit (digit_byte d)" "d < 10 \<Longrightarrow> unat (digit_byte d - 0x30) = d"
  "d < 10 \<Longrightarrow> digit_byte d = 0x30 \<longleftrightarrow> d = 0"
proof -
  have "list_all (\<lambda>d. is_digit (digit_byte d) \<and> unat (digit_byte d - 0x30) = d \<and> (digit_byte d = 0x30 \<longleftrightarrow> d = 0)) [0..<10]"
    by code_simp
  then show "d < 10 \<Longrightarrow> is_digit (digit_byte d)" "d < 10 \<Longrightarrow> unat (digit_byte d - 0x30) = d"
    "d < 10 \<Longrightarrow> digit_byte d = 0x30 \<longleftrightarrow> d = 0" by (simp_all add: list_all_iff)
qed

lemma int_digits_append: "int_digits u ds = int_digits u [] @ ds"
proof (induction u arbitrary: ds rule: less_induct)
  case (less u)
  show ?case
  proof (cases "u div 10 = 0")
    case False
    then have "u div 10 < u" by simp
    let ?d = "0x30 + of_nat (u mod 10) :: u8"
    have "int_digits u ds = int_digits (u div 10) (?d # ds)" for ds
      using False by (subst int_digits.simps) (simp add: Let_def)
    moreover have "int_digits (u div 10) (?d # ds) = int_digits (u div 10) [] @ ?d # ds" for ds
      by (rule less.IH [OF \<open>u div 10 < u\<close>])
    ultimately show ?thesis by simp
  qed (simp add: int_digits.simps [of u])
qed

lemma int_digits_snoc:
  "int_digits u [] = (if u < 10 then [digit_byte u] else int_digits (u div 10) [] @ [digit_byte (u mod 10)])"
  using int_digits_append [of "u div 10" "[digit_byte (u mod 10)]"]
  by (simp add: int_digits.simps [of u] Let_def digit_byte_def div_eq_0_iff)

lemma int_digits_digits: "list_all is_digit (int_digits u [])"
proof (induction u rule: less_induct)
  case (less u)
  then show ?case using digit_byte_facts(1) by (subst int_digits_snoc) simp
qed

lemma int_digits_head:
  "\<exists>b t. int_digits u [] = b # t \<and> (b = 0x30 \<longleftrightarrow> u = 0) \<and> (b = 0x30 \<longrightarrow> t = [])"
proof (induction u rule: less_induct)
  case (less u)
  show ?case
  proof (cases "u < 10")
    case True
    then show ?thesis using digit_byte_facts(3) [of u] by (subst int_digits_snoc) simp
  next
    case False
    then obtain b t where "int_digits (u div 10) [] = b # t" "b = 0x30 \<longleftrightarrow> u div 10 = 0"
      using less [of "u div 10"] by auto
    with False show ?thesis by (subst int_digits_snoc) simp
  qed
qed

lemma length_int_digits: "u < 10 ^ n \<Longrightarrow> 0 < n \<Longrightarrow> length (int_digits u []) \<le> n"
proof (induction n arbitrary: u)
  case (Suc n)
  show ?case
  proof (cases "u < 10")
    case False
    then have "0 < n" using Suc.prems by (cases n) auto
    moreover have "u div 10 < 10 ^ n" using Suc.prems by simp
    ultimately show ?thesis using Suc.IH False by (subst int_digits_snoc) simp
  qed (simp add: int_digits_snoc [of u])
qed simp

lemma decimal_fold_digits:
  assumes "10 \<le> limit"
  shows "u \<le> limit \<Longrightarrow> drop i s = int_digits u [] @ r \<Longrightarrow>
    fold (decimal_step limit s) [i..<i + length (int_digits u [])] (0, True) = (u, True)"
proof (induction u arbitrary: r rule: less_induct)
  case (less u)
  show ?case
  proof (cases "u < 10")
    case True
    have "s ! i = digit_byte u"
      using less.prems(2) nth_drop_append [of i s "[digit_byte u]" r 0] True by (simp add: int_digits_snoc [of u])
    with True assms show ?thesis
      by (simp add: int_digits_snoc [of u] decimal_step_def digit_byte_facts)
  next
    case False
    let ?p = "int_digits (u div 10) []"
    have d: "drop i s = ?p @ digit_byte (u mod 10) # r"
      using less.prems(2) False by (simp add: int_digits_snoc [of u])
    have at: "s ! (i + length ?p) = digit_byte (u mod 10)"
      using drop_ConsD(2) [OF drop_appendD [OF d]] .
    have IH: "fold (decimal_step limit s) [i..<i + length ?p] (0, True) = (u div 10, True)"
      using less.IH [OF _ _ d] False less.prems(1) by simp
    have le: "u div 10 \<le> (limit - u mod 10) div 10"
    proof -
      have "u div 10 * 10 + u mod 10 \<le> limit" using less.prems(1) by simp
      then have "u div 10 * 10 \<le> limit - u mod 10" by linarith
      then show ?thesis by linarith
    qed
    have "[i..<i + length (int_digits u [])] = [i..<i + length ?p] @ [i + length ?p]"
      using False by (simp add: int_digits_snoc [of u])
    moreover have "decimal_step limit s (i + length ?p) (u div 10, True) = (u, True)"
      using le by (simp add: decimal_step_def at digit_byte_facts Let_def)
    ultimately show ?thesis by (simp add: IH)
  qed
qed

lemma digits_end_run:
  "list_all is_digit t \<Longrightarrow> drop i s = t @ r \<Longrightarrow> r = [] \<or> \<not> is_digit (hd r) \<Longrightarrow> digits_end s i = i + length t"
proof (induction t arbitrary: i)
  case Nil
  then show ?case
    by (cases r) (auto simp: digits_end.simps [of s i] dest: drop_ConsD)
next
  case (Cons b t)
  then have d: "drop i s = b # t @ r" by simp
  have "digits_end s (Suc i) = Suc i + length t"
    using Cons by (intro Cons.IH) (simp_all add: drop_ConsD(3) [OF d])
  with drop_ConsD [OF d] Cons.prems show ?case by (simp add: digits_end.simps [of s i])
qed

lemma delim_not_digit: "delim r \<Longrightarrow> r = [] \<or> \<not> is_digit (hd r)"
  by (auto simp: delim_def is_digit_def)

lemma integer_part_digits:
  assumes d: "drop i s = int_digits u [] @ r" and r: "delim r"
  shows "integer_part s i = Ok (i + length (int_digits u []))"
proof -
  obtain b t where bt: "int_digits u [] = b # t" "b = 0x30 \<longleftrightarrow> u = 0" "b = 0x30 \<longrightarrow> t = []"
    using int_digits_head by blast
  have bd: "drop i s = b # t @ r" using d bt by simp
  show ?thesis
  proof (cases "b = 0x30")
    case True
    with bt byte_at_drop [OF bd] show ?thesis by (simp add: integer_part_def)
  next
    case False
    have dg: "is_digit b" "list_all is_digit t" using int_digits_digits [of u] bt by simp_all
    have "digits_end s (Suc i) = Suc i + length t"
      by (rule digits_end_run [OF dg(2) drop_ConsD(3) [OF bd] delim_not_digit [OF r]])
    with False bt dg byte_at_drop [OF bd] drop_ConsD [OF bd] show ?thesis by (simp add: integer_part_def)
  qed
qed

lemma not_byte_at_delim:
  "drop i s = r \<Longrightarrow> delim r \<Longrightarrow> c \<noteq> 0x2C \<Longrightarrow> c \<noteq> 0x5D \<Longrightarrow> c \<noteq> 0x7D \<Longrightarrow> \<not> byte_at s i c"
  by (cases r) (auto simp: delim_def byte_at_drop byte_at_drop_Nil)

lemma decimal_i64_digits:
  assumes "drop i s = int_digits u [] @ r" "u \<le> (if negative then 9223372036854775808 else 9223372036854775807)"
  shows "decimal_i64 s i (i + length (int_digits u [])) negative = Some (if negative then - int u else int u)"
  using decimal_fold_digits [OF _ assms(2,1)] assms(2) by (cases negative) (simp_all add: decimal_i64_def)

lemma parse_number_tail:
  assumes "drop j s = int_digits u [] @ r" "delim r" "byte_at s i 0x2D = negative" "j = (if negative then i + 1 else i)"
    and "u \<le> (if negative then 9223372036854775808 else 9223372036854775807)" "negative \<longrightarrow> 0 < u"
  shows "parse_number s i = Ok (if negative then - int u else int u, j + length (int_digits u []))"
proof -
  let ?e = "j + length (int_digits u [])"
  obtain b t where bt: "int_digits u [] = b # t" "b = 0x30 \<longleftrightarrow> u = 0"
    using int_digits_head by blast
  have rest: "drop ?e s = r" by (rule drop_appendD [OF assms(1)])
  note no = not_byte_at_delim [OF rest assms(2)]
  have "s ! j = b" using assms(1) bt by (simp add: drop_ConsD(2))
  with assms(6) bt have "\<not> (negative \<and> ?e - j = 1 \<and> s ! j = 0x30)" by auto
  with assms(3,4) no integer_part_digits [OF assms(1,2)] decimal_i64_digits [OF assms(1,5)] show ?thesis
    by (simp add: parse_number_def Let_def)
qed

lemma parse_number_int_text:
  assumes n: "in_i64 n" and d: "drop i s = int_text n @ r" and r: "delim r"
  shows "parse_number s i = Ok (n, i + length (int_text n))"
proof (cases "n < 0")
  case True
  with d have d0: "drop i s = 0x2D # int_digits (nat (- n)) [] @ r" by (simp add: int_text_def)
  have u: "nat (- n) \<le> 9223372036854775808" using n by (simp add: in_i64_def nat_le_iff)
  show ?thesis
    using parse_number_tail [OF drop_ConsD(3) [OF d0] r, of i True] byte_at_drop [OF d0] u True
    by (simp add: int_text_def)
next
  case False
  with d have d0: "drop i s = int_digits (nat n) [] @ r" by (simp add: int_text_def)
  obtain b t where bt: "int_digits (nat n) [] = b # t" using int_digits_head by blast
  have "is_digit b" using int_digits_digits [of "nat n"] bt by simp
  then have "b \<noteq> 0x2D" by (auto simp: is_digit_def)
  then have "\<not> byte_at s i 0x2D" using d0 bt by (simp add: byte_at_drop)
  moreover have "nat n \<le> 9223372036854775807" using n by (simp add: in_i64_def nat_le_iff)
  ultimately show ?thesis
    using parse_number_tail [OF d0 r, of i False] False by (simp add: int_text_def)
qed

section \<open>Composite values\<close>

definition start_byte :: "u8 \<Rightarrow> bool" where
  "start_byte b \<longleftrightarrow> \<not> is_ws b \<and> b \<noteq> 0x5D \<and> b \<noteq> 0x7D"

lemma is_digit_start: "is_digit b \<Longrightarrow> start_byte b"
  by (auto simp: is_digit_def start_byte_def is_ws_def)

lemma canon_text_start: "\<exists>b t. canon_text uni v = b # t \<and> start_byte b"
proof (cases v)
  case (CInt n)
  obtain b t where "int_digits (nat n) [] = b # t" "is_digit b"
    using int_digits_head [of "nat n"] int_digits_digits [of "nat n"] by auto
  with CInt show ?thesis by (auto simp: int_text_def is_digit_def start_byte_def is_ws_def)
qed (auto simp: quote_def object_text_def start_byte_def is_ws_def byte_of_def)

lemma skip_ws_start: "drop i s = t @ r \<Longrightarrow> t = b # t' \<Longrightarrow> start_byte b \<Longrightarrow> skip_ws s i = i"
  by (auto simp: start_byte_def intro: skip_ws_drop)

text \<open>The value parser \<open>pv\<close> reads the text \<open>t\<close> as \<open>w\<close> wherever it stands before a delimiter.\<close>

definition reads :: "bytes \<Rightarrow> value_parser \<Rightarrow> bytes \<Rightarrow> canon_value \<Rightarrow> bool" where
  "reads s pv t w \<longleftrightarrow>
     (\<exists>b t'. t = b # t' \<and> start_byte b)
     \<and> (\<forall>i r. drop i s = t @ r \<longrightarrow> delim r \<longrightarrow> pv i = Some (Ok (w, i + length t)))"

lemma reads_at:
  assumes "reads s pv t w" "drop i s = t @ r" "delim r"
  shows "skip_ws s i = i" "pv i = Some (Ok (w, i + length t))" "drop (i + length t) s = r"
  using assms skip_ws_start [OF assms(2)] drop_appendD [OF assms(2)] unfolding reads_def by auto

lemma not_ws: "\<not> is_ws 0x2C" "\<not> is_ws 0x5D" "\<not> is_ws 0x7D" "\<not> is_ws 0x3A" "\<not> is_ws 0x22"
  by (simp_all add: is_ws_def)

lemma array_loop_reads:
  "list_all2 (reads s pv) ts ws \<Longrightarrow> ts \<noteq> [] \<Longrightarrow> drop i s = join_comma ts @ 0x5D # r \<Longrightarrow> length ts \<le> n \<Longrightarrow>
   array_loop n pv s i items = Some (Ok (Array (items @ ws), i + length (join_comma ts) + 1))"
proof (induction ts arbitrary: ws i n items rule: join_comma.induct)
  case (2 t)
  then obtain w n' where ws: "ws = [w]" "n = Suc n'" and w: "reads s pv t w"
    by (cases n) (auto simp: list_all2_Cons1)
  have d: "drop i s = t @ 0x5D # r" using 2 by simp
  note at = reads_at [OF w d]
  have "drop (i + length t) s = 0x5D # r" using at by (simp add: delim_def)
  then show ?case using at ws by (simp add: delim_def byte_at_drop skip_ws_drop not_ws)
next
  case (3 t u ts)
  then obtain w w' ws' n' where ws: "ws = w # w' # ws'" "n = Suc n'" and w: "reads s pv t w"
    and rest: "list_all2 (reads s pv) (u # ts) (w' # ws')"
    by (cases n) (auto simp: list_all2_Cons1)
  have d: "drop i s = t @ 0x2C # join_comma (u # ts) @ 0x5D # r" using 3 by simp
  note at = reads_at [OF w d]
  have d': "drop (i + length t) s = 0x2C # join_comma (u # ts) @ 0x5D # r" using at by (simp add: delim_def)
  have "array_loop n' pv s (Suc (i + length t)) (items @ [w])
      = Some (Ok (Array ((items @ [w]) @ w' # ws'), Suc (i + length t) + length (join_comma (u # ts)) + 1))"
    using 3 ws rest drop_ConsD(3) [OF d'] by (intro "3.IH") simp_all
  then show ?case using at d' ws by (simp add: delim_def byte_at_drop skip_ws_drop not_ws)
qed simp

lemma length_join_comma: "list_all (\<lambda>t. t \<noteq> []) ts \<Longrightarrow> length ts \<le> length (join_comma ts)"
  by (induction ts rule: join_comma.induct) (auto simp: Suc_le_eq)

lemma join_comma_start: "ts \<noteq> [] \<Longrightarrow> hd ts = b # t \<Longrightarrow> \<exists>t'. join_comma ts = b # t'"
  by (induction ts rule: join_comma.induct) auto

lemma parse_array_reads:
  assumes "list_all2 (reads s pv) ts ws" "drop i s = [0x5B] @ join_comma ts @ [0x5D] @ r" "depth < MAX_DEPTH"
  shows "parse_array (length s + 1) pv s i depth = Some (Ok (Array ws, i + length ([0x5B] @ join_comma ts @ [0x5D])))"
proof -
  have d: "drop i s = 0x5B # join_comma ts @ 0x5D # r" using assms(2) by simp
  have d1: "drop (Suc i) s = join_comma ts @ 0x5D # r" by (rule drop_ConsD(3) [OF d])
  show ?thesis
  proof (cases "ts = []")
    case True
    then have "drop (Suc i) s = 0x5D # r" using d1 by simp
    then show ?thesis
      using True assms byte_at_drop [OF d] by (simp add: parse_array_def expect_def skip_ws_drop not_ws byte_at_drop)
  next
    case False
    then obtain b t where b: "hd ts = b # t" "start_byte b"
      using assms(1) by (cases ts) (auto simp: list_all2_Cons1 reads_def)
    then obtain t' where t': "join_comma ts = b # t'" using join_comma_start [OF False] by blast
    have "list_all (\<lambda>t. t \<noteq> []) ts"
      using assms(1) by (auto simp: list_all_length list_all2_conv_all_nth reads_def)
    then have "length ts \<le> length (join_comma ts)" by (rule length_join_comma)
    also have "\<dots> \<le> length s" using drop_length_le [OF d1] t' by simp
    finally have "array_loop (length s + 1) pv s (Suc i) [] = Some (Ok (Array ([] @ ws), Suc i + length (join_comma ts) + 1))"
      using assms(1) False d1 by (intro array_loop_reads) simp_all
    moreover have "skip_ws s (Suc i) = Suc i" using d1 t' b by (auto intro: skip_ws_start)
    moreover have "\<not> byte_at s (Suc i) 0x5D"
      using d1 t' b by (simp add: byte_at_drop start_byte_def)
    ultimately show ?thesis
      using assms(3) byte_at_drop [OF d] by (simp add: parse_array_def expect_def)
  qed
qed

text \<open>The member loop over texts \<open>(k, t)\<close> whose values are read as \<open>w\<close>.\<close>

definition reads_member :: "(string \<Rightarrow> string) \<Rightarrow> bytes \<Rightarrow> value_parser \<Rightarrow> string \<times> bytes \<Rightarrow> string \<times> canon_value \<Rightarrow> bool" where
  "reads_member uni s pv kt kw \<longleftrightarrow>
     is_str (fst kt) \<and> nfc uni (fst kt) = fst kt \<and> fst kw = fst kt \<and> reads s pv (snd kt) (snd kw)"

lemma member_read_at:
  assumes m: "reads_member uni s pv kt (k, w)" and d: "drop i s = member_text kt @ r" and r: "delim r"
  defines "j \<equiv> i + length (quote (as_bytes k))"
  shows "byte_at s i 0x22" "skip_ws s i = i" "parse_string uni s i = Ok (k, j)" "expect s (skip_ws s j) 0x3A = Ok (j + 1)"
    "pv (skip_ws s (j + 1)) = Some (Ok (w, i + length (member_text kt)))" "drop (i + length (member_text kt)) s = r"
proof -
  from m have k: "fst kt = k" "is_str k" "nfc uni k = k" "reads s pv (snd kt) w" by (simp_all add: reads_member_def)
  have d0: "drop i s = quote (as_bytes k) @ 0x3A # snd kt @ r" using d by (simp add: member_text_def k)
  then have dq: "drop i s = 0x22 # tl (quote (as_bytes k)) @ 0x3A # snd kt @ r" by (simp add: quote_def)
  show "byte_at s i 0x22" using byte_at_drop [OF dq] by simp
  show "skip_ws s i = i" by (rule skip_ws_drop [OF dq]) (rule not_ws)
  show "parse_string uni s i = Ok (k, j)" using parse_string_quote [OF k(2) d0] k by (simp add: j_def)
  have dj: "drop j s = 0x3A # snd kt @ r" unfolding j_def by (rule drop_appendD [OF d0])
  show "expect s (skip_ws s j) 0x3A = Ok (j + 1)"
    using byte_at_drop [OF dj] skip_ws_drop [OF dj] not_ws by simp
  have dv: "drop (Suc j) s = snd kt @ r" by (rule drop_ConsD(3) [OF dj])
  show "pv (skip_ws s (j + 1)) = Some (Ok (w, i + length (member_text kt)))"
    using reads_at [OF k(4) dv r] by (simp add: member_text_def j_def k)
  show "drop (i + length (member_text kt)) s = r" by (rule drop_appendD [OF d])
qed

lemma members_loop_step:
  assumes m: "reads_member uni s pv kt (k, w)" and d: "drop (acc_i a) s = member_text kt @ c # r" and c: "c = 0x2C \<or> c = 0x7D"
  defines "e \<equiv> acc_i a + length (member_text kt)"
  shows "members_loop (Suc n) uni pv s a =
     (if c = 0x2C then members_loop n uni pv s (push_member a (acc_i a) k w (e + 1))
      else Some (push_member a (acc_i a) k w (e + 1)))"
proof -
  have r: "delim (c # r)" using c by (auto simp: delim_def)
  note at = member_read_at [OF m d r, folded e_def]
  have ws: "skip_ws s e = e" by (rule skip_ws_drop [OF at(6)]) (use c not_ws in auto)
  have b: "byte_at s e 0x2C \<longleftrightarrow> c = 0x2C" "byte_at s e 0x7D \<longleftrightarrow> c = 0x7D"
    by (rule byte_at_drop [OF at(6)])+
  show ?thesis
    using at(1-5) ws b c by (auto simp: push_member_def Let_def simp del: expect_Ok)
qed

definition push_members :: "object_acc \<Rightarrow> (string \<times> canon_value) list \<Rightarrow> object_acc \<Rightarrow> bool" where
  "push_members a kws b \<longleftrightarrow>
     acc_units b = acc_units a @ map (widen \<circ> as_bytes \<circ> fst) kws \<and> acc_members b = acc_members a @ kws
     \<and> acc_fault b = acc_fault a"

lemma members_loop_reads:
  "list_all2 (reads_member uni s pv) kts kws \<Longrightarrow> kts \<noteq> [] \<Longrightarrow>
   drop (acc_i a) s = join_comma (map member_text kts) @ 0x7D # r \<Longrightarrow> length kts \<le> n \<Longrightarrow>
   \<exists>b. members_loop n uni pv s a = Some b \<and> push_members a kws b
     \<and> acc_i b = acc_i a + length (join_comma (map member_text kts)) + 1"
proof (induction kts arbitrary: kws a n)
  case (Cons kt kts)
  then obtain k w kws' n' where kws: "kws = (k, w) # kws'" "n = Suc n'" and m: "reads_member uni s pv kt (k, w)"
    and rest: "list_all2 (reads_member uni s pv) kts kws'"
    by (cases n) (auto simp: list_all2_Cons1)
  let ?b = "push_member a (acc_i a) k w (acc_i a + length (member_text kt) + 1)"
  show ?case
  proof (cases "kts = []")
    case True
    with Cons.prems rest kws members_loop_step [OF m, where a = a and c = "0x7D" and r = r and n = n'] show ?thesis
      by (auto simp: push_members_def simp del: members_loop.simps)
  next
    case False
    then have j: "join_comma (map member_text (kt # kts)) = member_text kt @ 0x2C # join_comma (map member_text kts)"
      by (cases kts) simp_all
    have d: "drop (acc_i a) s = member_text kt @ 0x2C # join_comma (map member_text kts) @ 0x7D # r"
      using Cons.prems(3) j by simp
    have "drop (acc_i ?b) s = join_comma (map member_text kts) @ 0x7D # r"
      using drop_ConsD(3) [OF drop_appendD [OF d]] by simp
    then obtain b where "members_loop n' uni pv s ?b = Some b" "push_members ?b kws' b"
      "acc_i b = acc_i ?b + length (join_comma (map member_text kts)) + 1"
      using Cons.IH [OF rest False, of ?b n'] Cons.prems(4) kws by auto
    then show ?thesis
      using members_loop_step [OF m d, where n = n'] kws j by (auto simp: push_members_def simp del: members_loop.simps)
  qed
qed simp

lemma parse_object_reads:
  assumes m: "list_all2 (reads_member uni s pv) kts kws" and "distinct (map fst kws)"
    and d: "drop i s = 0x7B # join_comma (map member_text kts) @ 0x7D # r" and depth: "depth < MAX_DEPTH"
  shows "parse_object (length s + 1) uni pv s i depth
    = Some (Ok (Object kws, i + length (join_comma (map member_text kts)) + 2))"
proof -
  have d1: "drop (Suc i) s = join_comma (map member_text kts) @ 0x7D # r" by (rule drop_ConsD(3) [OF d])
  show ?thesis
  proof (cases "kts = []")
    case True
    then have "drop (Suc i) s = 0x7D # r" using d1 by simp
    then show ?thesis
      using True m depth byte_at_drop [OF d] by (simp add: parse_object_def expect_def skip_ws_drop not_ws byte_at_drop)
  next
    case False
    let ?a = "\<lparr> acc_units = [], acc_starts = [], acc_keys = [], acc_members = [],
                           acc_fault = None, acc_i = Suc i \<rparr>"
    have q: "\<exists>t. member_text kt = 0x22 # t" for kt by (simp add: member_text_def quote_def)
    obtain t where "member_text (hd kts) = 0x22 # t" using q by blast
    then obtain t' where t': "join_comma (map member_text kts) = 0x22 # t'"
      using join_comma_start [of "map member_text kts" "0x22" t] False by (auto simp: hd_map)
    have "list_all (\<lambda>t. t \<noteq> []) (map member_text kts)" using q by (auto simp: list_all_iff) (metis list.distinct(1))
    from length_join_comma [OF this] have "length kts \<le> length s"
      using drop_length_le [OF d1] t' by simp
    then obtain b where b: "members_loop (length s + 1) uni pv s ?a = Some b" "push_members ?a kws b"
      "acc_i b = Suc i + length (join_comma (map member_text kts)) + 1"
      using members_loop_reads [OF m False, of ?a r "length s + 1"] d1 by auto
    have "distinct (acc_units b)"
      using b(2) assms(2) by (auto simp: push_members_def distinct_map inj_on_def)
    then have "\<not> first_repeat (acc_units b) < length (acc_units b)" by (simp add: first_repeat_distinct)
    moreover have "skip_ws s (Suc i) = Suc i" "\<not> byte_at s (Suc i) 0x7D"
      using d1 t' by (simp_all add: skip_ws_drop not_ws byte_at_drop)
    ultimately show ?thesis
      using b depth byte_at_drop [OF d] by (simp add: parse_object_def expect_def push_members_def)
  qed
qed

section \<open>Values and documents\<close>

text \<open>What the serializer is asked to write so that its text is unambiguous.\<close>

definition serializable :: "(string \<Rightarrow> string) \<Rightarrow> canon_value \<Rightarrow> bool" where
  "serializable uni v \<longleftrightarrow> value_ok v \<and> keys_unique uni v"

lemma serializable_Array: "serializable uni (Array vs) \<longleftrightarrow> (\<forall>v\<in>set vs. serializable uni v)"
  by (auto simp: serializable_def list_all_iff)

lemma key_units_inject: "is_str a \<Longrightarrow> is_str b \<Longrightarrow> key_units a = key_units b \<longleftrightarrow> a = b"
  by (simp add: key_units_def is_str_def utf16_units_inject)

lemma serializable_Object:
  assumes "nfc_ok uni"
  shows "serializable uni (Object ms) \<longleftrightarrow>
    distinct (map (nfc uni \<circ> fst) ms) \<and> (\<forall>(k, v)\<in>set ms. is_str k \<and> serializable uni v)"
proof -
  have "distinct (map (\<lambda>(k, v). key_units (nfc uni k)) ms) \<longleftrightarrow> distinct (map (nfc uni \<circ> fst) ms)"
    if "\<forall>(k, v)\<in>set ms. is_str k"
  proof -
    have "\<forall>x\<in>set (map (nfc uni \<circ> fst) ms). is_str x"
      using that assms by (auto simp: is_str_nfc)
    then have "inj_on key_units (set (map (nfc uni \<circ> fst) ms))"
      by (intro inj_onI) (simp only: key_units_inject)
    then have "distinct (map key_units (map (nfc uni \<circ> fst) ms)) \<longleftrightarrow> distinct (map (nfc uni \<circ> fst) ms)"
      by (simp only: distinct_map simp_thms)
    then show ?thesis by (simp add: comp_def case_prod_unfold)
  qed
  then show ?thesis
    by (cases "\<forall>(k, v)\<in>set ms. is_str k") (auto simp: serializable_def list_all_iff)
qed

lemma object_text_sorted:
  "object_text (map (map_prod (nfc uni) f) ms) =
   0x7B # join_comma (map member_text (map (map_prod (nfc uni) f) (sort_key (key_units \<circ> nfc uni \<circ> fst) ms))) @ [0x7D]"
  by (simp add: object_text_def sort_key_map comp_def)

lemma canonical_Object_sorted:
  "canonical uni (Object ms) = Object (map (map_prod (nfc uni) (canonical uni)) (sort_key (key_units \<circ> nfc uni \<circ> fst) ms))"
  by (simp add: sort_key_map comp_def)

lemma parse_literal_reads: "drop i s = kw @ r \<Longrightarrow> parse_literal s i kw e v = Ok (v, i + length kw)"
proof -
  assume d: "drop i s = kw @ r"
  then have "length s - i = length kw + length r" by (metis length_append length_drop)
  with d show ?thesis by (simp add: parse_literal_def)
qed

lemma parse_value_readsI:
  assumes "\<And>i r. drop i s = canon_text uni v @ r \<Longrightarrow> delim r \<Longrightarrow>
    parse_value fuel uni s i depth = Some (Ok (w, i + length (canon_text uni v)))"
  shows "reads s (\<lambda>i. parse_value fuel uni s i depth) (canon_text uni v) w"
  using assms canon_text_start unfolding reads_def by simp

lemma reads_literal:
  "reads s (\<lambda>i. parse_value (Suc f) uni s i depth) (canon_text uni Null) Null"
  "reads s (\<lambda>i. parse_value (Suc f) uni s i depth) (canon_text uni (Bool b)) (Bool b)"
proof -
  have lit: "drop i s = byte_of c # as_bytes kw @ r \<Longrightarrow>
      i < length s \<and> s ! i = byte_of c \<and> parse_literal s i (byte_of c # as_bytes kw) e v = Ok (v, i + Suc (length kw))" for i c kw r e v
    using parse_literal_reads [of i s "byte_of c # as_bytes kw" r e v] by (auto dest: drop_ConsD)
  show "reads s (\<lambda>i. parse_value (Suc f) uni s i depth) (canon_text uni Null) Null"
    using lit [of _ "CHR ''n''" "''ull''"]
    by (intro parse_value_readsI) (fastforce simp: parse_value.simps(2) byte_of_def)
  show "reads s (\<lambda>i. parse_value (Suc f) uni s i depth) (canon_text uni (Bool b)) (Bool b)"
    using lit [of _ "CHR ''t''" "''rue''"] lit [of _ "CHR ''f''" "''alse''"]
    by (intro parse_value_readsI, cases b) (fastforce simp: parse_value.simps(2) byte_of_def)+
qed

lemma reads_int:
  assumes "in_i64 n"
  shows "reads s (\<lambda>i. parse_value (Suc f) uni s i depth) (canon_text uni (CInt n)) (CInt n)"
proof (rule parse_value_readsI)
  fix i r assume "drop i s = canon_text uni (CInt n) @ r" and r: "delim r"
  then have d: "drop i s = int_text n @ r" by simp
  obtain b t where b: "int_text n = b # t" "b = 0x2D \<or> is_digit b"
    using int_digits_head [of "nat n"] int_digits_digits [of "nat n"] by (cases "n < 0") (auto simp: int_text_def)
  then have "i < length s" "s ! i = b" using d by (auto dest: drop_ConsD)
  moreover have "b \<notin> {0x7B, 0x5B, 0x22, 0x74, 0x66, 0x6E}" using b(2) by (auto simp: is_digit_def)
  ultimately show "parse_value (Suc f) uni s i depth = Some (Ok (CInt n, i + length (canon_text uni (CInt n))))"
    using b(2) parse_number_int_text [OF assms d r] by (simp add: parse_value.simps(2))
qed

lemma reads_str:
  assumes "nfc_ok uni" "is_str t"
  shows "reads s (\<lambda>i. parse_value (Suc f) uni s i depth) (canon_text uni (Str t)) (Str (nfc uni t))"
proof (rule parse_value_readsI)
  fix i r assume "drop i s = canon_text uni (Str t) @ r"
  then have d: "drop i s = quote (as_bytes (nfc uni t)) @ r" by simp
  then have "i < length s" "s ! i = 0x22" by (auto simp: quote_def dest: drop_ConsD)
  then show "parse_value (Suc f) uni s i depth = Some (Ok (Str (nfc uni t), i + length (canon_text uni (Str t))))"
    using parse_string_quote [OF is_str_nfc [OF assms] d] nfc_idem [OF assms] by (simp add: parse_value.simps(2))
qed

lemma parse_value_reads:
  assumes "nfc_ok uni"
  shows "serializable uni v \<Longrightarrow> nesting v + depth \<le> MAX_DEPTH \<Longrightarrow> MAX_DEPTH < fuel + depth \<Longrightarrow>
    reads s (\<lambda>i. parse_value fuel uni s i depth) (canon_text uni v) (canonical uni v)"
proof (induction v arbitrary: depth fuel)
  case (Array vs)
  then obtain fuel' where f: "fuel = Suc fuel'" by (cases fuel) auto
  let ?pv = "\<lambda>i. parse_value fuel' uni s i (depth + 1)"
  have depth: "depth < MAX_DEPTH" and nest: "\<forall>v\<in>set vs. nesting v + Suc depth \<le> MAX_DEPTH"
    using Array.prems(2) nesting_Array_le [of vs "MAX_DEPTH - depth"] by auto
  have "\<forall>v\<in>set vs. reads s ?pv (canon_text uni v) (canonical uni v)"
    using Array.IH [of _ "depth + 1" fuel'] Array.prems(1,3) nest f by (auto simp: serializable_Array)
  then have *: "list_all2 (reads s ?pv) (map (canon_text uni) vs) (map (canonical uni) vs)"
    by (simp add: list_all2_conv_all_nth)
  show ?case
  proof (rule parse_value_readsI)
    fix i r assume d: "drop i s = canon_text uni (Array vs) @ r"
    then have "i < length s" "s ! i = 0x5B" by (auto dest: drop_ConsD)
    then show "parse_value fuel uni s i depth = Some (Ok (canonical uni (Array vs), i + length (canon_text uni (Array vs))))"
      using parse_array_reads [OF * _ depth, of i r] d by (simp add: f parse_value.simps(2))
  qed
next
  case (Object ms)
  then obtain fuel' where f: "fuel = Suc fuel'" by (cases fuel) auto
  let ?pv = "\<lambda>i. parse_value fuel' uni s i (depth + 1)" and ?S = "sort_key (key_units \<circ> nfc uni \<circ> fst) ms"
  let ?kts = "map (map_prod (nfc uni) (canon_text uni)) ?S" and ?kws = "map (map_prod (nfc uni) (canonical uni)) ?S"
  have depth: "depth < MAX_DEPTH" and nest: "\<forall>(k, v)\<in>set ms. nesting v + Suc depth \<le> MAX_DEPTH"
    using Object.prems(2) nesting_Object_le [of ms "MAX_DEPTH - depth"] by auto
  have ser: "distinct (map (nfc uni \<circ> fst) ms)" "\<forall>(k, v)\<in>set ms. is_str k \<and> serializable uni v"
    using Object.prems(1) serializable_Object [OF assms] by blast+
  have "reads_member uni s ?pv (nfc uni k, canon_text uni v) (nfc uni k, canonical uni v)" if kv: "(k, v) \<in> set ms" for k v
    using Object.IH [OF kv, of v "depth + 1" fuel'] ser nest kv Object.prems(3) f assms
    by (fastforce simp: reads_member_def is_str_nfc nfc_idem)
  then have *: "list_all2 (reads_member uni s ?pv) ?kts ?kws"
    by (fastforce simp: list_all2_map1 list_all2_map2 intro!: list.rel_refl_strong)
  have "mset (map fst ?kws) = mset (map (nfc uni \<circ> fst) ms)" by (simp add: comp_def)
  then have dist: "distinct (map fst ?kws)" using ser(1) mset_eq_imp_distinct_iff by blast
  show ?case
  proof (rule parse_value_readsI)
    fix i r assume "drop i s = canon_text uni (Object ms) @ r"
    then have d: "drop i s = 0x7B # join_comma (map member_text ?kts) @ 0x7D # r"
      by (simp add: object_text_sorted)
    show "parse_value fuel uni s i depth = Some (Ok (canonical uni (Object ms), i + length (canon_text uni (Object ms))))"
      using parse_object_reads [OF * dist d depth] drop_ConsD [OF d]
      unfolding canonical_Object_sorted canon_text.simps object_text_sorted f parse_value.simps(2) Let_def by simp
  qed
next
  case (CInt n)
  then show ?case using reads_int [of n s "fuel - 1"] by (cases fuel) (simp_all add: serializable_def)
next
  case (Str t)
  then show ?case using reads_str [OF assms, of t s "fuel - 1"] by (cases fuel) (simp_all add: serializable_def)
next
  case (Bool b)
  then show ?case using reads_literal(2) [of s "fuel - 1"] by (cases fuel) simp_all
next
  case Null
  then show ?case using reads_literal(1) [of s "fuel - 1"] by (cases fuel) simp_all
qed

text \<open>The serializer's text of a serializable value parses to its canonical form.\<close>

lemma parse_serialize:
  assumes "nfc_ok uni" "serializable uni v" "nesting v \<le> MAX_DEPTH"
  shows "parse_document uni (serialize uni v) = Some (Ok (canonical uni v))"
proof -
  let ?s = "as_bytes (serialize uni v)"
  have s: "?s = canon_text uni v" using assms by (simp add: serialize_eq serializable_def)
  obtain b t where b: "canon_text uni v = b # t" "start_byte b" using canon_text_start by blast
  have d: "drop 0 ?s = canon_text uni v @ []" by (simp add: s)
  have pv: "parse_value (MAX_DEPTH + 1) uni ?s 0 0 = Some (Ok (canonical uni v, length ?s))"
    using parse_value_reads [OF assms(1,2), of 0 "MAX_DEPTH + 1" ?s] assms(3) d
    unfolding reads_def by (auto simp: delim_def s)
  have ws: "skip_ws ?s 0 = 0" by (rule skip_ws_start [OF d b])
  have fin: "finish_top_level ?s (length ?s) = Ok ()" by (simp add: finish_top_level_def skip_ws_end)
  show ?thesis
  proof (cases "byte_at ?s 0 0x2D \<or> digit_at ?s 0")
    case True
    with pv obtain n where "parse_number ?s 0 = Ok (n, length ?s)" "canonical uni v = CInt n"
      by (auto simp: parse_value.simps(2) Let_def byte_at_def digit_at_def is_digit_def split: if_splits)
    with True fin show ?thesis by (simp add: parse_document_def)
  next
    case False
    then show ?thesis using pv ws fin by (simp add: parse_document_def parse_top_level_general_def)
  qed
qed

lemma canon_text_canonical:
  assumes "nfc_ok uni" "serializable uni v" "nesting v \<le> MAX_DEPTH"
    and "serializable uni w" "nesting w \<le> MAX_DEPTH" and "canon_text uni v = canon_text uni w"
  shows "canonical uni v = canonical uni w"
proof -
  have "serialize uni v = serialize uni w"
    using assms by (metis as_bytes_inject serialize_eq serializable_def)
  then show ?thesis using parse_serialize [OF assms(1-3)] parse_serialize [OF assms(1,4,5)] by simp
qed

text \<open>Accepted documents can be written again without loss.\<close>

lemma parsed_serializable: "nfc_ok uni \<Longrightarrow> parsed uni v \<Longrightarrow> serializable uni v"
proof (induction v)
  case (Array vs)
  then show ?case by (simp add: parsed_Array serializable_Array)
next
  case (Object ms)
  then have "map (nfc uni \<circ> fst) ms = map fst ms" by (fastforce simp: parsed_Object)
  then have "distinct (map (nfc uni \<circ> fst) ms)" using Object.prems by (simp only: parsed_Object simp_thms)
  moreover have "serializable uni v" if "(k, v) \<in> set ms" for k v
    using Object.IH [OF that, of v] Object.prems that by (auto simp: parsed_Object)
  ultimately show ?case using Object.prems by (auto simp: parsed_Object serializable_Object)
qed (simp_all add: serializable_def)

end
