(* ===== verification/Canon_Guarantees.thy ===== *)
theory Canon_Guarantees
  imports B64 Canon_Roundtrip
begin

text \<open>
  What the text layer promises to its clients: digests and base64 have one spelling each, the
  serializer with its index sort and its mark vector computes the specified text, the parser returns
  on every input, accepts only well-formed values and reads the serializer's text back.
\<close>

lemma nfc_ok_id: "nfc_ok (\<lambda>s. s)"
  by (simp add: nfc_ok_def)

text \<open>Keys in ASCII have one code unit per character.\<close>

lemma key_units_ascii:
  assumes "is_ascii k"
  shows "key_units k = map of_char k"
proof -
  have a: "of_char c < (0x80 :: nat)" if "c \<in> set k" for c
    using assms that by (auto simp: is_ascii_def list_all_iff word_less_nat_alt unat_byte_of as_bytes_def)
  have "list_all is_scalar (map of_char k)" using a by (fastforce simp: list_all_iff is_scalar_def)
  moreover have "utf8_text (map of_char k) = as_bytes k"
    using a by (induction k) (auto simp: push_utf8_def byte_of_def)
  moreover have "utf16_text (map of_char k) = map of_char k"
  proof (induction k)
    case (Cons c k)
    moreover have "of_char c < (65536 :: nat)" using of_char_less_256 [of c] by linarith
    ultimately show ?case by (simp add: utf16_text_def push_utf16_def)
  qed (simp add: utf16_text_def)
  ultimately show ?thesis using utf16_units_text [of "map of_char k"] by (simp add: key_units_def)
qed

section \<open>Digests and base64\<close>

text \<open>\<open>parse_sha256\<close> accepts exactly the prefixed lower-case hexadecimal spelling of a 32-byte digest,
  so a digest has one textual form.\<close>

theorem parse_sha256_canonical:
  "parse_sha256 s = Some d \<longleftrightarrow> length d = 32 \<and> s = ''sha256:'' @ hex_lower d"
  by (rule parse_sha256_iff)

text \<open>The strict base64url decoder accepts exactly the encoder's output: no padding, no stray bits, no
  second spelling of the same bytes; the fixed-width decoder also checks the length.\<close>

theorem decode_canonical:
  "(decode s = Ok b \<longleftrightarrow> s = encode b) \<and> (decode_fixed n s = Ok b \<longleftrightarrow> length b = n \<and> s = encode b)"
  by (simp add: decode_iff decode_fixed_iff)

section \<open>The serializer\<close>

text \<open>C38: The recursive merge sort on member positions is the stable sort by UTF-16 code units.\<close>

theorem sort_by_units_stable_sort: "sort_by_units units ps = sort_key ((!) units) ps"
  by (rule sort_by_units_sort_key)

text \<open>C37: The writer appends to its output the canonical text of the value, in which the members of every
  object are in the order of the UTF-16 units of their normalized keys, and reports exactly whether
  those keys are unique.\<close>

theorem write_canonical_refines: "write_canonical uni v out = (out @ canon_text uni v, keys_unique uni v)"
  by (rule write_canonical_eq)

text \<open>Writing an object with some keys stripped, without building the smaller object, produces what
  writing the object without those keys produces, flag included.\<close>

theorem write_object_strips:
  "write_object uni members strip out = write_canonical uni (without_keys (Object members) strip) out"
  by (rule write_object_eq_without_keys)

text \<open>On values whose strings are UTF-8 the serializer's text is UTF-8, so the conversion in
  \<open>serialize\<close> never panics and the result is the canonical text.\<close>

theorem serialize_no_panic:
  assumes "nfc_ok uni" "value_ok v"
  shows "from_utf8 (fst (write_canonical uni v [])) = Some (serialize uni v) \<and> as_bytes (serialize uni v) = canon_text uni v"
  using assms canon_text_valid [OF assms] serialize_eq [OF assms]
  by (simp add: write_canonical_eq from_utf8_def serialize_def)

theorem serialize_no_panic_witness:
  "as_bytes (serialize (\<lambda>s. s) (Array [Null, Str ''ab''])) = as_bytes ''[null,\"ab\"]''"
proof -
  have "is_ascii ''ab''" by code_simp
  then have "value_ok (Array [Null, Str ''ab''])" by (simp add: is_ascii_is_str)
  moreover have "canon_text (\<lambda>s. s) (Array [Null, Str ''ab'']) = as_bytes ''[null,\"ab\"]''" by code_simp
  ultimately show ?thesis using serialize_no_panic [OF nfc_ok_id, of "Array [Null, Str ''ab'']"] by argo
qed

section \<open>The parser\<close>

text \<open>C34: The parser returns on every input: each loop makes progress and the nesting bound ends the recursion.\<close>

theorem parse_document_total: "\<exists>r. parse_document uni input = Some r"
  using parse_document_returns [of uni input] by blast

text \<open>C35: Every accepted document is well formed: integers fit in 64 bits, strings and keys are valid UTF-8
  in normal form, no object has a key twice, and the nesting is within \<open>MAX_DEPTH\<close>.\<close>

theorem parse_document_well_formed:
  assumes "nfc_ok uni" "parse_document uni input = Some (Ok v)"
  shows "parsed uni v \<and> nesting v \<le> MAX_DEPTH"
  using assms by (rule parse_document_parsed)

theorem parse_document_well_formed_witness:
  "parsed (\<lambda>s. s) (Array [Null, Bool True, Object []]) \<and> nesting (Array [Null, Bool True, Object []]) \<le> MAX_DEPTH"
proof -
  have "parse_document (\<lambda>s. s) ''[null, true,{}]'' = Some (Ok (Array [Null, Bool True, Object []]))" by code_simp
  then show ?thesis by (rule parse_document_well_formed [OF nfc_ok_id])
qed

text \<open>The duplicate-key test, an adjacent comparison after an index sort, finds the first position whose
  key units occur at an earlier position, and answers the number of members when there is none.\<close>

theorem first_repeat_correct:
  "(first_repeat units = length units \<longleftrightarrow> distinct units)
   \<and> (first_repeat units < length units \<longrightarrow>
        (\<exists>q<first_repeat units. units ! q = units ! first_repeat units) \<and> distinct (take (first_repeat units) units))"
proof -
  have s: "first_repeat units = length units \<or> repeats units (first_repeat units)"
    "\<And>p. repeats units p \<Longrightarrow> first_repeat units \<le> p"
    using first_repeat_spec [of units] by blast+
  have "distinct (take (first_repeat units) units)"
  proof (rule ccontr)
    assume "\<not> distinct (take (first_repeat units) units)"
    then obtain p where "p < first_repeat units" "repeats units p"
      unfolding distinct_conv_nth repeats_def by (auto simp: nat_neq_iff) metis+
    with s(2) show False by fastforce
  qed
  moreover have "first_repeat units \<le> length units" using s(1) by (auto simp: repeats_def)
  ultimately show ?thesis
    using s(1) first_repeat_distinct [of units] by (auto simp: repeats_def)
qed

theorem first_repeat_correct_witness:
  "first_repeat [[1], [2], [1], [2]] = 2 \<and> (\<exists>q<2. [[1], [2], [1], [2 :: nat]] ! q = [1])"
proof -
  have "first_repeat [[1], [2], [1], [2]] = 2" by code_simp
  then show ?thesis using first_repeat_correct [of "[[1], [2], [1], [2]]"] by simp
qed

section \<open>Round trips\<close>

text \<open>C1: Parsing the canonical text of a value that nests no deeper than the parser allows gives its canonical form: the
  value with every string normalized and every object's members in canonical order.\<close>

theorem parse_serialize_roundtrip:
  assumes "nfc_ok uni" "serializable uni v" "nesting v \<le> MAX_DEPTH"
  shows "parse_document uni (serialize uni v) = Some (Ok (canonical uni v))"
  using assms by (rule parse_serialize)

lemma sample_ascii: "is_ascii ''a''" "is_ascii ''b''"
  by code_simp+

lemma sample_serializable: "serializable (\<lambda>s. s) (Object [(''b'', Array []), (''a'', Null)])"
  using is_ascii_is_str [of "''a''"] is_ascii_is_str [of "''b''"] sample_ascii
  by (simp add: serializable_Object [OF nfc_ok_id]) (simp add: serializable_def)

lemma sample_nesting: "nesting (Object [(''b'', Array []), (''a'', Null)]) \<le> MAX_DEPTH"
  by (simp add: nesting.simps MAX_DEPTH_def)

theorem parse_serialize_roundtrip_witness:
  "parse_document (\<lambda>s. s) (serialize (\<lambda>s. s) (Object [(''b'', Array []), (''a'', Null)]))
     = Some (Ok (Object [(''a'', Null), (''b'', Array [])]))"
proof -
  have u: "key_units ''a'' = [0x61]" "key_units ''b'' = [0x62]"
    by (simp_all add: key_units_ascii sample_ascii)
  show ?thesis
    using parse_serialize_roundtrip [OF nfc_ok_id sample_serializable sample_nesting]
    by (simp add: u nfc_def)
qed

lemma canon_text_of_canonical:
  assumes "nfc_ok uni"
  shows "value_ok v \<Longrightarrow> canon_text uni (canonical uni v) = canon_text uni v"
proof (induction v)
  case (Array items)
  then have "map (\<lambda>v. canon_text uni (canonical uni v)) items = map (canon_text uni) items" by simp
  then show ?case by (simp only: canonical.simps canon_text.simps map_map comp_def)
next
  case (Object ms)
  let ?M = "map (map_prod (nfc uni) (canonical uni)) ms"
  have "map_prod (nfc uni) (canon_text uni) m = map_prod (\<lambda>k. k) (canon_text uni) m" if "m \<in> set ?M" for m
    using that Object.prems by (auto simp: nfc_idem [OF assms])
  then have "map (map_prod (nfc uni) (canon_text uni)) (sort_key (key_units \<circ> fst) ?M)
      = map (map_prod (\<lambda>k. k) (canon_text uni)) (sort_key (key_units \<circ> fst) ?M)" by simp
  also have "\<dots> = sort_key (key_units \<circ> fst) (map (map_prod (\<lambda>k. k) (canon_text uni)) ?M)"
    unfolding sort_key_map [of _ "map_prod (\<lambda>k. k) (canon_text uni)"] comp_def fst_map_prod by simp
  also have "map (map_prod (\<lambda>k. k) (canon_text uni)) ?M = map (map_prod (nfc uni) (canon_text uni)) ms"
    using Object.IH Object.prems by (fastforce simp: prod_set_defs)
  finally have "map (map_prod (nfc uni) (canon_text uni)) (sort_key (key_units \<circ> fst) ?M)
      = sort_key (key_units \<circ> fst) (map (map_prod (nfc uni) (canon_text uni)) ms)" .
  then show ?case by (simp only: canonical.simps canon_text.simps object_text_def sort_key_id_if_sorted sorted_sort_key)
qed (simp_all add: nfc_idem [OF assms])

text \<open>C36: Two serializable values that nest no deeper than the parser allows have the same canonical text exactly when
  they have the same canonical form, so a hash of the text commits to the value.\<close>

theorem serialize_determines_value:
  assumes "nfc_ok uni" "serializable uni v" "nesting v \<le> MAX_DEPTH" "serializable uni w" "nesting w \<le> MAX_DEPTH"
  shows "serialize uni v = serialize uni w \<longleftrightarrow> canonical uni v = canonical uni w"
proof
  assume "serialize uni v = serialize uni w"
  then show "canonical uni v = canonical uni w"
    using assms by (metis canon_text_canonical serialize_eq serializable_def)
next
  assume "canonical uni v = canonical uni w"
  then have "canon_text uni v = canon_text uni w"
    using assms canon_text_of_canonical [of uni v] canon_text_of_canonical [of uni w] by (simp add: serializable_def)
  then show "serialize uni v = serialize uni w"
    using assms by (metis as_bytes_inject serialize_eq serializable_def)
qed

theorem serialize_determines_value_witness:
  "serialize (\<lambda>s. s) (Object [(''b'', Array []), (''a'', Null)]) \<noteq> serialize (\<lambda>s. s) (Object [])"
proof -
  have "serializable (\<lambda>s. s) (Object [])" "nesting (Object []) \<le> MAX_DEPTH"
    by (simp_all add: serializable_def nesting.simps MAX_DEPTH_def)
  from serialize_determines_value [OF nfc_ok_id sample_serializable sample_nesting this] show ?thesis
    by (simp add: nfc_def key_units_ascii sample_ascii)
qed

text \<open>Re-reading: a document the parser accepted can be serialized and parsed again, and gives the
  accepted value with its members in canonical order.\<close>

theorem reparse_accepted:
  assumes "nfc_ok uni" "parse_document uni input = Some (Ok v)"
  shows "parse_document uni (serialize uni v) = Some (Ok (canonical uni v))"
  using parse_document_parsed [OF assms] by (intro parse_serialize parsed_serializable assms(1)) simp_all

theorem reparse_accepted_witness:
  "parse_document (\<lambda>s. s) (serialize (\<lambda>s. s) (Array [Null, Object []])) = Some (Ok (Array [Null, Object []]))"
proof -
  have "parse_document (\<lambda>s. s) '' [ null,{}]'' = Some (Ok (Array [Null, Object []]))" by code_simp
  from reparse_accepted [OF nfc_ok_id this] show ?thesis by simp
qed

end
