(* ===== verification/Crypto.thy ===== *)
theory Crypto
  imports B64 Hashx
begin

text \<open>
  \<open>core/src/sign.rs\<close> and \<open>core/src/commit.rs\<close>: domain-separated Ed25519 signatures over a content hash,
  and hiding commitments. SHA-256, Ed25519 and the Unicode tables are crates outside the repository:
  they are the fields of the record \<open>externals\<close>, an argument of every operation that uses them, and
  what the code relies on of them are the predicates \<open>sha256_ok\<close> and \<open>ed25519_ok\<close>. No injectivity of
  SHA-256 is assumed anywhere: binding theorems conclude equality or exhibit a \<open>collision\<close>.
\<close>

record ('sk, 'vk) externals =
  sha256 :: "bytes \<Rightarrow> bytes"
  unicode_nfc :: "string \<Rightarrow> string"
  ed_sign :: "'sk \<Rightarrow> bytes \<Rightarrow> bytes"
  ed_verifying_key :: "'sk \<Rightarrow> 'vk"
  ed_verify_strict :: "'vk \<Rightarrow> bytes \<Rightarrow> bytes \<Rightarrow> bool"
  ed_vk_bytes :: "'vk \<Rightarrow> bytes"
  ed_vk_from_bytes :: "bytes \<Rightarrow> 'vk option"
  ed_sk_from_seed :: "bytes \<Rightarrow> 'sk"

definition sha256_ok :: "('sk, 'vk) externals \<Rightarrow> bool" where
  "sha256_ok X \<longleftrightarrow> (\<forall>d. length (sha256 X d) = 32)"

definition ed25519_ok :: "('sk, 'vk) externals \<Rightarrow> bool" where
  "ed25519_ok X \<longleftrightarrow>
     (\<forall>sk m. length (ed_sign X sk m) = 64 \<and> ed_verify_strict X (ed_verifying_key X sk) m (ed_sign X sk m))
     \<and> (\<forall>vk. length (ed_vk_bytes X vk) = 32 \<and> ed_vk_from_bytes X (ed_vk_bytes X vk) = Some vk)"

definition collision :: "('sk, 'vk) externals \<Rightarrow> bytes \<Rightarrow> bytes \<Rightarrow> bool" where
  "collision X a b \<longleftrightarrow> a \<noteq> b \<and> sha256 X a = sha256 X b"

section \<open>Signatures\<close>

definition RECORD_SIG_TAG :: string where
  "RECORD_SIG_TAG = ''averin.record.sig.v1''"

definition CHECKPOINT_SIG_TAG :: string where
  "CHECKPOINT_SIG_TAG = ''averin.checkpoint.sig.v1''"

definition SIG_PREFIX :: string where
  "SIG_PREFIX = ''ed25519:''"

definition PUBKEY_PREFIX :: string where
  "PUBKEY_PREFIX = ''ed25519pub:''"

datatype sig_error = BadPrefix | BadEncoding b64_error | BadKey | Invalid

definition sign_preimage :: "string \<Rightarrow> string \<Rightarrow> bytes option" where
  "sign_preimage tag content_hash =
     (case lp_str_into [] tag of
        (False, _) \<Rightarrow> None
      | (True, pre) \<Rightarrow> Some (pre @ as_bytes content_hash))"

definition sign :: "('sk, 'vk) externals \<Rightarrow> string \<Rightarrow> string \<Rightarrow> 'sk \<Rightarrow> string" where
  "sign X tag content_hash sk =
     (case sign_preimage tag content_hash of
        None \<Rightarrow> Code.abort (STR ''signature tag exceeds the LP length bound'') (\<lambda>_. [])
      | Some msg \<Rightarrow> SIG_PREFIX @ encode (ed_sign X sk msg))"

definition verify_sig :: "('sk, 'vk) externals \<Rightarrow> string \<Rightarrow> string \<Rightarrow> string \<Rightarrow> 'vk \<Rightarrow> (unit, sig_error) result" where
  "verify_sig X tag content_hash sig vk =
     bind_result (ok_or (strip_prefix SIG_PREFIX sig) BadPrefix) (\<lambda>raw.
     bind_result (map_err BadEncoding (decode_fixed 64 raw)) (\<lambda>signature.
     bind_result (ok_or (sign_preimage tag content_hash) Invalid) (\<lambda>msg.
     if ed_verify_strict X vk msg signature then Ok () else Err Invalid)))"

definition encode_pubkey :: "('sk, 'vk) externals \<Rightarrow> 'vk \<Rightarrow> string" where
  "encode_pubkey X vk = PUBKEY_PREFIX @ encode (ed_vk_bytes X vk)"

definition decode_pubkey :: "('sk, 'vk) externals \<Rightarrow> string \<Rightarrow> ('vk, sig_error) result" where
  "decode_pubkey X s =
     bind_result (ok_or (strip_prefix PUBKEY_PREFIX s) BadPrefix) (\<lambda>raw.
     bind_result (map_err BadEncoding (decode_fixed 32 raw)) (\<lambda>bs.
     ok_or (ed_vk_from_bytes X bs) BadKey))"

definition signing_key_from_seed :: "('sk, 'vk) externals \<Rightarrow> bytes \<Rightarrow> 'sk" where
  "signing_key_from_seed X seed = ed_sk_from_seed X seed"

section \<open>Commitments\<close>

definition COMMIT_TAG :: string where
  "COMMIT_TAG = ''averin.commit.v1''"

definition NONCE_LEN :: nat where
  "NONCE_LEN = 32"

datatype field_domain = Input | Output | Rationale | Credential

fun field_domain_as_str :: "field_domain \<Rightarrow> string" where
  "field_domain_as_str Input = ''input''"
| "field_domain_as_str Output = ''output''"
| "field_domain_as_str Rationale = ''rationale''"
| "field_domain_as_str Credential = ''credential''"

definition field_domain_parse :: "string \<Rightarrow> field_domain option" where
  "field_domain_parse s =
     (if s = ''input'' then Some Input
      else if s = ''output'' then Some Output
      else if s = ''rationale'' then Some Rationale
      else if s = ''credential'' then Some Credential
      else None)"

datatype commit_error = TooLong | BadNonceLen nat

text \<open>The four appends short-circuit on the first that does not fit.\<close>

fun lp_all_into :: "bytes \<Rightarrow> bytes list \<Rightarrow> bool \<times> bytes" where
  "lp_all_into out [] = (True, out)"
| "lp_all_into out (b # bs) =
     (case lp_into out b of (False, out) \<Rightarrow> (False, out) | (True, out) \<Rightarrow> lp_all_into out bs)"

definition commit_preimage :: "field_domain \<Rightarrow> bytes \<Rightarrow> bytes \<Rightarrow> (bytes, commit_error) result" where
  "commit_preimage domain value nonce =
     (if length nonce \<noteq> NONCE_LEN then Err (BadNonceLen (length nonce))
      else case lp_all_into [] [as_bytes COMMIT_TAG, as_bytes (field_domain_as_str domain), nonce, value] of
             (False, _) \<Rightarrow> Err TooLong
           | (True, pre) \<Rightarrow> Ok pre)"

definition commit :: "('sk, 'vk) externals \<Rightarrow> field_domain \<Rightarrow> bytes \<Rightarrow> bytes \<Rightarrow> (string, commit_error) result" where
  "commit X domain value nonce =
     map_ok (sha256_prefixed (sha256 X)) (commit_preimage domain value nonce)"

definition ct_eq :: "bytes \<Rightarrow> bytes \<Rightarrow> bool" where
  "ct_eq a b = (if length a \<noteq> length b then False else fold (\<lambda>(x, y) diff. diff OR (x XOR y)) (zip a b) 0 = 0)"

definition verify_commitment :: "('sk, 'vk) externals \<Rightarrow> string \<Rightarrow> field_domain \<Rightarrow> bytes \<Rightarrow> bytes \<Rightarrow> bool" where
  "verify_commitment X commitment domain value nonce =
     (case commit X domain value nonce of
        Ok c \<Rightarrow> ct_eq (as_bytes c) (as_bytes commitment)
      | Err _ \<Rightarrow> False)"

section \<open>Facts about signatures\<close>

lemma sign_preimage_eq:
  "sign_preimage tag ch = (if lp_fits (as_bytes tag) then Some (lp (as_bytes tag) @ as_bytes ch) else None)"
  by (simp add: sign_preimage_def lp_str_into_def lp_into_eq)

lemma sign_preimage_inject:
  "sign_preimage t a = Some m \<Longrightarrow> sign_preimage u b = Some m \<Longrightarrow> t = u \<and> a = b"
  using lp_frame.enc_split [of "as_bytes t" "as_bytes u" "as_bytes a" "as_bytes b"]
  by (auto simp: sign_preimage_eq split: if_splits)

lemma verify_sig_iff:
  "verify_sig X tag ch sig vk = Ok () \<longleftrightarrow>
     (\<exists>b m. length b = 64 \<and> sig = SIG_PREFIX @ encode b \<and> sign_preimage tag ch = Some m \<and> ed_verify_strict X vk m b)"
  by (auto simp: verify_sig_def strip_prefix_Some decode_fixed_iff split: if_splits)

lemma verify_sig_sign:
  assumes "ed25519_ok X" "lp_fits (as_bytes tag)"
  shows "verify_sig X tag ch (sign X tag ch sk) (ed_verifying_key X sk) = Ok ()"
  using assms unfolding verify_sig_iff by (auto simp: sign_def sign_preimage_eq ed25519_ok_def)

lemma decode_encode_pubkey: "ed25519_ok X \<Longrightarrow> decode_pubkey X (encode_pubkey X vk) = Ok vk"
  by (auto simp: decode_pubkey_def encode_pubkey_def strip_prefix_Some decode_fixed_iff ed25519_ok_def)

lemma sig_tags_fit: "lp_fits (as_bytes RECORD_SIG_TAG)" "lp_fits (as_bytes CHECKPOINT_SIG_TAG)"
  by (simp_all add: RECORD_SIG_TAG_def CHECKPOINT_SIG_TAG_def MAX_LP_LEN_def)

lemma sig_tags_distinct: "RECORD_SIG_TAG \<noteq> CHECKPOINT_SIG_TAG"
  by (simp add: RECORD_SIG_TAG_def CHECKPOINT_SIG_TAG_def)

section \<open>Facts about commitments\<close>

lemma lp_all_into_eq:
  "list_all lp_fits bs \<Longrightarrow> lp_all_into out bs = (True, out @ concat (map lp bs))"
  "\<not> list_all lp_fits bs \<Longrightarrow> fst (lp_all_into out bs) = False"
  by (induction bs arbitrary: out) (auto simp: lp_into_eq)

lemma lp_all_into_True:
  "lp_all_into out bs = (True, pre) \<longleftrightarrow> list_all lp_fits bs \<and> pre = out @ concat (map lp bs)"
  using lp_all_into_eq [of bs out] by (cases "list_all lp_fits bs") auto

lemma field_domain_as_str_inject [simp]: "field_domain_as_str d = field_domain_as_str e \<longleftrightarrow> d = e"
  by (cases d; cases e) simp_all

lemma field_domain_parse_iff: "field_domain_parse s = Some d \<longleftrightarrow> s = field_domain_as_str d"
  by (cases d) (auto simp: field_domain_parse_def)

lemma lp_all_case:
  "(case lp_all_into [] fs of (False, _) \<Rightarrow> Err e | (True, pre) \<Rightarrow> Ok pre) = Ok p \<longleftrightarrow>
     list_all lp_fits fs \<and> p = concat (map lp fs)"
  using lp_all_into_eq [of fs "[]"]
  by (cases "lp_all_into [] fs"; cases "list_all lp_fits fs") (auto split: bool.splits)

definition commit_frames :: "field_domain \<Rightarrow> bytes \<Rightarrow> bytes \<Rightarrow> bytes list" where
  "commit_frames d v n = [as_bytes COMMIT_TAG, as_bytes (field_domain_as_str d), n, v]"

lemma commit_frames_fit: "length n = NONCE_LEN \<Longrightarrow> list_all lp_fits (commit_frames d v n) \<longleftrightarrow> lp_fits v"
  by (cases d) (simp_all add: commit_frames_def COMMIT_TAG_def MAX_LP_LEN_def NONCE_LEN_def)

lemma commit_preimage_Ok:
  "commit_preimage d v n = Ok pre \<longleftrightarrow>
     length n = NONCE_LEN \<and> lp_fits v \<and> pre = concat (map lp (commit_frames d v n))"
proof (cases "length n = NONCE_LEN")
  case True
  then show ?thesis
    unfolding commit_preimage_def commit_frames_def [symmetric]
    by (simp only: lp_all_case commit_frames_fit simp_thms if_False)
qed (simp add: commit_preimage_def)

lemma commit_preimage_inject:
  assumes "commit_preimage d v n = Ok pre" "commit_preimage d' v' n' = Ok pre"
  shows "d = d' \<and> v = v' \<and> n = n'"
proof -
  have "commit_frames d v n = commit_frames d' v' n'"
    using assms lp_frame.frames_inject [of "commit_frames d v n" "commit_frames d' v' n'"]
    by (simp add: commit_preimage_Ok commit_frames_fit)
  then show ?thesis by (simp add: commit_frames_def)
qed

lemma ct_eq_iff: "ct_eq a b \<longleftrightarrow> a = b"
proof -
  have or0: "(x::u8) OR y = 0 \<longleftrightarrow> x = 0 \<and> y = 0" for x y
    by (metis or_eq_0_iff)
  have xor_eq_0_iff: "(x::u8) XOR y = 0 \<longleftrightarrow> x = y" for x y
    by (metis xor.assoc xor.left_neutral xor.right_neutral xor_self_eq)
  have "fold (\<lambda>(x, y) diff. diff OR (x XOR y)) (zip a b) d = 0 \<longleftrightarrow> d = 0 \<and> a = b" if "length a = length b" for d :: u8
    using that by (induction a b arbitrary: d rule: list_induct2) (auto simp: or0 xor_eq_0_iff)
  then show ?thesis by (auto simp: ct_eq_def)
qed

lemma verify_commitment_iff: "verify_commitment X c d v n \<longleftrightarrow> commit X d v n = Ok c"
  by (auto simp: verify_commitment_def ct_eq_iff split: result.split)

end
