(* ===== verification/Decision_Record.thy ===== *)
theory Decision_Record
  imports Canon_Roundtrip Crypto
begin

text \<open>
  \<open>core/src/record.rs\<close>: the schema-v2 shape of a decision record, its content-hash preimage, sealing
  and verification. The lemmas on stripping, setting and hashing fields are stated once, in the
  locale \<open>sealed_body\<close>, for any set of stripped keys; records and checkpoints interpret it.
\<close>

datatype record_error =
    RecNotObject
  | RecMissingField string
  | RecFieldNotString string
  | RecDomainMismatch string string
  | RecCanonVersionMismatch string string
  | RecTooLong
  | RecContentHashMismatch string string
  | RecSignatureInvalid sig_error
  | RecUnknownField string
  | RecDuplicateKey

definition RECORD_DOMAIN :: string where
  "RECORD_DOMAIN = ''flightrecorder.record.v2''"

definition CANON_VERSION :: string where
  "CANON_VERSION = ''rcp-1''"

definition ALLOWED_TOP_KEYS :: "string list" where
  "ALLOWED_TOP_KEYS =
     [''schema_version'', ''canon_version'', ''domain'', ''record_id'', ''project_id'', ''agent_id'',
      ''agent_version'', ''session_id'', ''span_id'', ''parent_span_id'', ''causal_prev_hashes'',
      ''display_seq'', ''agent_ts'', ''received_ts'', ''anchored_ts'', ''event_type'', ''record_kind'',
      ''action'', ''observed_via'', ''input_commit'', ''output_commit'', ''rationale_commit'',
      ''credential_commit'', ''status'', ''tokens'', ''cost_micros_usd'', ''authority'', ''content'',
      ''content_hash'', ''sig'', ''key'', ''framework'', ''extensions'']"

definition REQUIRED_TOP_KEYS :: "string list" where
  "REQUIRED_TOP_KEYS =
     [''schema_version'', ''canon_version'', ''domain'', ''record_id'', ''project_id'', ''agent_id'',
      ''agent_version'', ''session_id'', ''span_id'', ''parent_span_id'', ''causal_prev_hashes'',
      ''display_seq'', ''agent_ts'', ''received_ts'', ''event_type'', ''action'', ''observed_via'',
      ''status'', ''content_hash'', ''sig'', ''key'']"

fun check_allowed :: "(string \<times> canon_value) list \<Rightarrow> (unit, record_error) result" where
  "check_allowed [] = Ok ()"
| "check_allowed ((k, _) # ms) =
     (if k \<notin> set ALLOWED_TOP_KEYS then Err (RecUnknownField k) else check_allowed ms)"

fun check_required :: "canon_value \<Rightarrow> string list \<Rightarrow> (unit, record_error) result" where
  "check_required v [] = Ok ()"
| "check_required v (req # reqs) =
     (if get v req = None then Err (RecMissingField req) else check_required v reqs)"

definition validate_record_shape :: "canon_value \<Rightarrow> (unit, record_error) result" where
  "validate_record_shape v =
     bind_result (ok_or (as_object v) RecNotObject) (\<lambda>members.
     bind_result (check_allowed members) (\<lambda>_.
     check_required v REQUIRED_TOP_KEYS))"

definition record_str_field :: "canon_value \<Rightarrow> string \<Rightarrow> (string, record_error) result" where
  "record_str_field obj key =
     bind_result (ok_or (get obj key) (RecMissingField key)) (\<lambda>v.
     ok_or (as_str v) (RecFieldNotString key))"

section \<open>Preimages and hashes\<close>

datatype preimage_fault =
    FaultNotObject | FaultMissingDomain | FaultDomainNotString | FaultMissingCanonVersion
  | FaultCanonVersionNotString | FaultTooLong | FaultDuplicateKey

fun into_record_error :: "preimage_fault \<Rightarrow> record_error" where
  "into_record_error FaultNotObject = RecNotObject"
| "into_record_error FaultMissingDomain = RecMissingField ''domain''"
| "into_record_error FaultDomainNotString = RecFieldNotString ''domain''"
| "into_record_error FaultMissingCanonVersion = RecMissingField ''canon_version''"
| "into_record_error FaultCanonVersionNotString = RecFieldNotString ''canon_version''"
| "into_record_error FaultTooLong = RecTooLong"
| "into_record_error FaultDuplicateKey = RecDuplicateKey"

definition preimage_str :: "canon_value \<Rightarrow> string \<Rightarrow> preimage_fault \<Rightarrow> preimage_fault \<Rightarrow> (string, preimage_fault) result" where
  "preimage_str v key missing not_string =
     (case member_of v key of
        Some (Str s) \<Rightarrow> Ok s
      | Some _ \<Rightarrow> Err not_string
      | None \<Rightarrow> Err missing)"

definition body_preimage :: "('sk, 'vk) externals \<Rightarrow> canon_value \<Rightarrow> string list \<Rightarrow> (bytes, preimage_fault) result" where
  "body_preimage X v strip =
     bind_result (ok_or (as_object v) FaultNotObject) (\<lambda>members.
     bind_result (preimage_str v ''domain'' FaultMissingDomain FaultDomainNotString) (\<lambda>domain.
     bind_result (preimage_str v ''canon_version'' FaultMissingCanonVersion FaultCanonVersionNotString) (\<lambda>canon_version.
     case lp_str_into [] domain of
       (False, _) \<Rightarrow> Err FaultTooLong
     | (True, preimage) \<Rightarrow>
         (case lp_str_into preimage canon_version of
            (False, _) \<Rightarrow> Err FaultTooLong
          | (True, preimage) \<Rightarrow>
              (case write_object (unicode_nfc X) members strip preimage of
                 (preimage, unique) \<Rightarrow> if \<not> unique then Err FaultDuplicateKey else Ok preimage)))))"

definition body_hash :: "('sk, 'vk) externals \<Rightarrow> canon_value \<Rightarrow> string list \<Rightarrow> (string, preimage_fault) result" where
  "body_hash X v strip = map_ok (sha256_prefixed (sha256 X)) (body_preimage X v strip)"

definition hash_body :: "('sk, 'vk) externals \<Rightarrow> canon_value \<Rightarrow> string list \<Rightarrow> (string, record_error) result" where
  "hash_body X v strip = map_err into_record_error (body_hash X v strip)"

definition hash_body_preimage :: "('sk, 'vk) externals \<Rightarrow> canon_value \<Rightarrow> string list \<Rightarrow> (bytes, record_error) result" where
  "hash_body_preimage X v strip = map_err into_record_error (body_preimage X v strip)"

definition record_preimage :: "('sk, 'vk) externals \<Rightarrow> canon_value \<Rightarrow> (bytes, preimage_fault) result" where
  "record_preimage X body = body_preimage X body [''content_hash'', ''sig'']"

definition record_hash :: "('sk, 'vk) externals \<Rightarrow> canon_value \<Rightarrow> (string, preimage_fault) result" where
  "record_hash X body = map_ok (sha256_prefixed (sha256 X)) (record_preimage X body)"

definition compute_content_hash :: "('sk, 'vk) externals \<Rightarrow> canon_value \<Rightarrow> (string, record_error) result" where
  "compute_content_hash X r = map_err into_record_error (record_hash X r)"

section \<open>Sealing and verification\<close>

definition verify_content_hash :: "('sk, 'vk) externals \<Rightarrow> canon_value \<Rightarrow> (unit, record_error) result" where
  "verify_content_hash X r =
     bind_result (record_str_field r ''domain'') (\<lambda>domain.
     if domain \<noteq> RECORD_DOMAIN then Err (RecDomainMismatch RECORD_DOMAIN domain)
     else bind_result (record_str_field r ''canon_version'') (\<lambda>cv.
     if cv \<noteq> CANON_VERSION then Err (RecCanonVersionMismatch CANON_VERSION cv)
     else bind_result (record_str_field r ''content_hash'') (\<lambda>stored.
     bind_result (compute_content_hash X r) (\<lambda>computed.
     if stored \<noteq> computed then Err (RecContentHashMismatch stored computed) else Ok ()))))"

fun update_first :: "(string \<times> canon_value) list \<Rightarrow> string \<Rightarrow> canon_value \<Rightarrow> (string \<times> canon_value) list option" where
  "update_first [] key v = None"
| "update_first ((k, w) # ms) key v =
     (if k = key then Some ((k, v) # ms) else map_option (\<lambda>ms. (k, w) # ms) (update_first ms key v))"

definition with_field :: "canon_value \<Rightarrow> string \<Rightarrow> canon_value \<Rightarrow> canon_value" where
  "with_field obj key v =
     (case as_object obj of
        None \<Rightarrow> Code.abort (STR ''with_field on non-object'') (\<lambda>_. obj)
      | Some members \<Rightarrow>
          (case update_first members key v of
             Some members' \<Rightarrow> Object members'
           | None \<Rightarrow> Object (members @ [(key, v)])))"

datatype seal_shape_mode = Enforce | Shadow

definition check_sealed_shape :: "canon_value \<Rightarrow> (unit, record_error) result" where
  "check_sealed_shape sealed =
     bind_result (validate_record_shape sealed) (\<lambda>_.
     bind_result (record_str_field sealed ''domain'') (\<lambda>domain.
     if domain \<noteq> RECORD_DOMAIN then Err (RecDomainMismatch RECORD_DOMAIN domain)
     else bind_result (record_str_field sealed ''canon_version'') (\<lambda>cv.
     if cv \<noteq> CANON_VERSION then Err (RecCanonVersionMismatch CANON_VERSION cv) else Ok ())))"

definition seal_unchecked :: "('sk, 'vk) externals \<Rightarrow> canon_value \<Rightarrow> 'sk \<Rightarrow> (canon_value, record_error) result" where
  "seal_unchecked X r sk =
     bind_result (compute_content_hash X r) (\<lambda>content_hash.
     let sig = sign X RECORD_SIG_TAG content_hash sk;
         stripped = without_keys r [''content_hash'', ''sig''];
         with_hash = with_field stripped ''content_hash'' (Str content_hash)
     in Ok (with_field with_hash ''sig'' (Str sig)))"

text \<open>
  The process-wide counter \<open>SEAL_SHAPE_VIOLATIONS\<close>, an atomic \<open>u64\<close>, is passed through: its value
  after the call is the first component.
\<close>

definition seal_with_mode :: "('sk, 'vk) externals \<Rightarrow> 64 word \<Rightarrow> canon_value \<Rightarrow> 'sk \<Rightarrow> seal_shape_mode
    \<Rightarrow> 64 word \<times> (canon_value, record_error) result" where
  "seal_with_mode X violations r sk mode =
     (case seal_unchecked X r sk of
        Err e \<Rightarrow> (violations, Err e)
      | Ok sealed \<Rightarrow>
          (case check_sealed_shape sealed of
             Ok _ \<Rightarrow> (violations, Ok sealed)
           | Err e \<Rightarrow>
               (case mode of
                  Enforce \<Rightarrow> (violations, Err e)
                | Shadow \<Rightarrow> (violations + 1, Ok sealed))))"

definition seal :: "('sk, 'vk) externals \<Rightarrow> 64 word \<Rightarrow> canon_value \<Rightarrow> 'sk \<Rightarrow> 64 word \<times> (canon_value, record_error) result" where
  "seal X violations r sk = seal_with_mode X violations r sk Enforce"

definition verify_signature :: "('sk, 'vk) externals \<Rightarrow> canon_value \<Rightarrow> 'vk \<Rightarrow> (unit, record_error) result" where
  "verify_signature X r vk =
     bind_result (record_str_field r ''content_hash'') (\<lambda>content_hash.
     bind_result (record_str_field r ''sig'') (\<lambda>sig.
     map_err RecSignatureInvalid (verify_sig X RECORD_SIG_TAG content_hash sig vk)))"

definition verify_sealed :: "('sk, 'vk) externals \<Rightarrow> canon_value \<Rightarrow> 'vk \<Rightarrow> (unit, record_error) result" where
  "verify_sealed X r vk =
     bind_result (validate_record_shape r) (\<lambda>_.
     bind_result (verify_content_hash X r) (\<lambda>_.
     verify_signature X r vk))"

section \<open>Fields of an object\<close>

named_theorems field_simps \<open>lookup, removal and update of object fields\<close>

lemma member_loop_map_of: "member_loop ms key = map_of ms key"
  by (induction ms key rule: member_loop.induct) simp_all

lemma get_Object [field_simps]: "get (Object ms) key = map_of ms key"
  by (simp add: get_def member_of_def member_loop_map_of)

lemma member_of_Object [field_simps]: "member_of (Object ms) key = map_of ms key"
  by (simp add: member_of_def member_loop_map_of)

lemma get_Some_Object: "get v key = Some w \<Longrightarrow> \<exists>ms. v = Object ms"
  by (cases v) (simp_all add: get_def member_of_def)

lemma map_of_filter_keys [field_simps]:
  "map_of (filter (\<lambda>(k, _). k \<notin> set keys) ms) key = (if key \<in> set keys then None else map_of ms key)"
  by (induction ms) auto

lemma get_without_keys [field_simps]:
  "get (without_keys (Object ms) keys) key = (if key \<in> set keys then None else map_of ms key)"
  by (simp add: without_keys_def field_simps)

lemma update_first_None: "update_first ms key v = None \<longleftrightarrow> map_of ms key = None"
  by (induction ms key v rule: update_first.induct) auto

lemma update_first_Some:
  "update_first ms key v = Some ms' \<Longrightarrow>
   map_of ms' k = (if k = key then Some v else map_of ms k) \<and> map fst ms' = map fst ms
   \<and> filter (\<lambda>(k, _). k \<noteq> key) ms' = filter (\<lambda>(k, _). k \<noteq> key) ms"
proof (induction ms key v arbitrary: ms' rule: update_first.induct)
  case (2 k' w ms key v)
  then show ?case by (auto split: if_splits)
qed simp

lemma with_field_fresh [field_simps]:
  "map_of ms key = None \<Longrightarrow> with_field (Object ms) key v = Object (ms @ [(key, v)])"
  using update_first_None [of ms key v] by (simp add: with_field_def as_object_def)

lemma accessor_Some [simp]:
  "as_str v = Some s \<longleftrightarrow> v = Str s" "as_int v = Some n \<longleftrightarrow> v = CInt n"
  "as_array v = Some vs \<longleftrightarrow> v = Array vs" "as_object v = Some ms \<longleftrightarrow> v = Object ms"
  by (cases v; auto simp: as_str_def as_int_def as_array_def as_object_def)+

lemma record_str_field_Ok [field_simps]: "record_str_field v key = Ok s \<longleftrightarrow> get v key = Some (Str s)"
  by (auto simp: record_str_field_def)

lemma preimage_str_Ok: "preimage_str v key e f = Ok s \<longleftrightarrow> member_of v key = Some (Str s)"
  by (auto simp: preimage_str_def split: option.splits canon_value.splits)

section \<open>Bodies hashed without some of their keys\<close>

abbreviation kept :: "string list \<Rightarrow> (string \<times> canon_value) list \<Rightarrow> (string \<times> canon_value) list" where
  "kept strip ms \<equiv> filter (\<lambda>(k, _). k \<notin> set strip) ms"

lemma body_preimage_Ok:
  "body_preimage X v strip = Ok p \<longleftrightarrow>
     (\<exists>ms d cv. v = Object ms \<and> map_of ms ''domain'' = Some (Str d) \<and> map_of ms ''canon_version'' = Some (Str cv)
        \<and> lp_fits (as_bytes d) \<and> lp_fits (as_bytes cv) \<and> keys_unique (unicode_nfc X) (Object (kept strip ms))
        \<and> p = lp (as_bytes d) @ lp (as_bytes cv) @ canon_text (unicode_nfc X) (Object (kept strip ms)))"
  by (cases v) (auto simp: body_preimage_def as_object_def preimage_str_Ok member_of_Object lp_str_into_def lp_into_eq
      write_object_eq_without_keys write_canonical_eq without_keys_def simp del: write_canonical.simps keys_unique.simps canon_text.simps)

lemma value_ok_kept: "value_ok (Object ms) \<Longrightarrow> value_ok (Object (kept strip ms))"
  by auto

lemma nesting_kept: "nesting (Object ms) \<le> n \<Longrightarrow> nesting (Object (kept strip ms)) \<le> n"
  by (auto simp: nesting_Object_le)

lemma body_preimage_binding:
  assumes X: "nfc_ok (unicode_nfc X)" and a: "value_ok (Object a)" "nesting (Object a) \<le> MAX_DEPTH"
    and b: "value_ok (Object b)" "nesting (Object b) \<le> MAX_DEPTH"
    and p: "body_preimage X (Object a) strip = Ok p" "body_preimage X (Object b) strip = Ok p"
  shows "canonical (unicode_nfc X) (Object (kept strip a)) = canonical (unicode_nfc X) (Object (kept strip b))"
proof -
  let ?t = "\<lambda>ms. canon_text (unicode_nfc X) (Object (kept strip ms))"
  obtain d cv where pa: "lp_fits (as_bytes d)" "lp_fits (as_bytes cv)" "keys_unique (unicode_nfc X) (Object (kept strip a))"
    "p = lp (as_bytes d) @ lp (as_bytes cv) @ ?t a" using p(1) unfolding body_preimage_Ok by blast
  obtain d' cv' where pb: "lp_fits (as_bytes d')" "lp_fits (as_bytes cv')" "keys_unique (unicode_nfc X) (Object (kept strip b))"
    "p = lp (as_bytes d') @ lp (as_bytes cv') @ ?t b" using p(2) unfolding body_preimage_Ok by blast
  have "?t a = ?t b"
    using lp_frame.enc_split [OF pa(1) pb(1), of "lp (as_bytes cv) @ ?t a" "lp (as_bytes cv') @ ?t b"]
      lp_frame.enc_split [OF pa(2) pb(2), of "?t a" "?t b"] pa(4) pb(4) by simp
  moreover have "serializable (unicode_nfc X) (Object (kept strip a))" "serializable (unicode_nfc X) (Object (kept strip b))"
    unfolding serializable_def using pa(3) pb(3) a(1) b(1) value_ok_kept by blast+
  ultimately show ?thesis
    using canon_text_canonical [OF X] nesting_kept [OF a(2)] nesting_kept [OF b(2)] by blast
qed

text \<open>
  The contract of a sealed document: its hash and its signature are among the stripped keys, and the
  two fields the preimage reads are not. Under it sealing does not disturb what is hashed.
\<close>

locale sealed_body =
  fixes hash_key :: string and strip :: "string list"
  assumes hash_key_stripped: "hash_key \<in> set strip"
    and sig_stripped: "''sig'' \<in> set strip"
    and hash_key_not_sig: "hash_key \<noteq> ''sig''"
    and pins_kept: "''domain'' \<notin> set strip" "''canon_version'' \<notin> set strip"
begin

lemma body_preimage_cong:
  assumes "kept strip a = kept strip b"
  shows "body_preimage X (Object a) strip = body_preimage X (Object b) strip"
proof -
  have "map_of a k = map_of b k" if "k \<notin> set strip" for k
    using map_of_filter_keys [of strip a k] map_of_filter_keys [of strip b k] that assms by simp
  then have pins: "map_of a ''domain'' = map_of b ''domain''" "map_of a ''canon_version'' = map_of b ''canon_version''"
    using pins_kept by blast+
  have w: "write_object (unicode_nfc X) a strip = write_object (unicode_nfc X) b strip"
    by (rule ext) (simp add: write_object_eq_without_keys without_keys_def assms del: write_canonical.simps)
  show ?thesis
    unfolding body_preimage_def as_object_def canon_value.case ok_or.simps bind_result.simps preimage_str_def
      member_of_Object pins w ..
qed

lemma seal_fields:
  assumes "set dropped \<subseteq> set strip" "hash_key \<in> set dropped" "''sig'' \<in> set dropped"
  defines "sealed \<equiv> \<lambda>ms h s. with_field (with_field (without_keys (Object ms) dropped) hash_key (Str h)) ''sig'' (Str s)"
  shows "sealed ms h s = Object (kept dropped ms @ [(hash_key, Str h), (''sig'', Str s)])"
    and "body_preimage X (sealed ms h s) strip = body_preimage X (Object ms) strip"
    and "get (sealed ms h s) hash_key = Some (Str h)" "get (sealed ms h s) ''sig'' = Some (Str s)"
    and "key \<notin> set strip \<Longrightarrow> get (sealed ms h s) key = map_of ms key"
proof -
  show eq: "sealed ms h s = Object (kept dropped ms @ [(hash_key, Str h), (''sig'', Str s)])" for ms h s
    using assms hash_key_not_sig by (simp add: sealed_def without_keys_def with_field_fresh map_of_filter_keys map_add_def)
  have "kept strip (kept dropped ms) = kept strip ms"
    using assms(1) by (induction ms) (auto simp: subset_iff)
  then show "body_preimage X (sealed ms h s) strip = body_preimage X (Object ms) strip"
    unfolding eq by (intro body_preimage_cong) (simp add: hash_key_stripped sig_stripped)
  show "get (sealed ms h s) hash_key = Some (Str h)" "get (sealed ms h s) ''sig'' = Some (Str s)"
    "key \<notin> set strip \<Longrightarrow> get (sealed ms h s) key = map_of ms key"
    using assms(1-3) hash_key_not_sig hash_key_stripped sig_stripped
    unfolding eq get_Object by (auto simp: map_of_filter_keys map_add_def split: option.split)
qed

end

interpretation record_body: sealed_body "''content_hash''" "[''content_hash'', ''sig'']"
  by unfold_locales simp_all

lemma record_hash_body: "record_hash X r = body_hash X r [''content_hash'', ''sig'']"
  by (simp add: record_hash_def record_preimage_def body_hash_def)

lemma compute_content_hash_Ok:
  "compute_content_hash X r = Ok h \<longleftrightarrow>
     (\<exists>p. body_preimage X r [''content_hash'', ''sig''] = Ok p \<and> h = sha256_prefixed (sha256 X) p)"
  by (auto simp: compute_content_hash_def record_hash_def record_preimage_def)

lemma verify_content_hash_Ok:
  "verify_content_hash X r = Ok () \<longleftrightarrow>
     get r ''domain'' = Some (Str RECORD_DOMAIN) \<and> get r ''canon_version'' = Some (Str CANON_VERSION)
     \<and> (\<exists>h. get r ''content_hash'' = Some (Str h) \<and> compute_content_hash X r = Ok h)"
  by (auto simp: verify_content_hash_def record_str_field_Ok split: if_splits)

lemma verify_signature_Ok:
  "verify_signature X r vk = Ok () \<longleftrightarrow>
     (\<exists>h s. get r ''content_hash'' = Some (Str h) \<and> get r ''sig'' = Some (Str s)
        \<and> verify_sig X RECORD_SIG_TAG h s vk = Ok ())"
  by (auto simp: verify_signature_def record_str_field_Ok)

lemma check_sealed_shape_Ok:
  "check_sealed_shape r = Ok () \<longleftrightarrow>
     validate_record_shape r = Ok () \<and> get r ''domain'' = Some (Str RECORD_DOMAIN)
     \<and> get r ''canon_version'' = Some (Str CANON_VERSION)"
  by (auto simp: check_sealed_shape_def record_str_field_Ok split: if_splits)

lemma seal_unchecked_Ok:
  assumes "ed25519_ok X" "seal_unchecked X r sk = Ok sealed"
  obtains ms h s where "r = Object ms" "compute_content_hash X r = Ok h"
    "sealed = Object (kept [''content_hash'', ''sig''] ms @ [(''content_hash'', Str h), (''sig'', Str s)])"
    "compute_content_hash X sealed = Ok h" "get sealed ''content_hash'' = Some (Str h)"
    "verify_signature X sealed (ed_verifying_key X sk) = Ok ()"
proof -
  obtain h where h: "compute_content_hash X r = Ok h"
    and sealed: "sealed = with_field (with_field (without_keys r [''content_hash'', ''sig'']) ''content_hash'' (Str h))
       ''sig'' (Str (sign X RECORD_SIG_TAG h sk))"
    using assms(2) by (auto simp: seal_unchecked_def Let_def)
  then obtain ms where r: "r = Object ms"
    by (auto simp: compute_content_hash_Ok body_preimage_Ok)
  let ?s = "sign X RECORD_SIG_TAG h sk"
  note fields = record_body.seal_fields [where dropped = "[''content_hash'', ''sig'']" and ms = ms and h = h and s = ?s, simplified, folded r]
  have "compute_content_hash X sealed = Ok h"
    using h unfolding compute_content_hash_Ok sealed fields(2) .
  moreover have "verify_signature X sealed (ed_verifying_key X sk) = Ok ()"
    using fields(3,4) verify_sig_sign [OF assms(1) sig_tags_fit(1), of h sk]
    unfolding verify_signature_Ok sealed by simp
  ultimately show ?thesis
    using that [of ms h ?s] r h fields(1,3) unfolding sealed by simp
qed

lemma seal_enforce_Ok:
  "seal X n r sk = (m, Ok sealed) \<longleftrightarrow> m = n \<and> seal_unchecked X r sk = Ok sealed \<and> check_sealed_shape sealed = Ok ()"
  by (auto simp: seal_def seal_with_mode_def split: result.splits)

lemma verify_sealed_iff:
  "verify_sealed X r vk = Ok () \<longleftrightarrow>
     check_sealed_shape r = Ok () \<and> (\<exists>h. get r ''content_hash'' = Some (Str h) \<and> compute_content_hash X r = Ok h)
     \<and> verify_signature X r vk = Ok ()"
  by (auto simp: verify_sealed_def verify_content_hash_Ok check_sealed_shape_Ok)

end
