(* ===== verification/Record_Guarantees.thy ===== *)
theory Record_Guarantees
  imports Canon_Guarantees Decision_Record
begin

text \<open>
  What signatures, commitments and sealed records promise. The statements hold for every
  implementation of the cryptographic crates that satisfies the named hypotheses; \<open>demo\<close> is a
  concrete one, on which the hypotheses hold, and \<open>demo_record\<close> a record it can seal.
\<close>

lemma is_ascii_append: "is_ascii (a @ b) \<longleftrightarrow> is_ascii a \<and> is_ascii b"
  by (simp add: is_ascii_def)

lemma sha256_prefixed_ascii: "is_ascii (sha256_prefixed f p)"
  using sha256_prefix_ascii hex_text_ascii
  by (simp add: sha256_prefixed_eq is_ascii_append hex_lower_eq) (simp add: is_ascii_def hex_text_ascii)

lemma sealed_keys_ascii: "is_ascii ''content_hash''" "is_ascii ''sig''" "is_ascii SIG_PREFIX"
  by code_simp+

lemma encode_ascii: "is_ascii (encode b)"
proof -
  have "list_all (\<lambda>b. unat b < 0x80) (enc_text b)"
    using chunks_bounded [of 3 b] enc_chunk_ascii by (fastforce simp: enc_text_def list_all_iff)
  then show ?thesis by (simp add: is_ascii_def encode_eq word_less_nat_alt)
qed

lemma sign_ascii: "lp_fits (as_bytes tag) \<Longrightarrow> is_ascii (sign X tag ch sk)"
  by (simp add: sign_def sign_preimage_eq is_ascii_append encode_ascii sealed_keys_ascii)

section \<open>A concrete instance\<close>

definition demo :: "(u8, u8) externals" where
  "demo = \<lparr> sha256 = (\<lambda>d. take 32 (d @ replicate 32 0)), unicode_nfc = (\<lambda>s. s),
     ed_sign = (\<lambda>sk m. replicate 64 sk), ed_verifying_key = (\<lambda>sk. sk),
     ed_verify_strict = (\<lambda>vk m s. s = replicate 64 vk), ed_vk_bytes = (\<lambda>vk. replicate 32 vk),
     ed_vk_from_bytes = (\<lambda>b. if b = replicate 32 (b ! 0) then Some (b ! 0) else None),
     ed_sk_from_seed = (\<lambda>seed. seed ! 0) \<rparr>"

lemma demo_ok: "sha256_ok demo" "ed25519_ok demo" "nfc_ok (unicode_nfc demo)"
  by (auto simp: demo_def sha256_ok_def ed25519_ok_def nfc_ok_id)

definition demo_record :: "bool \<Rightarrow> canon_value" where
  "demo_record b = Object ([(''domain'', Str RECORD_DOMAIN), (''canon_version'', Str CANON_VERSION), (''status'', Bool b)]
     @ map (\<lambda>k. (k, Null))
         (filter (\<lambda>k. k \<notin> set [''domain'', ''canon_version'', ''status'', ''content_hash'', ''sig'']) REQUIRED_TOP_KEYS))"

lemma keys_unique_ascii:
  "list_all (\<lambda>(k, v). is_ascii k \<and> keys_unique uni v) ms \<Longrightarrow> keys_unique uni (Object ms) \<longleftrightarrow> distinct (map fst ms)"
proof -
  assume a: "list_all (\<lambda>(k, v). is_ascii k \<and> keys_unique uni v) ms"
  have "map (\<lambda>(k, _). key_units (nfc uni k)) ms = map (\<lambda>k. map of_char k) (map fst ms)"
    using a by (auto simp: list_all_iff key_units_ascii)
  moreover have "inj_on (\<lambda>k. map of_char k :: nat list) (set (map fst ms))"
    by (rule inj_onI) (simp add: inj_map_eq_map [OF inj_of_char])
  ultimately have "distinct (map (\<lambda>(k, _). key_units (nfc uni k)) ms) \<longleftrightarrow> distinct (map fst ms)"
    by (simp only: distinct_map [of "\<lambda>k. map of_char k"] simp_thms)
  then show ?thesis using a by (auto simp: list_all_iff)
qed


lemma demo_record_ascii:
  "list_all (\<lambda>(k, v). is_ascii k \<and> keys_unique uni v) (the (as_object (demo_record b)))"
  "distinct (map fst (the (as_object (demo_record b))))"
  by code_simp+

lemma demo_record_shape:
  "as_object (demo_record b) \<noteq> None"
  "kept [''content_hash'', ''sig''] (the (as_object (demo_record b))) = the (as_object (demo_record b))"
  "get (demo_record b) ''domain'' = Some (Str RECORD_DOMAIN)" "get (demo_record b) ''canon_version'' = Some (Str CANON_VERSION)"
  "value_ok (demo_record b)" "nesting (demo_record b) = 1"
  by code_simp+

lemma pins_fit: "lp_fits (as_bytes RECORD_DOMAIN)" "lp_fits (as_bytes CANON_VERSION)"
  by (simp_all add: RECORD_DOMAIN_def CANON_VERSION_def MAX_LP_LEN_def)

definition demo_sealed :: "bool \<Rightarrow> canon_value" where
  "demo_sealed b = unwrap (snd (seal demo 0 (demo_record b) 7))"

lemma demo_shape:
  "check_sealed_shape (Object (the (as_object (demo_record b)) @ [(''content_hash'', Str h), (''sig'', Str s)])) = Ok ()"
  by code_simp

text \<open>The preimages of the demonstration records share their first 32 bytes, which is all \<open>demo\<close> hashes.\<close>

lemma demo_preimage:
  obtains p where "body_preimage demo (demo_record b) [''content_hash'', ''sig''] = Ok p"
    "sha256 demo p = take 32 (lp (as_bytes RECORD_DOMAIN) @ lp (as_bytes CANON_VERSION))"
proof -
  obtain ms where r: "demo_record b = Object ms" using demo_record_shape(1) [of b] by auto
  have ms: "the (as_object (demo_record b)) = ms" unfolding r as_object_def by simp
  have kept: "kept [''content_hash'', ''sig''] ms = ms" using demo_record_shape(2) [of b] unfolding ms .
  have "keys_unique (unicode_nfc demo) (Object ms)"
    using keys_unique_ascii demo_record_ascii [where b = b] unfolding ms by blast
  then have p: "body_preimage demo (demo_record b) [''content_hash'', ''sig''] =
      Ok (lp (as_bytes RECORD_DOMAIN) @ lp (as_bytes CANON_VERSION) @ canon_text (unicode_nfc demo) (Object ms))"
    unfolding body_preimage_Ok r
    by (intro exI [of _ ms] exI [of _ RECORD_DOMAIN] exI [of _ CANON_VERSION])
       (use demo_record_shape(3,4) [of b] pins_fit in \<open>simp only: r get_Object kept simp_thms\<close>)
  show thesis
    by (rule that [OF p]) (simp add: demo_def lp_def RECORD_DOMAIN_def CANON_VERSION_def)
qed

lemma demo_seals:
  "seal demo 0 (demo_record b) 7 = (0, Ok (demo_sealed b))"
  "get (demo_sealed b) ''content_hash'' =
     Some (Str (''sha256:'' @ hex_lower (take 32 (lp (as_bytes RECORD_DOMAIN) @ lp (as_bytes CANON_VERSION)))))"
  "value_ok (demo_sealed b)" "nesting (demo_sealed b) \<le> MAX_DEPTH"
proof -
  obtain p where p: "body_preimage demo (demo_record b) [''content_hash'', ''sig''] = Ok p"
    "sha256 demo p = take 32 (lp (as_bytes RECORD_DOMAIN) @ lp (as_bytes CANON_VERSION))" by (rule demo_preimage)
  let ?h = "sha256_prefixed (sha256 demo) p"
  have h: "compute_content_hash demo (demo_record b) = Ok ?h" by (simp add: compute_content_hash_Ok p(1))
  then obtain sealed where s: "seal_unchecked demo (demo_record b) 7 = Ok sealed" by (simp add: seal_unchecked_def Let_def)
  let ?s = "sign demo RECORD_SIG_TAG ?h 7"
  obtain ms where f: "demo_record b = Object ms" using demo_record_shape(1) [of b] by auto
  have w: "sealed = with_field (with_field (without_keys (Object ms) [''content_hash'', ''sig'']) ''content_hash'' (Str ?h)) ''sig'' (Str ?s)"
    using s h by (simp add: seal_unchecked_def Let_def f)
  note fields = record_body.seal_fields [where dropped = "[''content_hash'', ''sig'']" and ms = ms and h = ?h and s = ?s, simplified, folded w [simplified]]
  have ms: "the (as_object (demo_record b)) = ms" unfolding f as_object_def by simp
  have sealed: "sealed = Object (ms @ [(''content_hash'', Str ?h), (''sig'', Str ?s)])"
    using fields(1) demo_record_shape(2) [of b] unfolding ms by simp
  have "seal demo 0 (demo_record b) 7 = (0, Ok sealed)"
    using s demo_shape [of b] unfolding seal_enforce_Ok ms sealed by simp
  moreover from this have e: "demo_sealed b = sealed" by (simp add: demo_sealed_def)
  ultimately show "seal demo 0 (demo_record b) 7 = (0, Ok (demo_sealed b))" by simp
  show "get (demo_sealed b) ''content_hash'' =
     Some (Str (''sha256:'' @ hex_lower (take 32 (lp (as_bytes RECORD_DOMAIN) @ lp (as_bytes CANON_VERSION)))))"
    unfolding e fields(3) sha256_prefixed_eq p(2) ..
  show "value_ok (demo_sealed b)"
    using demo_record_shape(5) [of b] sealed_keys_ascii unfolding e sealed f
    by (auto simp: is_ascii_is_str sha256_prefixed_ascii sign_ascii [OF sig_tags_fit(1)])
  show "nesting (demo_sealed b) \<le> MAX_DEPTH"
    using demo_record_shape(6) [of b] unfolding e sealed f by (auto simp: nesting_Object_le MAX_DEPTH_def nesting.simps)
qed

section \<open>Signatures and keys\<close>

text \<open>C39: What a key signs under one of the two tags, the verifier accepts under that tag and the key's public
  half; and whatever it accepts is a 64-byte signature on the tagged message, so one signed message
  answers for one tag and one hash only.\<close>

theorem signature_sound_and_separated:
  assumes "ed25519_ok X" "tag \<in> {RECORD_SIG_TAG, CHECKPOINT_SIG_TAG}"
  shows "verify_sig X tag ch (sign X tag ch sk) (ed_verifying_key X sk) = Ok ()
    \<and> (verify_sig X tag ch sig vk = Ok () \<longrightarrow>
        (\<exists>m b. sign_preimage tag ch = Some m \<and> sig = SIG_PREFIX @ encode b \<and> length b = 64 \<and> ed_verify_strict X vk m b
           \<and> (\<forall>tag' ch'. sign_preimage tag' ch' = Some m \<longrightarrow> tag' = tag \<and> ch' = ch)))"
proof -
  have "lp_fits (as_bytes tag)" using assms(2) sig_tags_fit by blast
  then have "verify_sig X tag ch (sign X tag ch sk) (ed_verifying_key X sk) = Ok ()" by (rule verify_sig_sign [OF assms(1)])
  moreover have "\<exists>m b. sign_preimage tag ch = Some m \<and> sig = SIG_PREFIX @ encode b \<and> length b = 64 \<and> ed_verify_strict X vk m b
      \<and> (\<forall>tag' ch'. sign_preimage tag' ch' = Some m \<longrightarrow> tag' = tag \<and> ch' = ch)" if v: "verify_sig X tag ch sig vk = Ok ()"
  proof -
    obtain m b where *: "sign_preimage tag ch = Some m" "sig = SIG_PREFIX @ encode b" "length b = 64" "ed_verify_strict X vk m b"
      using v unfolding verify_sig_iff by (elim exE conjE)
    have "\<forall>tag' ch'. sign_preimage tag' ch' = Some m \<longrightarrow> tag' = tag \<and> ch' = ch"
      by (intro allI impI) (rule sign_preimage_inject [OF _ *(1)])
    with * show ?thesis by (intro exI [of _ m] exI [of _ b] conjI)
  qed
  ultimately show ?thesis by simp
qed

theorem signature_sound_and_separated_witness:
  "verify_sig demo RECORD_SIG_TAG ''h'' (sign demo RECORD_SIG_TAG ''h'' 7) 7 = Ok ()"
  using signature_sound_and_separated [OF demo_ok(2), of RECORD_SIG_TAG "''h''" 7] by (simp add: demo_def)

text \<open>The textual form of a public key decodes to that key, and two keys never share one.\<close>

theorem pubkey_roundtrip:
  assumes "ed25519_ok X"
  shows "decode_pubkey X (encode_pubkey X vk) = Ok vk \<and> (encode_pubkey X vk = encode_pubkey X vk' \<longrightarrow> vk = vk')"
  using decode_encode_pubkey [OF assms] by (metis result.inject(1))

theorem pubkey_roundtrip_witness: "decode_pubkey demo (encode_pubkey demo 9) = Ok 9"
  using pubkey_roundtrip [OF demo_ok(2), of 9 9] by simp

section \<open>Commitments\<close>

text \<open>A commitment verifies exactly for the domain, value and nonce it was made from: the check recomputes
  it and the constant-time comparison decides equality; a nonce of the wrong length or a value over
  the length bound never verifies.\<close>

theorem verify_commitment_exact:
  "verify_commitment X c d v n \<longleftrightarrow>
     length n = NONCE_LEN \<and> lp_fits v
     \<and> c = sha256_prefixed (sha256 X) (concat (map lp [as_bytes COMMIT_TAG, as_bytes (field_domain_as_str d), n, v]))"
  by (auto simp: verify_commitment_iff commit_def commit_preimage_Ok commit_frames_def)

text \<open>C40: Commitments bind: if one commitment opens to two triples of domain, value and nonce, the triples are
  equal or their preimages are a collision of the hash.\<close>

theorem commitment_binding:
  assumes "verify_commitment X c d v n" "verify_commitment X c d' v' n'"
  shows "(d = d' \<and> v = v' \<and> n = n')
    \<or> collision X (unwrap (commit_preimage d v n)) (unwrap (commit_preimage d' v' n'))"
proof -
  obtain p q where p: "commit_preimage d v n = Ok p" and q: "commit_preimage d' v' n' = Ok q"
    and "sha256_prefixed (sha256 X) p = sha256_prefixed (sha256 X) q"
    using assms by (auto simp: verify_commitment_iff commit_def)
  then have "p = q \<or> collision X p q" by (auto simp: collision_def)
  then show ?thesis using p q commit_preimage_inject [of d v n p d' v' n'] by auto
qed

lemma demo_commit_prefix:
  assumes "lp_fits v" "lp_fits v'"
  shows "commit demo d v (replicate 32 0) = commit demo d v' (replicate 32 0)"
proof -
  have "\<exists>p. commit_preimage d w (replicate 32 0) = Ok p" if "lp_fits w" for w
    using that by (simp add: commit_preimage_Ok NONCE_LEN_def)
  then obtain p q where p: "commit_preimage d v (replicate 32 0) = Ok p" and q: "commit_preimage d v' (replicate 32 0) = Ok q"
    using assms by blast
  then have "take 32 p = take 32 q" "32 \<le> length p" "32 \<le> length q"
    by (auto simp: commit_preimage_Ok commit_frames_def lp_def)
  then show ?thesis unfolding commit_def p q by (simp add: demo_def)
qed

theorem commitment_binding_witness:
  "collision demo (unwrap (commit_preimage Input [1] (replicate 32 0))) (unwrap (commit_preimage Input [2] (replicate 32 0)))"
proof -
  have fits: "lp_fits [1 :: u8]" "lp_fits [2 :: u8]" by (simp_all add: MAX_LP_LEN_def)
  have "\<exists>p. commit_preimage Input [1] (replicate 32 0) = Ok p" using fits by (simp add: commit_preimage_Ok NONCE_LEN_def)
  then obtain c where "commit demo Input [1] (replicate 32 0) = Ok c" by (auto simp: commit_def)
  then have "verify_commitment demo c Input [1] (replicate 32 0)" "verify_commitment demo c Input [2] (replicate 32 0)"
    using demo_commit_prefix [OF fits, of Input] by (simp_all add: verify_commitment_iff)
  from commitment_binding [OF this] show ?thesis by simp
qed

section \<open>Sealed records\<close>

text \<open>C2: A record that \<open>seal\<close> returns passes \<open>verify_sealed\<close> under the sealing key, carries every other field of
  the input unchanged and in order, and leaves the violation counter alone.\<close>

theorem seal_verifies:
  assumes "ed25519_ok X" "seal X n r sk = (m, Ok sealed)"
  shows "verify_sealed X sealed (ed_verifying_key X sk) = Ok () \<and> m = n
    \<and> without_keys sealed [''content_hash'', ''sig''] = without_keys r [''content_hash'', ''sig'']"
proof -
  have s: "m = n" "seal_unchecked X r sk = Ok sealed" "check_sealed_shape sealed = Ok ()"
    using assms(2) unfolding seal_enforce_Ok by simp_all
  from seal_unchecked_Ok [OF assms(1) s(2)] show ?thesis
  proof cases
    case (1 ms h s')
    then show ?thesis using s unfolding verify_sealed_iff by (auto simp: without_keys_def)
  qed
qed

lemma demo_verifies: "verify_sealed demo (demo_sealed b) 7 = Ok ()"
proof -
  have s: "seal_unchecked demo (demo_record b) 7 = Ok (demo_sealed b)" "check_sealed_shape (demo_sealed b) = Ok ()"
    using demo_seals(1) unfolding seal_enforce_Ok by simp_all
  obtain h where "compute_content_hash demo (demo_sealed b) = Ok h" "get (demo_sealed b) ''content_hash'' = Some (Str h)"
    "verify_signature demo (demo_sealed b) (ed_verifying_key demo 7) = Ok ()"
    by (rule seal_unchecked_Ok [OF demo_ok(2) s(1)])
  then show ?thesis using s(2) unfolding verify_sealed_iff by (simp add: demo_def)
qed

theorem seal_verifies_witness: "verify_sealed demo (demo_sealed True) 7 = Ok ()"
  using seal_verifies [OF demo_ok(2) demo_seals(1) [of True]] by (simp add: demo_def)

lemma check_allowed_Ok: "check_allowed ms = Ok () \<longleftrightarrow> fst ` set ms \<subseteq> set ALLOWED_TOP_KEYS"
  by (induction ms rule: check_allowed.induct) auto

lemma check_required_Ok: "check_required v reqs = Ok () \<longleftrightarrow> (\<forall>k\<in>set reqs. get v k \<noteq> None)"
  by (induction v reqs rule: check_required.induct) auto

text \<open>The shape a record must have before it is sealed.\<close>

definition well_shaped :: "canon_value \<Rightarrow> bool" where
  "well_shaped r \<longleftrightarrow>
     (\<exists>ms. r = Object ms \<and> fst ` set ms \<subseteq> set ALLOWED_TOP_KEYS
        \<and> set REQUIRED_TOP_KEYS - {''content_hash'', ''sig''} \<subseteq> fst ` set ms
        \<and> map_of ms ''domain'' = Some (Str RECORD_DOMAIN) \<and> map_of ms ''canon_version'' = Some (Str CANON_VERSION))"

lemma hash_keys_allowed: "{''content_hash'', ''sig''} \<subseteq> set ALLOWED_TOP_KEYS"
  by (simp add: ALLOWED_TOP_KEYS_def)

lemma sealed_well_shaped:
  "check_sealed_shape (Object (kept [''content_hash'', ''sig''] ms @ [(''content_hash'', Str h), (''sig'', Str s)])) = Ok ()
   \<longleftrightarrow> well_shaped (Object ms)"
proof -
  define ms' where "ms' = kept [''content_hash'', ''sig''] ms @ [(''content_hash'', Str h), (''sig'', Str s)]"
  have keys: "fst ` set ms' = fst ` set ms \<union> {''content_hash'', ''sig''}" unfolding ms'_def by force
  have get: "map_of ms' k = map_of ms k" if "k \<notin> {''content_hash'', ''sig''}" for k
    using that map_of_filter_keys [of "[''content_hash'', ''sig'']" ms k]
    by (auto simp: ms'_def map_add_def split: option.split)
  have "validate_record_shape (Object ms') = Ok () \<longleftrightarrow>
      fst ` set ms' \<subseteq> set ALLOWED_TOP_KEYS \<and> set REQUIRED_TOP_KEYS \<subseteq> fst ` set ms'"
    by (auto simp: validate_record_shape_def as_object_def check_allowed_Ok check_required_Ok get_Object
        dom_map_of_conv_image_fst [symmetric] subset_iff)
  then show ?thesis
    unfolding ms'_def [symmetric] check_sealed_shape_Ok well_shaped_def get_Object
    using get [of "''domain''"] get [of "''canon_version''"] hash_keys_allowed by (simp add: keys) blast
qed

text \<open>How sealing treats the record's shape. \<open>Enforce\<close> returns the sealed record exactly when the input has
  only allowed keys, every required one and the two version pins, and an error otherwise; \<open>Shadow\<close>
  always returns the record and counts the violation in its wrapping 64-bit counter.\<close>

theorem seal_modes:
  assumes "ed25519_ok X" "seal_unchecked X r sk = Ok sealed"
  shows "seal_with_mode X n r sk Shadow = (if well_shaped r then n else n + 1, Ok sealed)
    \<and> fst (seal_with_mode X n r sk Enforce) = n
    \<and> (if well_shaped r then snd (seal_with_mode X n r sk Enforce) = Ok sealed
        else \<exists>e. snd (seal_with_mode X n r sk Enforce) = Err e)"
proof -
  obtain ms h s where "r = Object ms" "sealed = Object (kept [''content_hash'', ''sig''] ms @ [(''content_hash'', Str h), (''sig'', Str s)])"
    by (rule seal_unchecked_Ok [OF assms])
  then have "check_sealed_shape sealed = Ok () \<longleftrightarrow> well_shaped r" by (simp only: sealed_well_shaped)
  then show ?thesis using assms(2) by (cases "check_sealed_shape sealed") (auto simp: seal_with_mode_def)
qed

theorem seal_modes_witness:
  "seal_with_mode demo (- 1) (demo_record True) 7 Shadow = (if well_shaped (demo_record True) then - 1 else 0, Ok (demo_sealed True))"
proof -
  have "seal_unchecked demo (demo_record True) 7 = Ok (demo_sealed True)" using demo_seals(1) unfolding seal_enforce_Ok by simp
  from seal_modes [OF demo_ok(2) this] show ?thesis by simp
qed

text \<open>C3: Two verified records, well-formed and within the nesting limit, with the same content hash have the same canonical body, every field other than
  the hash and the signature included, or exhibit a collision of the hash.\<close>

theorem record_hash_binding:
  assumes "nfc_ok (unicode_nfc X)"
    and "value_ok r" "nesting r \<le> MAX_DEPTH" "verify_sealed X r vk = Ok ()"
    and "value_ok r'" "nesting r' \<le> MAX_DEPTH" "verify_sealed X r' vk' = Ok ()"
    and "get r ''content_hash'' = get r' ''content_hash''"
  shows "canonical (unicode_nfc X) (without_keys r [''content_hash'', ''sig''])
         = canonical (unicode_nfc X) (without_keys r' [''content_hash'', ''sig''])
    \<or> collision X (unwrap (record_preimage X r)) (unwrap (record_preimage X r'))"
proof -
  let ?strip = "[''content_hash'', ''sig'']"
  obtain p where p: "body_preimage X r ?strip = Ok p" "get r ''content_hash'' = Some (Str (sha256_prefixed (sha256 X) p))"
    using assms(4) by (auto simp: verify_sealed_iff compute_content_hash_Ok)
  obtain q where q: "body_preimage X r' ?strip = Ok q" "get r' ''content_hash'' = Some (Str (sha256_prefixed (sha256 X) q))"
    using assms(7) by (auto simp: verify_sealed_iff compute_content_hash_Ok)
  obtain a b where ms: "r = Object a" "r' = Object b" using p(1) q(1) unfolding body_preimage_Ok by blast
  have "sha256 X p = sha256 X q" using p(2) q(2) assms(8) by simp
  then have "p = q \<or> collision X p q" by (simp add: collision_def)
  then show ?thesis
  proof
    assume "p = q"
    then show ?thesis
      using body_preimage_binding [OF assms(1), of a b ?strip p] assms(2,3,5,6) p(1) q(1)
      unfolding ms without_keys_def by auto
  next
    assume "collision X p q"
    then show ?thesis using p(1) q(1) by (simp add: record_preimage_def)
  qed
qed

theorem record_hash_binding_witness:
  "canonical (unicode_nfc demo) (without_keys (demo_sealed True) [''content_hash'', ''sig''])
     = canonical (unicode_nfc demo) (without_keys (demo_sealed False) [''content_hash'', ''sig''])
   \<or> collision demo (unwrap (record_preimage demo (demo_sealed True))) (unwrap (record_preimage demo (demo_sealed False)))"
  using record_hash_binding [OF demo_ok(3) demo_seals(3,4) [of True] demo_verifies demo_seals(3,4) [of False] demo_verifies]
    demo_seals(2) by simp

end
