(* ===== verification/Btree.thy ===== *)
theory Btree
  imports Averin_Base
begin

text \<open>
  The standard library's \<open>BTreeMap\<close> and \<open>BTreeSet\<close> as the core uses them: iteration is in key order,
  an insertion replaces the value of an equal key. A map is an association list in strictly
  increasing key order, a set is an increasing list without repetition (\<open>insort_insert\<close> of the
  library). The locale \<open>ordered_map\<close> states what the clients rely on.
\<close>

fun bt_insert :: "'k::linorder \<Rightarrow> 'v \<Rightarrow> ('k \<times> 'v) list \<Rightarrow> ('k \<times> 'v) list" where
  "bt_insert k v [] = [(k, v)]"
| "bt_insert k v ((k', v') # m) =
     (if k < k' then (k, v) # (k', v') # m
      else if k = k' then (k, v) # m
      else (k', v') # bt_insert k v m)"

definition bt_wf :: "('k::linorder \<times> 'v) list \<Rightarrow> bool" where
  "bt_wf m \<longleftrightarrow> sorted_wrt (<) (map fst m)"

definition bt_keys :: "('k \<times> 'v) list \<Rightarrow> 'k list" where
  "bt_keys m = map fst m"

abbreviation bs_insert :: "'k::linorder \<Rightarrow> 'k list \<Rightarrow> 'k list" where
  "bs_insert \<equiv> insort_insert"

locale ordered_map =
  fixes empty :: 'm and insert_kv :: "'k::linorder \<Rightarrow> 'v \<Rightarrow> 'm \<Rightarrow> 'm" and lookup :: "'m \<Rightarrow> 'k \<Rightarrow> 'v option"
    and keys :: "'m \<Rightarrow> 'k list" and wf :: "'m \<Rightarrow> bool"
  assumes wf_empty: "wf empty" and lookup_empty: "lookup empty k = None"
    and wf_insert: "wf m \<Longrightarrow> wf (insert_kv k v m)"
    and lookup_insert: "wf m \<Longrightarrow> lookup (insert_kv k v m) k' = (if k' = k then Some v else lookup m k')"
    and keys_sorted: "wf m \<Longrightarrow> sorted (keys m) \<and> distinct (keys m)"
    and keys_lookup: "wf m \<Longrightarrow> set (keys m) = {k. lookup m k \<noteq> None}"
begin

text \<open>The keys of a map are determined by its lookups.\<close>

lemma keys_eq: "wf m \<Longrightarrow> keys m = sorted_list_of_set {k. lookup m k \<noteq> None}"
  using keys_sorted [of m] keys_lookup [of m] by (metis sorted_list_of_set.idem_if_sorted_distinct)

lemma set_keys_insert: "wf m \<Longrightarrow> set (keys (insert_kv k v m)) = insert k (set (keys m))"
  using keys_lookup [of m] keys_lookup [OF wf_insert, of m k v] by (auto simp: lookup_insert)

lemma wf_fold: "wf m \<Longrightarrow> wf (fold (\<lambda>x. insert_kv (f x) (g x)) xs m)"
  by (induction xs arbitrary: m) (simp_all add: wf_insert)

text \<open>Indexing a list keeps, for every key, its last entry.\<close>

lemma lookup_fold:
  "wf m \<Longrightarrow> lookup (fold (\<lambda>x. insert_kv (f x) (g x)) xs m) k =
     (case filter (\<lambda>x. f x = k) xs of [] \<Rightarrow> lookup m k | ys \<Rightarrow> Some (g (last ys)))"
proof (induction xs arbitrary: m)
  case (Cons x xs)
  then show ?case by (auto simp: wf_insert lookup_insert split: list.split)
qed simp

end

lemma map_of_bt_insert: "bt_wf m \<Longrightarrow> map_of (bt_insert k v m) k' = (if k' = k then Some v else map_of m k')"
  by (induction m) (auto simp: bt_wf_def)

lemma bt_insert_keys: "set (map fst (bt_insert k v m)) = insert k (set (map fst m))"
  by (induction k v m rule: bt_insert.induct) (simp_all add: insert_commute)

lemma bt_wf_insert: "bt_wf m \<Longrightarrow> bt_wf (bt_insert k v m)"
proof (induction m)
  case (Cons e m)
  obtain k' v' where e: "e = (k', v')" by fastforce
  from Cons have s: "sorted_wrt (<) (map fst m)" "\<forall>x\<in>set (map fst m). k' < x" "bt_wf (bt_insert k v m)"
    by (simp_all add: bt_wf_def e)
  consider "k < k'" | "k = k'" | "k' < k" by (rule linorder_cases)
  then show ?case
  proof cases
    case 3
    with s bt_insert_keys [of k v m] show ?thesis by (auto simp: e bt_wf_def)
  qed (use s in \<open>auto simp: e bt_wf_def\<close>)
qed (simp add: bt_wf_def)

interpretation bt: ordered_map "[]" bt_insert map_of bt_keys bt_wf
proof
  show "set (bt_keys m) = {k. map_of m k \<noteq> None}" for m :: "('k::linorder \<times> 'v) list"
    by (auto simp: bt_keys_def map_of_eq_None_iff)
  show "bt_wf m \<Longrightarrow> sorted (bt_keys m) \<and> distinct (bt_keys m)" for m :: "('k::linorder \<times> 'v) list"
    unfolding bt_wf_def bt_keys_def by (simp add: strict_sorted_iff)
qed (simp_all add: bt_wf_def [of "[]"] bt_wf_insert map_of_bt_insert)

lemma bt_wf_Nil [simp]: "bt_wf []"
  by (rule bt.wf_empty)

lemma distinct_bt_keys: "bt_wf m \<Longrightarrow> distinct (map fst m)"
  using bt.keys_sorted [of m] by (simp add: bt_keys_def)

lemma length_bt_insert: "bt_wf m \<Longrightarrow> length (bt_insert k v m) = (if map_of m k = None then length m + 1 else length m)"
proof (induction m)
  case (Cons e m)
  have "map_of m k = None" if "k < fst e" using that Cons.prems by (auto simp: bt_wf_def map_of_eq_None_iff)
  with Cons show ?case by (cases e) (auto simp: bt_wf_def)
qed simp

text \<open>A failed lookup that the code unwraps is a panic; no caller reaches it.\<close>

definition bt_unwrap :: "('k \<times> nat) list \<Rightarrow> 'k \<Rightarrow> nat" where
  "bt_unwrap m k = (case map_of m k of Some v \<Rightarrow> v | None \<Rightarrow> Code.abort (STR ''unwrap on None'') (\<lambda>_. 0))"

lemma bt_unwrap_Some [simp]: "map_of m k = Some v \<Longrightarrow> bt_unwrap m k = v"
  by (simp add: bt_unwrap_def)

end
