(* ===== verification/Dag.thy ===== *)
theory Dag
  imports Btree Decision_Record
begin

text \<open>
  \<open>core/src/dag.rs\<close>: the causal graph of a record set. \<open>build_from\<close> indexes the records by content
  hash, links every record to its parents, sorts topologically by Kahn's algorithm and collects the
  heads. The maps of the code are those of \<open>Btree\<close>.

  The results: an accepted set is acyclic with every parent before its children, a rejected one with
  \<open>Cycle\<close> contains records that wait on each other, and the heads are exactly the records no other
  record names as a parent.
\<close>

datatype dag_error =
    RecordNotObject nat
  | MissingContentHash nat
  | BadContentHash nat
  | CausalNotArray nat
  | BadParentHash string string
  | MissingParent string string
  | Cycle nat

record dag =
  by_hash :: "(string \<times> nat) list"
  heads :: "string list"
  topo_order :: "string list"
  collapsed_duplicates :: nat
  external_frontier :: "string list"
  earlier_refs :: "string list"

definition content_hash_of :: "canon_value \<Rightarrow> nat \<Rightarrow> (string, dag_error) result" where
  "content_hash_of rec i =
     bind_result (ok_or (get rec ''content_hash'') (MissingContentHash i)) (\<lambda>v.
     bind_result (ok_or (as_str v) (MissingContentHash i)) (\<lambda>ch.
     if parse_sha256 ch = None then Err (BadContentHash i) else Ok ch))"

fun strs_of :: "canon_value list \<Rightarrow> nat \<Rightarrow> (string list, dag_error) result" where
  "strs_of [] i = Ok []"
| "strs_of (p # ps) i =
     bind_result (ok_or (as_str p) (CausalNotArray i)) (\<lambda>s. map_ok (\<lambda>out. s # out) (strs_of ps i))"

definition parents_of :: "canon_value \<Rightarrow> nat \<Rightarrow> (string list, dag_error) result" where
  "parents_of rec i =
     (case get rec ''causal_prev_hashes'' of
        None \<Rightarrow> Ok []
      | Some v \<Rightarrow> bind_result (ok_or (as_array v) (CausalNotArray i)) (\<lambda>arr. strs_of arr i))"

section \<open>Step 1: the index\<close>

fun index_records :: "canon_value list \<Rightarrow> nat \<Rightarrow> (string \<times> nat) list \<times> nat
    \<Rightarrow> ((string \<times> nat) list \<times> nat, dag_error) result" where
  "index_records [] i st = Ok st"
| "index_records (rec # recs) i (m, collapsed) =
     (if as_object rec = None then Err (RecordNotObject i)
      else bind_result (content_hash_of rec i) (\<lambda>ch.
        index_records recs (i + 1)
          (bt_insert ch i m, if map_of m ch \<noteq> None then collapsed + 1 else collapsed)))"

section \<open>Step 2: the edges\<close>

record edges =
  in_degree :: "(string \<times> nat) list"
  children :: "(string \<times> string list) list"
  referenced :: "(string \<times> bool) list"
  base_referenced :: "string list"
  earlier :: "string list"

definition add_edge :: "string \<Rightarrow> string \<Rightarrow> edges \<Rightarrow> edges" where
  "add_edge p ch e =
     e \<lparr> in_degree := bt_insert ch (bt_unwrap (in_degree e) ch + 1) (in_degree e),
         children := bt_insert p ((case map_of (children e) p of Some cs \<Rightarrow> cs | None \<Rightarrow> []) @ [ch]) (children e),
         referenced := bt_insert p True (referenced e) \<rparr>"

fun link_parents :: "string list option \<Rightarrow> (string \<times> nat) list \<Rightarrow> string \<Rightarrow> string list \<Rightarrow> string list \<Rightarrow> edges
    \<Rightarrow> (edges, dag_error) result" where
  "link_parents base index ch [] seen e = Ok e"
| "link_parents base index ch (p # ps) seen e =
     (if parse_sha256 p = None then Err (BadParentHash ch p)
      else if map_of index p = None then
        (case base of
           Some b \<Rightarrow>
             link_parents base index ch ps seen
               (if p \<in> set b then e \<lparr> base_referenced := bs_insert p (base_referenced e) \<rparr>
                else e \<lparr> earlier := bs_insert p (earlier e) \<rparr>)
         | None \<Rightarrow> Err (MissingParent ch p))
      else if p \<in> set seen then link_parents base index ch ps seen e
      else link_parents base index ch ps (bs_insert p seen) (add_edge p ch e))"

fun link_all :: "string list option \<Rightarrow> canon_value list \<Rightarrow> (string \<times> nat) list \<Rightarrow> (string \<times> nat) list \<Rightarrow> edges
    \<Rightarrow> (edges, dag_error) result" where
  "link_all base records index [] e = Ok e"
| "link_all base records index ((ch, i) # rest) e =
     bind_result (parents_of (records ! i) i) (\<lambda>parents.
     bind_result (link_parents base index ch parents [] e) (\<lambda>e.
     link_all base records index rest e))"

section \<open>Step 3: the topological sort\<close>

definition relax :: "string \<Rightarrow> (string \<times> nat) list \<times> string list \<Rightarrow> (string \<times> nat) list \<times> string list" where
  "relax c st =
     (case st of (indeg, newly) \<Rightarrow>
        let d = bt_unwrap indeg c - 1
        in (bt_insert c d indeg, if d = 0 then newly @ [c] else newly))"

text \<open>
  \<open>pending\<close> is the queue from \<open>qi\<close> on. Every iteration emits a record, so one unit of fuel per record
  and one for the last test are enough (\<open>kahn_total\<close>).
\<close>

primrec kahn :: "nat \<Rightarrow> (string \<times> string list) list \<Rightarrow> string list \<Rightarrow> (string \<times> nat) list \<Rightarrow> string list
    \<Rightarrow> string list option" where
  "kahn 0 cs pending indeg topo = None"
| "kahn (Suc fuel) cs pending indeg topo =
     (case pending of
        [] \<Rightarrow> Some topo
      | n # rest \<Rightarrow>
          (case map_of cs n of
             None \<Rightarrow> kahn fuel cs rest indeg (topo @ [n])
           | Some kids \<Rightarrow>
               (case fold relax kids (indeg, []) of
                  (indeg, newly) \<Rightarrow> kahn fuel cs (rest @ sort newly) indeg (topo @ [n]))))"

section \<open>The graph\<close>

definition build_from :: "canon_value list \<Rightarrow> string list option \<Rightarrow> (dag, dag_error) result option" where
  "build_from records base =
     (case index_records records 0 ([], 0) of
        Err e \<Rightarrow> Some (Err e)
      | Ok (index, collapsed) \<Rightarrow>
          (case link_all base records index index
                  \<lparr> in_degree = map (\<lambda>(k, _). (k, 0)) index, children = [],
                    referenced = map (\<lambda>(k, _). (k, False)) index, base_referenced = [], earlier = [] \<rparr> of
             Err e \<Rightarrow> Some (Err e)
           | Ok e \<Rightarrow>
               let queue = sort (map fst (filter (\<lambda>(_, d). d = 0) (in_degree e)))
               in case kahn (length index + 1) (children e) queue (in_degree e) [] of
                    None \<Rightarrow> None
                  | Some topo \<Rightarrow>
                      if length topo \<noteq> length index then Some (Err (Cycle (length index - length topo)))
                      else
                        let hs = map fst (filter (\<lambda>(_, r). \<not> r) (referenced e));
                            hs = hs @ (case base of
                                         Some b \<Rightarrow> filter (\<lambda>m. m \<notin> set (base_referenced e) \<and> map_of index m = None) b
                                       | None \<Rightarrow> [])
                        in Some (Ok \<lparr> by_hash = index, heads = remdups_adj (sort hs), topo_order = topo,
                                      collapsed_duplicates = collapsed,
                                      external_frontier = (case base of Some b \<Rightarrow> b | None \<Rightarrow> []),
                                      earlier_refs = earlier e \<rparr>)))"

definition build :: "canon_value list \<Rightarrow> (dag, dag_error) result option" where
  "build records = build_from records None"

section \<open>The index\<close>

declare index_records.simps(2) [simp del]

lemma index_records_Cons:
  "index_records (rec # recs) i (m, c) = Ok r \<longleftrightarrow>
     (\<exists>ms ch. rec = Object ms \<and> content_hash_of rec i = Ok ch
        \<and> index_records recs (i + 1) (bt_insert ch i m, if map_of m ch \<noteq> None then c + 1 else c) = Ok r)"
  by (cases rec) (auto simp: as_object_def index_records.simps(2))

lemma index_records_wf: "index_records recs i (m, c) = Ok (m', c') \<Longrightarrow> bt_wf m \<Longrightarrow> bt_wf m'"
proof (induction recs arbitrary: i m c)
  case (Cons rec recs)
  from Cons.prems(1) obtain ch c'' where "index_records recs (i + 1) (bt_insert ch i m, c'') = Ok (m', c')"
    unfolding index_records_Cons by blast
  then show ?case by (rule Cons.IH) (rule bt_wf_insert [OF Cons.prems(2)])
qed simp

lemma index_records_lookup:
  "index_records recs i (m, c) = Ok (m', c') \<Longrightarrow> bt_wf m \<Longrightarrow> map_of m' h = Some j \<Longrightarrow>
     map_of m h = Some j \<or> (i \<le> j \<and> j < i + length recs \<and> content_hash_of (recs ! (j - i)) j = Ok h)"
proof (induction recs arbitrary: i m c)
  case (Cons rec recs)
  from Cons.prems(1) obtain ch c'' where ch: "content_hash_of rec i = Ok ch"
    and rest: "index_records recs (i + 1) (bt_insert ch i m, c'') = Ok (m', c')"
    unfolding index_records_Cons by blast
  have "map_of (bt_insert ch i m) h = Some j \<or>
      (i + 1 \<le> j \<and> j < i + 1 + length recs \<and> content_hash_of (recs ! (j - (i + 1))) j = Ok h)"
    using Cons.IH [OF rest] Cons.prems(2,3) by (simp add: bt_wf_insert)
  moreover have "(rec # recs) ! (j - i) = recs ! (j - (i + 1))" if "i + 1 \<le> j"
    using that by (simp add: nth_Cons')
  ultimately show ?case
    using ch Cons.prems(2) by (auto simp: map_of_bt_insert split: if_splits)
qed simp

text \<open>The index covers every record.\<close>

lemma index_records_dom:
  "index_records recs i (m, c) = Ok (m', c') \<Longrightarrow> bt_wf m \<Longrightarrow>
     dom (map_of m') = dom (map_of m) \<union> {h. \<exists>k<length recs. get (recs ! k) ''content_hash'' = Some (Str h)}
     \<and> length m' + c' = length m + c + length recs"
proof (induction recs arbitrary: i m c)
  case (Cons rec recs)
  from Cons.prems(1) obtain ch c'' where ch: "content_hash_of rec i = Ok ch"
    and c'': "c'' = (if map_of m ch \<noteq> None then c + 1 else c)"
    and rest: "index_records recs (i + 1) (bt_insert ch i m, c'') = Ok (m', c')"
    unfolding index_records_Cons by blast
  have g: "get rec ''content_hash'' = Some (Str h) \<longleftrightarrow> h = ch" for h
    using ch by (auto simp: content_hash_of_def split: if_splits)
  have "{h. \<exists>k<length (rec # recs). get ((rec # recs) ! k) ''content_hash'' = Some (Str h)}
      = insert ch {h. \<exists>k<length recs. get (recs ! k) ''content_hash'' = Some (Str h)}"
    using g by (auto simp: Ex_less_Suc2)
  moreover have "dom (map_of (bt_insert ch i m)) = insert ch (dom (map_of m))"
    using Cons.prems(2) by (auto simp: map_of_bt_insert split: if_splits)
  moreover have "length (bt_insert ch i m) + c'' = length m + c + 1"
    unfolding c'' using length_bt_insert [OF Cons.prems(2), of ch i] by simp
  ultimately show ?case
    using Cons.IH [OF rest bt_wf_insert [OF Cons.prems(2)]] by simp
qed simp

section \<open>The edges\<close>

definition kids :: "edges \<Rightarrow> string \<Rightarrow> string list" where
  "kids e p = (case map_of (children e) p of Some cs \<Rightarrow> cs | None \<Rightarrow> [])"

definition edges_inv :: "string set \<Rightarrow> (string \<times> string) set \<Rightarrow> edges \<Rightarrow> bool" where
  "edges_inv N A e \<longleftrightarrow>
     bt_wf (in_degree e) \<and> bt_wf (children e) \<and> bt_wf (referenced e) \<and> finite A \<and> A \<subseteq> N \<times> N
     \<and> (\<forall>c. map_of (in_degree e) c = (if c \<in> N then Some (card {p. (p, c) \<in> A}) else None))
     \<and> (\<forall>p. set (kids e p) = {c. (p, c) \<in> A} \<and> distinct (kids e p))
     \<and> (\<forall>p. map_of (referenced e) p = (if p \<in> N then Some (\<exists>c. (p, c) \<in> A) else None))"

lemma edges_inv_add:
  assumes "edges_inv N A e" "p \<in> N" "ch \<in> N" "(p, ch) \<notin> A"
  shows "edges_inv N (insert (p, ch) A) (add_edge p ch e)"
proof -
  have fin: "finite {q. (q, c) \<in> A}" for c
    using assms(1) finite_subset [of "{q. (q, c) \<in> A}" "fst ` A"] by (force simp: edges_inv_def)
  have col: "{q. (q, c) \<in> insert (p, ch) A} = (if c = ch then insert p {q. (q, c) \<in> A} else {q. (q, c) \<in> A})" for c
    by auto
  have row: "{c. (q, c) \<in> insert (p, ch) A} = (if q = p then insert ch {c. (q, c) \<in> A} else {c. (q, c) \<in> A})" for q
    by auto
  have k: "kids (add_edge p ch e) q = (if q = p then kids e p @ [ch] else kids e q)" for q
    using assms(1) by (simp add: kids_def add_edge_def edges_inv_def map_of_bt_insert)
  have d: "bt_unwrap (in_degree e) ch = card {q. (q, ch) \<in> A}"
    using assms(1,3) by (simp add: edges_inv_def)
  have "\<forall>c. map_of (in_degree (add_edge p ch e)) c = (if c \<in> N then Some (card {q. (q, c) \<in> insert (p, ch) A}) else None)"
    using assms fin unfolding col by (auto simp: add_edge_def edges_inv_def map_of_bt_insert d)
  moreover have "\<forall>q. set (kids (add_edge p ch e) q) = {c. (q, c) \<in> insert (p, ch) A} \<and> distinct (kids (add_edge p ch e) q)"
    using assms unfolding row k by (auto simp: edges_inv_def)
  moreover have "\<forall>q. map_of (referenced (add_edge p ch e)) q = (if q \<in> N then Some (\<exists>c. (q, c) \<in> insert (p, ch) A) else None)"
    using assms by (auto simp: add_edge_def edges_inv_def map_of_bt_insert)
  ultimately show ?thesis
    using assms unfolding edges_inv_def by (auto simp: add_edge_def bt_wf_insert)
qed

lemma edges_inv_other [simp]:
  "edges_inv N A (e \<lparr> base_referenced := b \<rparr>) = edges_inv N A e" "edges_inv N A (e \<lparr> earlier := b \<rparr>) = edges_inv N A e"
  by (simp_all add: edges_inv_def kids_def)

text \<open>What a successful pass over one parent list did.\<close>

lemma link_parents_Ok:
  "link_parents base index ch ps seen e = Ok e' \<Longrightarrow> edges_inv N A e \<Longrightarrow> N = {h. map_of index h \<noteq> None} \<Longrightarrow> ch \<in> N \<Longrightarrow>
   set seen = {p. (p, ch) \<in> A} \<Longrightarrow>
   edges_inv N (A \<union> {(p, ch) |p. p \<in> set ps \<inter> N}) e'
   \<and> (base = None \<longrightarrow> set ps \<subseteq> N)
   \<and> set (base_referenced e') = set (base_referenced e) \<union> {p \<in> set ps. p \<notin> N \<and> (\<exists>b. base = Some b \<and> p \<in> set b)}
   \<and> set (earlier e') = set (earlier e) \<union> {p \<in> set ps. p \<notin> N \<and> (\<exists>b. base = Some b \<and> p \<notin> set b)}"
proof (induction base index ch ps seen e arbitrary: A rule: link_parents.induct)
  case (2 base index ch p ps seen e)
  have ok: "parse_sha256 p \<noteq> None" using "2.prems"(1) by (auto split: if_splits)
  show ?case
  proof (cases "map_of index p = None")
    case True
    then obtain b where b: "base = Some b" using "2.prems"(1) ok by (cases base) simp_all
    let ?e = "if p \<in> set b then e \<lparr> base_referenced := bs_insert p (base_referenced e) \<rparr> else e \<lparr> earlier := bs_insert p (earlier e) \<rparr>"
    have rec: "link_parents base index ch ps seen ?e = Ok e'" using "2.prems"(1) ok True b by simp
    have inv: "edges_inv N A ?e" using "2.prems"(2) by simp
    have "p \<notin> N" using True "2.prems"(3) by simp
    with "2.IH"(1) [OF ok True b rec inv "2.prems"(3-5)] b show ?thesis
      by (auto simp: set_insort_insert)
  next
    case False
    then have pN: "p \<in> N" using "2.prems"(3) by simp
    show ?thesis
    proof (cases "p \<in> set seen")
      case True
      then have rec: "link_parents base index ch ps seen e = Ok e'" using "2.prems"(1) ok False by simp
      have "A \<union> {(q, ch) |q. q \<in> set (p # ps) \<inter> N} = A \<union> {(q, ch) |q. q \<in> set ps \<inter> N}"
        using True "2.prems"(5) by auto
      with "2.IH"(2) [OF ok False True rec "2.prems"(2-5)] pN show ?thesis by auto
    next
      case False2: False
      then have rec: "link_parents base index ch ps (bs_insert p seen) (add_edge p ch e) = Ok e'"
        using "2.prems"(1) ok False by simp
      have inv: "edges_inv N (insert (p, ch) A) (add_edge p ch e)"
        using "2.prems" pN False2 by (intro edges_inv_add) auto
      have "set (bs_insert p seen) = {q. (q, ch) \<in> insert (p, ch) A}"
        using "2.prems"(5) by (auto simp: set_insort_insert)
      note IH = "2.IH"(3) [OF ok False False2 rec inv "2.prems"(3,4) this]
      have "insert (p, ch) A \<union> {(q, ch) |q. q \<in> set ps \<inter> N} = A \<union> {(q, ch) |q. q \<in> set (p # ps) \<inter> N}"
        using pN by auto
      with IH pN show ?thesis by (auto simp: add_edge_def)
    qed
  qed
qed auto

text \<open>The parents a successful pass has read, and the resolved edges among them.\<close>

definition names_parent :: "canon_value list \<Rightarrow> (string \<times> nat) list \<Rightarrow> string \<Rightarrow> string \<Rightarrow> bool" where
  "names_parent records entries p ch \<longleftrightarrow>
     (\<exists>i ps. (ch, i) \<in> set entries \<and> parents_of (records ! i) i = Ok ps \<and> p \<in> set ps)"

definition parent_edges :: "canon_value list \<Rightarrow> string set \<Rightarrow> (string \<times> nat) list \<Rightarrow> (string \<times> string) set" where
  "parent_edges records N entries = {(p, ch). p \<in> N \<and> names_parent records entries p ch}"

lemma names_parent_Cons:
  "parents_of (records ! i) i = Ok ps \<Longrightarrow>
   names_parent records ((ch, i) # rest) p c \<longleftrightarrow> (c = ch \<and> p \<in> set ps) \<or> names_parent records rest p c"
  by (auto simp: names_parent_def)

lemma link_all_Ok:
  assumes "N = {h. map_of index h \<noteq> None}"
  shows "link_all base records index entries e = Ok e' \<Longrightarrow> edges_inv N A e \<Longrightarrow> fst ` set entries \<subseteq> N \<Longrightarrow>
    distinct (map fst entries) \<Longrightarrow> \<forall>ch\<in>fst ` set entries. \<forall>p. (p, ch) \<notin> A \<Longrightarrow>
    edges_inv N (A \<union> parent_edges records N entries) e'
    \<and> (\<forall>(ch, i)\<in>set entries. \<exists>ps. parents_of (records ! i) i = Ok ps)
    \<and> (base = None \<longrightarrow> (\<forall>p ch. names_parent records entries p ch \<longrightarrow> p \<in> N))
    \<and> set (base_referenced e') = set (base_referenced e)
        \<union> {p. p \<notin> N \<and> (\<exists>b. base = Some b \<and> p \<in> set b) \<and> (\<exists>ch. names_parent records entries p ch)}
    \<and> set (earlier e') = set (earlier e)
        \<union> {p. p \<notin> N \<and> (\<exists>b. base = Some b \<and> p \<notin> set b) \<and> (\<exists>ch. names_parent records entries p ch)}"
proof (induction entries arbitrary: e A)
  case Nil
  then show ?case by (simp add: parent_edges_def names_parent_def)
next
  case (Cons entry rest)
  obtain ch i where entry: "entry = (ch, i)" by fastforce
  from Cons.prems(1) obtain ps e1 where ps: "parents_of (records ! i) i = Ok ps"
    and e1: "link_parents base index ch ps [] e = Ok e1" and rec: "link_all base records index rest e1 = Ok e'"
    by (auto simp: entry)
  have ch: "ch \<in> N" "\<forall>p. (p, ch) \<notin> A" using Cons.prems(3,5) entry by auto
  note names = names_parent_Cons [OF ps, of ch rest]
  let ?A = "A \<union> {(p, ch) |p. p \<in> set ps \<inter> N}"
  have l1: "edges_inv N ?A e1" "base = None \<longrightarrow> set ps \<subseteq> N"
    "set (base_referenced e1) = set (base_referenced e) \<union> {p \<in> set ps. p \<notin> N \<and> (\<exists>b. base = Some b \<and> p \<in> set b)}"
    "set (earlier e1) = set (earlier e) \<union> {p \<in> set ps. p \<notin> N \<and> (\<exists>b. base = Some b \<and> p \<notin> set b)}"
    using link_parents_Ok [OF e1 Cons.prems(2) assms ch(1)] ch(2) by simp_all
  have fresh: "\<forall>c\<in>fst ` set rest. \<forall>p. (p, c) \<notin> ?A" using Cons.prems(4,5) entry by (auto simp: rev_image_eqI)
  have "parent_edges records N (entry # rest) = {(p, ch) |p. p \<in> set ps \<inter> N} \<union> parent_edges records N rest"
    unfolding parent_edges_def entry names by auto
  moreover note IH = Cons.IH [OF rec l1(1) _ _ fresh]
  ultimately show ?case
    using IH Cons.prems(3,4) l1(2-4) ps unfolding entry names by (auto simp: Un_assoc)
qed

section \<open>The sort\<close>

lemma fold_relax:
  "distinct ks \<Longrightarrow> bt_wf indeg \<Longrightarrow> \<forall>c\<in>set ks. map_of indeg c = Some (d c) \<Longrightarrow>
   \<exists>indeg'. fold relax ks (indeg, newly) = (indeg', newly @ filter (\<lambda>c. d c - 1 = 0) ks) \<and> bt_wf indeg'
     \<and> (\<forall>c. map_of indeg' c = (if c \<in> set ks then Some (d c - 1) else map_of indeg c))"
proof (induction ks arbitrary: indeg newly)
  case (Cons k ks)
  let ?i = "bt_insert k (d k - 1) indeg" and ?n = "if d k - 1 = 0 then newly @ [k] else newly"
  have r: "relax k (indeg, newly) = (?i, ?n)" using Cons.prems by (simp add: relax_def)
  have "\<forall>c\<in>set ks. map_of ?i c = Some (d c)" "bt_wf ?i"
    using Cons.prems by (auto simp: map_of_bt_insert bt_wf_insert)
  with Cons.IH [of ?i ?n] Cons.prems obtain indeg' where
    "fold relax ks (?i, ?n) = (indeg', ?n @ filter (\<lambda>c. d c - 1 = 0) ks)" "bt_wf indeg'"
    "\<forall>c. map_of indeg' c = (if c \<in> set ks then Some (d c - 1) else map_of ?i c)" by auto
  with r Cons.prems show ?case by (auto simp: map_of_bt_insert)
qed simp

definition kahn_inv :: "string set \<Rightarrow> (string \<times> string) set \<Rightarrow> string list \<Rightarrow> (string \<times> nat) list \<Rightarrow> string list \<Rightarrow> bool" where
  "kahn_inv N A pending indeg topo \<longleftrightarrow>
     bt_wf indeg
     \<and> (\<forall>c. map_of indeg c = (if c \<in> N then Some (card {p. (p, c) \<in> A \<and> p \<notin> set topo}) else None))
     \<and> distinct (topo @ pending) \<and> set (topo @ pending) = {c \<in> N. \<forall>p. (p, c) \<in> A \<longrightarrow> p \<in> set topo}
     \<and> (\<forall>i<length topo. \<forall>p. (p, topo ! i) \<in> A \<longrightarrow> p \<in> set (take i topo))"

lemma kahn_inv_order:
  "kahn_inv N A (n # rest) indeg topo \<Longrightarrow>
   \<forall>i<length (topo @ [n]). \<forall>p. (p, (topo @ [n]) ! i) \<in> A \<longrightarrow> p \<in> set (take i (topo @ [n]))"
  by (auto simp: kahn_inv_def nth_append less_Suc_eq)

lemma kahn_inv_step:
  assumes inv: "kahn_inv N A (n # rest) indeg topo" and A: "finite A" "A \<subseteq> N \<times> N"
    and ks: "set ks = {c. (n, c) \<in> A}" "distinct ks" and fold: "fold relax ks (indeg, []) = (indeg', newly)"
  shows "kahn_inv N A (rest @ sort newly) indeg' (topo @ [n])"
proof -
  let ?d = "\<lambda>c. card {p. (p, c) \<in> A \<and> p \<notin> set topo}"
  have n: "n \<in> N" "n \<notin> set topo" "n \<notin> set rest" using inv by (auto simp: kahn_inv_def)
  have fin: "finite {p. (p, c) \<in> A \<and> P p}" for c P
    by (rule finite_subset [of _ "fst ` A"]) (use A(1) in force)+
  have d: "\<forall>c\<in>set ks. map_of indeg c = Some (?d c)" using inv ks A(2) by (auto simp: kahn_inv_def)
  obtain indeg'' where f: "newly = filter (\<lambda>c. ?d c - 1 = 0) ks" "bt_wf indeg'"
      "\<forall>c. map_of indeg' c = (if c \<in> set ks then Some (?d c - 1) else map_of indeg c)"
    using fold_relax [OF ks(2) _ d, of "[]"] inv fold by (auto simp: kahn_inv_def)
  have step: "{p. (p, c) \<in> A \<and> p \<notin> set (topo @ [n])} = {p. (p, c) \<in> A \<and> p \<notin> set topo} - {n}" for c by auto
  have card: "card {p. (p, c) \<in> A \<and> p \<notin> set (topo @ [n])} = (if (n, c) \<in> A then ?d c - 1 else ?d c)" for c
    unfolding step using n(2) fin [of c "\<lambda>p. p \<notin> set topo"] by (auto simp: card_Diff_singleton)
  have "\<forall>c. map_of indeg' c = (if c \<in> N then Some (card {p. (p, c) \<in> A \<and> p \<notin> set (topo @ [n])}) else None)"
    unfolding card using f(3) inv ks(1) A(2) by (auto simp: kahn_inv_def)
  moreover have ready: "c \<in> set newly \<longleftrightarrow> (n, c) \<in> A \<and> (\<forall>p. (p, c) \<in> A \<longrightarrow> p \<in> set (topo @ [n]))" for c
  proof -
    have "c \<in> set newly \<longleftrightarrow> (n, c) \<in> A \<and> card {p. (p, c) \<in> A \<and> p \<notin> set (topo @ [n])} = 0"
      unfolding f(1) card using ks(1) by auto
    then show ?thesis using fin [of c "\<lambda>p. p \<notin> set (topo @ [n])"] by (auto simp: card_eq_0_iff)
  qed
  moreover have "set newly \<inter> set (topo @ n # rest) = {}"
    using inv n(2) ready by (auto simp: kahn_inv_def)
  moreover have "set newly \<subseteq> N" using ready A(2) by auto
  ultimately show ?thesis
    using inv f(2) ks(2) kahn_inv_order [OF inv] unfolding kahn_inv_def
    by (auto simp: f(1) set_eq_iff)
qed

lemma kahn_inv_leaf:
  assumes "kahn_inv N A (n # rest) indeg topo" "finite A" "A \<subseteq> N \<times> N" "\<forall>c. (n, c) \<notin> A"
  shows "kahn_inv N A rest indeg (topo @ [n])"
  using kahn_inv_step [OF assms(1-3), of "[]" indeg "[]"] assms(4) by simp

lemma kahn_inv_length:
  assumes "kahn_inv N A pending indeg topo" "finite N"
  shows "length topo + length pending \<le> card N"
proof -
  have "set (topo @ pending) \<subseteq> N" "distinct (topo @ pending)" using assms(1) by (auto simp: kahn_inv_def)
  then show ?thesis
    using distinct_card [of "topo @ pending"] card_mono [OF assms(2), of "set (topo @ pending)"] by simp
qed

lemma kahn_total:
  assumes "edges_inv N A e" "finite N"
  shows "kahn_inv N A pending indeg topo \<Longrightarrow> card N < fuel + length topo \<Longrightarrow>
    \<exists>topo' indeg'. kahn fuel (children e) pending indeg topo = Some topo' \<and> kahn_inv N A [] indeg' topo'"
proof (induction fuel arbitrary: pending indeg topo)
  case 0
  then show ?case using kahn_inv_length [OF 0(1) assms(2)] by simp
next
  case (Suc fuel)
  have A: "finite A" "A \<subseteq> N \<times> N" using assms(1) by (auto simp: edges_inv_def)
  show ?case
  proof (cases pending)
    case Nil
    with Suc.prems show ?thesis by auto
  next
    case (Cons n rest)
    have kids: "set (kids e n) = {c. (n, c) \<in> A}" "distinct (kids e n)" using assms(1) by (auto simp: edges_inv_def)
    show ?thesis
    proof (cases "map_of (children e) n")
      case None
      with kids have "\<forall>c. (n, c) \<notin> A" by (auto simp: kids_def)
      then have "kahn_inv N A rest indeg (topo @ [n])" using Suc.prems(1) Cons A by (intro kahn_inv_leaf) simp_all
      then show ?thesis using Suc.IH Suc.prems(2) Cons None by simp
    next
      case (Some ks)
      obtain indeg' newly where f: "fold relax ks (indeg, []) = (indeg', newly)" by fastforce
      have "kahn_inv N A (rest @ sort newly) indeg' (topo @ [n])"
        using kahn_inv_step [OF _ A _ _ f] Suc.prems(1) kids Cons Some by (simp add: kids_def)
      then show ?thesis using Suc.IH Suc.prems(2) Cons Some f by simp
    qed
  qed
qed

section \<open>Whole graphs\<close>

definition initial_edges :: "(string \<times> nat) list \<Rightarrow> edges" where
  "initial_edges index =
     \<lparr> in_degree = map (\<lambda>(k, _). (k, 0)) index, children = [],
       referenced = map (\<lambda>(k, _). (k, False)) index, base_referenced = [], earlier = [] \<rparr>"

lemma map_of_const: "map_of (map (\<lambda>p. (fst p, v)) m) k = (if map_of m k = None then None else Some v)"
  by (induction m) auto

lemma initial_edges_inv:
  "bt_wf index \<Longrightarrow> edges_inv {h. map_of index h \<noteq> None} {} (initial_edges index)"
  by (simp add: edges_inv_def initial_edges_def kids_def map_of_const bt_wf_def comp_def case_prod_unfold)

text \<open>The three steps of a build that does not fail before the sort.\<close>

definition nodes :: "(string \<times> nat) list \<Rightarrow> string set" where
  "nodes index = {h. map_of index h \<noteq> None}"

lemma finite_nodes: "finite (nodes index)"
  using finite_dom_map_of [of index] by (simp add: nodes_def dom_def)

lemma card_nodes: "bt_wf index \<Longrightarrow> card (nodes index) = length index"
  using distinct_card [OF distinct_bt_keys, of index]
  by (simp add: nodes_def map_of_eq_None_iff)

lemma link_initial:
  assumes index: "bt_wf index" and l: "link_all base records index index (initial_edges index) = Ok e"
  shows "edges_inv (nodes index) (parent_edges records (nodes index) index) e"
    and "\<forall>(ch, i)\<in>set index. \<exists>ps. parents_of (records ! i) i = Ok ps"
    and "base = None \<Longrightarrow> names_parent records index p ch \<Longrightarrow> p \<in> nodes index"
    and "set (base_referenced e) = {p. p \<notin> nodes index \<and> (\<exists>b. base = Some b \<and> p \<in> set b) \<and> (\<exists>ch. names_parent records index p ch)}"
    and "set (earlier e) = {p. p \<notin> nodes index \<and> (\<exists>b. base = Some b \<and> p \<notin> set b) \<and> (\<exists>ch. names_parent records index p ch)}"
proof -
  have "fst ` set index \<subseteq> nodes index" by (auto simp: nodes_def map_of_eq_None_iff)
  then show "edges_inv (nodes index) (parent_edges records (nodes index) index) e"
    "\<forall>(ch, i)\<in>set index. \<exists>ps. parents_of (records ! i) i = Ok ps"
    "base = None \<Longrightarrow> names_parent records index p ch \<Longrightarrow> p \<in> nodes index"
    "set (base_referenced e) = {p. p \<notin> nodes index \<and> (\<exists>b. base = Some b \<and> p \<in> set b) \<and> (\<exists>ch. names_parent records index p ch)}"
    "set (earlier e) = {p. p \<notin> nodes index \<and> (\<exists>b. base = Some b \<and> p \<notin> set b) \<and> (\<exists>ch. names_parent records index p ch)}"
    using link_all_Ok [OF nodes_def l initial_edges_inv [OF index, folded nodes_def] _ distinct_bt_keys [OF index]]
    by (simp_all add: initial_edges_def) blast
qed

lemma roots_inv:
  assumes "edges_inv N A e"
  shows "kahn_inv N A (sort (map fst (filter (\<lambda>(_, d). d = 0) (in_degree e)))) (in_degree e) []"
proof -
  have fin: "finite {p. (p, c) \<in> A}" for c
    by (rule finite_subset [of _ "fst ` A"]) (use assms in \<open>force simp: edges_inv_def\<close>)+
  have wf: "bt_wf (in_degree e)" using assms by (simp add: edges_inv_def)
  have "distinct (map fst (filter (\<lambda>(_, d). d = 0) (in_degree e)))"
    using distinct_bt_keys [OF wf] by (rule distinct_map_filter)
  moreover have "c \<in> set (map fst (filter (\<lambda>(_, d). d = 0) (in_degree e))) \<longleftrightarrow> map_of (in_degree e) c = Some 0" for c
    using distinct_bt_keys [OF wf] by (force simp: map_of_eq_Some_iff)
  ultimately show ?thesis
    using assms fin by (auto simp: kahn_inv_def edges_inv_def card_eq_0_iff set_eq_iff)
qed

text \<open>Only the sort reports a cycle.\<close>

lemma index_no_cycle: "index_records recs i st \<noteq> Err (Cycle k)"
proof (induction recs i st rule: index_records.induct)
  case (2 rec recs i m c)
  have "content_hash_of rec i \<noteq> Err (Cycle k)"
    by (cases "get rec ''content_hash''"; cases "as_str (the (get rec ''content_hash''))"; simp add: content_hash_of_def as_str_def)
  with 2 show ?case by (cases "content_hash_of rec i") (auto simp: index_records.simps(2))
qed simp

lemma parents_no_cycle: "parents_of rec i \<noteq> Err (Cycle k)"
proof -
  have "strs_of ps i \<noteq> Err (Cycle k)" for ps
  proof (induction ps)
    case (Cons p ps)
    then show ?case by (cases "as_str p"; cases "strs_of ps i") (simp_all add: as_str_def)
  qed simp
  then show ?thesis
    by (cases "get rec ''causal_prev_hashes''"; cases "as_array (the (get rec ''causal_prev_hashes''))"; simp add: parents_of_def as_array_def)
qed

lemma link_parents_no_cycle: "link_parents base index ch ps seen e \<noteq> Err (Cycle k)"
  by (induction base index ch ps seen e rule: link_parents.induct) (auto split: option.splits)

lemma link_all_no_cycle: "link_all base records index entries e \<noteq> Err (Cycle k)"
proof (induction base records index entries e rule: link_all.induct)
  case (2 base records index ch i rest e)
  show ?case
  proof (cases "parents_of (records ! i) i")
    case (Err x)
    then show ?thesis using parents_no_cycle [of "records ! i" i k] by simp
  next
    case (Ok ps)
    then show ?thesis
      using 2 link_parents_no_cycle [of base index ch ps "[]" e k]
      by (cases "link_parents base index ch ps [] e") simp_all
  qed
qed simp

text \<open>The first two steps succeed, and the sort ends.\<close>

lemma build_from_cases:
  obtains (failed) x where "build_from records base = Some (Err x)" "\<And>k. x \<noteq> Cycle k"
  | (sorted) index collapsed e topo indeg' where
    "index_records records 0 ([], 0) = Ok (index, collapsed)" "bt_wf index"
    "link_all base records index index (initial_edges index) = Ok e"
    "kahn_inv (nodes index) (parent_edges records (nodes index) index) [] indeg' topo"
    "build_from records base =
       (if length topo \<noteq> length index then Some (Err (Cycle (length index - length topo)))
        else Some (Ok \<lparr> by_hash = index,
               heads = remdups_adj (sort (map fst (filter (\<lambda>(_, r). \<not> r) (referenced e))
                 @ (case base of Some b \<Rightarrow> filter (\<lambda>m. m \<notin> set (base_referenced e) \<and> map_of index m = None) b | None \<Rightarrow> []))),
               topo_order = topo, collapsed_duplicates = collapsed,
               external_frontier = (case base of Some b \<Rightarrow> b | None \<Rightarrow> []), earlier_refs = earlier e \<rparr>))"
proof (cases "index_records records 0 ([], 0)")
  case (Err x)
  then show ?thesis using failed [of x] index_no_cycle [of records 0 "([], 0)"] by (simp add: build_from_def)
next
  case (Ok st)
  then obtain index collapsed where i: "index_records records 0 ([], 0) = Ok (index, collapsed)" by (cases st) simp
  note wf = index_records_wf [OF i bt_wf_Nil]
  show ?thesis
  proof (cases "link_all base records index index (initial_edges index)")
    case (Err x)
    then show ?thesis
      using i failed [of x] link_all_no_cycle [of base records index index "initial_edges index"]
      by (simp add: build_from_def initial_edges_def)
  next
    case (Ok e)
    let ?N = "nodes index" and ?A = "parent_edges records (nodes index) index"
    note inv = link_initial(1) [OF wf Ok]
    obtain topo indeg' where k: "kahn (length index + 1) (children e)
        (sort (map fst (filter (\<lambda>(_, d). d = 0) (in_degree e)))) (in_degree e) [] = Some topo"
      and ki: "kahn_inv ?N ?A [] indeg' topo"
      using kahn_total [OF inv finite_nodes roots_inv [OF inv], of "length index + 1"] card_nodes [OF wf] by auto
    show ?thesis
      by (rule sorted [OF i wf Ok ki])
         (simp add: build_from_def i k [simplified Suc_eq_plus1 [symmetric]] Ok [unfolded initial_edges_def] Let_def del: kahn.simps)
  qed
qed

text \<open>The entry of a hash is the position of its last record.\<close>

lemma content_hash_of_get: "content_hash_of rec i = Ok h \<longleftrightarrow> get rec ''content_hash'' = Some (Str h) \<and> parse_sha256 h \<noteq> None"
  by (auto simp: content_hash_of_def split: if_splits)

lemma index_records_last:
  "index_records recs i (m, c) = Ok (m', c') \<Longrightarrow> bt_wf m \<Longrightarrow> k < length recs \<Longrightarrow>
   get (recs ! k) ''content_hash'' = Some (Str h) \<Longrightarrow> \<exists>j\<ge>i + k. map_of m' h = Some j"
proof (induction recs arbitrary: i m c k)
  case (Cons rec recs)
  from Cons.prems(1) obtain ch c'' where ch: "content_hash_of rec i = Ok ch"
    and rest: "index_records recs (i + 1) (bt_insert ch i m, c'') = Ok (m', c')"
    unfolding index_records_Cons by blast
  note wf = bt_wf_insert [OF Cons.prems(2), of ch i]
  show ?case
  proof (cases k)
    case (Suc k')
    then show ?thesis using Cons.IH [OF rest wf, of k'] Cons.prems(3,4) by auto
  next
    case 0
    then have h: "h = ch" using ch Cons.prems(4) by (simp add: content_hash_of_get)
    then have "h \<in> dom (map_of m')"
      using index_records_dom [OF rest wf] by (auto simp: map_of_bt_insert [OF Cons.prems(2)])
    then obtain j where j: "map_of m' h = Some j" by auto
    from index_records_lookup [OF rest wf j] have "i \<le> j"
      by (auto simp: map_of_bt_insert [OF Cons.prems(2)] h split: if_splits)
    with j 0 show ?thesis by auto
  qed
qed simp

lemma kahn_inv_done:
  assumes "kahn_inv N A [] indeg topo" "finite N"
  shows "distinct topo" "set topo \<subseteq> N" "length topo = card N \<Longrightarrow> set topo = N"
    "\<And>c. c \<in> N - set topo \<Longrightarrow> \<exists>p. (p, c) \<in> A \<and> p \<notin> set topo"
    "card (N - set topo) = card N - length topo"
    "\<And>i p. i < length topo \<Longrightarrow> (p, topo ! i) \<in> A \<Longrightarrow> p \<in> set (take i topo)"
proof -
  show d: "distinct topo" and s: "set topo \<subseteq> N" using assms(1) by (auto simp: kahn_inv_def)
  show "set topo = N" if "length topo = card N"
    using card_subset_eq [OF assms(2) s] distinct_card [OF d] that by simp
  show "card (N - set topo) = card N - length topo"
    using card_Diff_subset [OF _ s] distinct_card [OF d] by simp
  have eq: "set topo = {c \<in> N. \<forall>p. (p, c) \<in> A \<longrightarrow> p \<in> set topo}" using assms(1) by (simp add: kahn_inv_def)
  show "\<exists>p. (p, c) \<in> A \<and> p \<notin> set topo" if "c \<in> N - set topo" for c using eq that by blast
  show "p \<in> set (take i topo)" if "i < length topo" "(p, topo ! i) \<in> A" for i p
    using assms(1) that by (simp add: kahn_inv_def)
qed

lemma distinct_remdups_adj: "sorted xs \<Longrightarrow> distinct (remdups_adj xs)"
  by (induction xs rule: remdups_adj.induct) auto

text \<open>What an accepted build has computed.\<close>

lemma build_from_Ok:
  assumes "build_from records base = Some (Ok d)"
  shows build_from_Ok_index: "index_records records 0 ([], 0) = Ok (by_hash d, collapsed_duplicates d)"
    and build_from_Ok_wf: "bt_wf (by_hash d)"
    and build_from_Ok_links: "\<exists>e. link_all base records (by_hash d) (by_hash d) (initial_edges (by_hash d)) = Ok e
      \<and> heads d = remdups_adj (sort (map fst (filter (\<lambda>(_, r). \<not> r) (referenced e))
          @ (case base of Some b \<Rightarrow> filter (\<lambda>m. m \<notin> set (base_referenced e) \<and> map_of (by_hash d) m = None) b | None \<Rightarrow> [])))
      \<and> earlier_refs d = earlier e"
    and build_from_Ok_sorted: "\<exists>indeg'. kahn_inv (nodes (by_hash d)) (parent_edges records (nodes (by_hash d)) (by_hash d))
        [] indeg' (topo_order d)"
    and build_from_Ok_nodes: "set (topo_order d) = nodes (by_hash d)"
proof -
  have main: "index_records records 0 ([], 0) = Ok (by_hash d, collapsed_duplicates d) \<and> bt_wf (by_hash d)
      \<and> (\<exists>e. link_all base records (by_hash d) (by_hash d) (initial_edges (by_hash d)) = Ok e
        \<and> heads d = remdups_adj (sort (map fst (filter (\<lambda>(_, r). \<not> r) (referenced e))
            @ (case base of Some b \<Rightarrow> filter (\<lambda>m. m \<notin> set (base_referenced e) \<and> map_of (by_hash d) m = None) b | None \<Rightarrow> [])))
        \<and> earlier_refs d = earlier e)
      \<and> (\<exists>indeg'. kahn_inv (nodes (by_hash d)) (parent_edges records (nodes (by_hash d)) (by_hash d)) [] indeg' (topo_order d))
      \<and> length (topo_order d) = length (by_hash d)"
  proof (cases rule: build_from_cases [of records base])
    case (failed x)
    with assms show ?thesis by simp
  next
    case (sorted index collapsed e topo indeg')
    then show ?thesis using assms by (auto split: if_splits option.splits)
  qed
  from main show "index_records records 0 ([], 0) = Ok (by_hash d, collapsed_duplicates d)" "bt_wf (by_hash d)"
    "\<exists>e. link_all base records (by_hash d) (by_hash d) (initial_edges (by_hash d)) = Ok e
      \<and> heads d = remdups_adj (sort (map fst (filter (\<lambda>(_, r). \<not> r) (referenced e))
          @ (case base of Some b \<Rightarrow> filter (\<lambda>m. m \<notin> set (base_referenced e) \<and> map_of (by_hash d) m = None) b | None \<Rightarrow> [])))
      \<and> earlier_refs d = earlier e"
    "\<exists>indeg'. kahn_inv (nodes (by_hash d)) (parent_edges records (nodes (by_hash d)) (by_hash d)) [] indeg' (topo_order d)"
    by simp_all
  from main obtain indeg' where
    k: "kahn_inv (nodes (by_hash d)) (parent_edges records (nodes (by_hash d)) (by_hash d)) [] indeg' (topo_order d)" by blast
  show "set (topo_order d) = nodes (by_hash d)"
    using kahn_inv_done(3) [OF k finite_nodes] card_nodes [of "by_hash d"] main by simp
qed

lemma build_from_Cycle:
  assumes "build_from records base = Some (Err (Cycle k))"
  obtains index collapsed topo indeg' where
    "index_records records 0 ([], 0) = Ok (index, collapsed)" "bt_wf index"
    "kahn_inv (nodes index) (parent_edges records (nodes index) index) [] indeg' topo"
    "length topo \<noteq> length index" "k = length index - length topo"
proof (cases rule: build_from_cases [of records base])
  case (failed x)
  with assms show thesis by simp
next
  case (sorted index collapsed e topo indeg')
  show thesis by (rule that [of index collapsed indeg' topo]) (use sorted assms in \<open>auto split: if_splits\<close>)
qed

lemma nodes_records:
  assumes "index_records records 0 ([], 0) = Ok (index, collapsed)"
  shows "nodes index = {h. \<exists>r\<in>set records. get r ''content_hash'' = Some (Str h)}"
    and "length index + collapsed = length records"
proof -
  have "nodes index = dom (map_of index)" by (simp add: nodes_def dom_def)
  then show "nodes index = {h. \<exists>r\<in>set records. get r ''content_hash'' = Some (Str h)}"
    "length index + collapsed = length records"
    using index_records_dom [OF assms bt_wf_Nil] by (auto simp: set_conv_nth Bex_def dom_def)
qed

text \<open>The heads and the index, in terms of the records.\<close>

lemma heads_set:
  assumes "build_from records base = Some (Ok d)"
  shows "set (heads d) = {h. (h \<in> set (topo_order d) \<or> (\<exists>b. base = Some b \<and> h \<in> set b))
                          \<and> \<not> (\<exists>c. names_parent records (by_hash d) h c)}"
proof -
  obtain e where l: "link_all base records (by_hash d) (by_hash d) (initial_edges (by_hash d)) = Ok e"
    and heads: "heads d = remdups_adj (sort (map fst (filter (\<lambda>(_, r). \<not> r) (referenced e))
       @ (case base of Some b \<Rightarrow> filter (\<lambda>m. m \<notin> set (base_referenced e) \<and> map_of (by_hash d) m = None) b | None \<Rightarrow> [])))"
    using build_from_Ok_links [OF assms] by auto
  note L = link_initial [OF build_from_Ok_wf [OF assms] l] and N = build_from_Ok_nodes [OF assms]
  have ref: "bt_wf (referenced e)" using L(1) by (simp add: edges_inv_def)
  have "h \<in> set (map fst (filter (\<lambda>(_, r). \<not> r) (referenced e))) \<longleftrightarrow> map_of (referenced e) h = Some False" for h
    using distinct_bt_keys [OF ref] by (force simp: map_of_eq_Some_iff)
  moreover have "map_of (referenced e) h = Some False \<longleftrightarrow> h \<in> nodes (by_hash d) \<and> \<not> (\<exists>c. names_parent records (by_hash d) h c)" for h
    using L(1) by (auto simp: edges_inv_def parent_edges_def)
  ultimately show ?thesis
    unfolding heads using L(4) N by (cases base) (auto simp: nodes_def)
qed

lemma index_iff:
  assumes i: "index_records records 0 ([], 0) = Ok (index, collapsed)"
  shows "map_of index h = Some j \<longleftrightarrow>
     j < length records \<and> get (records ! j) ''content_hash'' = Some (Str h)
     \<and> (\<forall>k<length records. get (records ! k) ''content_hash'' = Some (Str h) \<longrightarrow> k \<le> j)" (is "_ = ?R")
proof -
  have fwd: "j < length records \<and> get (records ! j) ''content_hash'' = Some (Str h)" if "map_of index h = Some j" for h j
    using index_records_lookup [OF i bt_wf_Nil that] by (simp add: content_hash_of_get)
  have bwd: "\<exists>j\<ge>k. map_of index h = Some j" if "k < length records" "get (records ! k) ''content_hash'' = Some (Str h)" for h k
    using index_records_last [OF i bt_wf_Nil that] by simp
  show ?thesis
  proof
    assume "map_of index h = Some j"
    then show ?R using fwd [of h j] bwd [of _ h] by fastforce
  next
    assume r: ?R
    then obtain j' where "j \<le> j'" "map_of index h = Some j'" using bwd [of j h] by auto
    with r fwd [of h j'] show "map_of index h = Some j" by (simp add: le_antisym)
  qed
qed

lemmas index_lookup = index_iff [OF build_from_Ok_index]

section \<open>Properties\<close>

text \<open>Two small sets for the witnesses: a record and its child, given in both orders with the child
  repeated, and a record that is its own parent.\<close>

definition hash_of :: "char \<Rightarrow> string" where
  "hash_of c = ''sha256:'' @ replicate 64 c"

definition node :: "char \<Rightarrow> char list \<Rightarrow> canon_value" where
  "node c parents = Object [(''content_hash'', Str (hash_of c)),
     (''causal_prev_hashes'', Array (map (\<lambda>p. Str (hash_of p)) parents))]"

definition family :: "canon_value list" where
  "family = [node CHR ''1'' [CHR ''2''], node CHR ''2'' [], node CHR ''1'' [CHR ''2'']]"

definition family_dag :: dag where
  "family_dag = \<lparr> by_hash = [(hash_of CHR ''1'', 2), (hash_of CHR ''2'', 1)], heads = [hash_of CHR ''1''],
     topo_order = [hash_of CHR ''2'', hash_of CHR ''1''], collapsed_duplicates = 1,
     external_frontier = [], earlier_refs = [] \<rparr>"

lemma family_accepted: "build_from family None = Some (Ok family_dag)"
  by code_simp

lemma loop_rejected: "build_from [node CHR ''1'' [CHR ''1'']] None = Some (Err (Cycle 1))"
  by code_simp

text \<open>The build always returns: every record set is accepted or rejected with a reason, and the
  queue of Kahn's algorithm never outlives its fuel.\<close>

theorem build_from_returns: "\<exists>r. build_from records base = Some r"
  by (rule build_from_cases [of records base]) auto

text \<open>C4: In an accepted set every record occurs exactly once in the topological order, after all of its
  parents that are in the set; without a base frontier all its parents are in the set.\<close>

theorem build_from_topological:
  assumes "build_from records base = Some (Ok d)"
  shows "distinct (topo_order d)
    \<and> set (topo_order d) = {h. \<exists>r\<in>set records. get r ''content_hash'' = Some (Str h)}
    \<and> (\<forall>i<length (topo_order d). \<forall>p. names_parent records (by_hash d) p (topo_order d ! i) \<longrightarrow>
         p \<in> set (take i (topo_order d)) \<or> (base \<noteq> None \<and> p \<notin> set (topo_order d)))"
proof -
  obtain e indeg' where l: "link_all base records (by_hash d) (by_hash d) (initial_edges (by_hash d)) = Ok e"
    and k: "kahn_inv (nodes (by_hash d)) (parent_edges records (nodes (by_hash d)) (by_hash d)) [] indeg' (topo_order d)"
    using build_from_Ok_links [OF assms] build_from_Ok_sorted [OF assms] by auto
  note wf = build_from_Ok_wf [OF assms] and N = build_from_Ok_nodes [OF assms] and K = kahn_inv_done [OF k finite_nodes]
  have "p \<in> set (take i (topo_order d)) \<or> (base \<noteq> None \<and> p \<notin> set (topo_order d))"
    if "i < length (topo_order d)" "names_parent records (by_hash d) p (topo_order d ! i)" for i p
    using K(6) [OF that(1), of p] that(2) link_initial(3) [OF wf l _ that(2)] N
    by (cases "p \<in> nodes (by_hash d)") (auto simp: parent_edges_def)
  then show ?thesis using K(1) N nodes_records(1) [OF build_from_Ok_index [OF assms]] by simp
qed

theorem build_from_topological_witness:
  "set (topo_order family_dag) = {h. \<exists>r\<in>set family. get r ''content_hash'' = Some (Str h)} \<and> distinct (topo_order family_dag)"
  using build_from_topological [OF family_accepted] by blast

text \<open>C5: A set rejected for a cycle of \<open>k\<close> records really contains one: \<open>k\<close> records, at least one, each of
  which names one of them, possibly itself, as a parent.\<close>

theorem build_from_cycle:
  assumes "build_from records base = Some (Err (Cycle k))"
  shows "\<exists>index collapsed S. index_records records 0 ([], 0) = Ok (index, collapsed)
    \<and> S \<subseteq> {h. \<exists>r\<in>set records. get r ''content_hash'' = Some (Str h)} \<and> card S = k \<and> 0 < k
    \<and> (\<forall>c\<in>S. \<exists>p\<in>S. names_parent records index p c)"
proof -
  obtain index collapsed topo indeg' where i: "index_records records 0 ([], 0) = Ok (index, collapsed)" and wf: "bt_wf index"
    and k: "kahn_inv (nodes index) (parent_edges records (nodes index) index) [] indeg' topo"
    and len: "length topo \<noteq> length index" "k = length index - length topo"
    by (rule build_from_Cycle [OF assms])
  note K = kahn_inv_done [OF k finite_nodes]
  have "length topo \<le> card (nodes index)"
    using card_mono [OF finite_nodes K(2)] distinct_card [OF K(1)] by simp
  then have "card (nodes index - set topo) = k" "0 < k" using K(5) len card_nodes [OF wf] by auto
  moreover have "\<forall>c\<in>nodes index - set topo. \<exists>p\<in>nodes index - set topo. names_parent records index p c"
    using K(4) by (fastforce simp: parent_edges_def)
  ultimately show ?thesis using i nodes_records(1) [OF i] by (intro exI [of _ index] exI [of _ collapsed] exI [of _ "nodes index - set topo"]) auto
qed

theorem build_from_cycle_witness:
  "\<exists>index collapsed S. index_records [node CHR ''1'' [CHR ''1'']] 0 ([], 0) = Ok (index, collapsed) \<and> card S = 1
     \<and> S \<subseteq> {h. \<exists>r\<in>set [node CHR ''1'' [CHR ''1'']]. get r ''content_hash'' = Some (Str h)}"
  using build_from_cycle [OF loop_rejected] by blast

text \<open>C6: The heads of an accepted set are exactly the records that no record of the set names as a parent,
  with the members of the base frontier that are neither records of the set nor named by one; they are
  listed once each, in order.\<close>

theorem build_from_heads:
  assumes "build_from records base = Some (Ok d)"
  shows "sorted (heads d) \<and> distinct (heads d)
    \<and> set (heads d) = {h. (h \<in> set (topo_order d) \<or> (\<exists>b. base = Some b \<and> h \<in> set b))
                          \<and> \<not> (\<exists>c. names_parent records (by_hash d) h c)}"
proof -
  have "sorted (heads d)" "distinct (heads d)"
    using build_from_Ok_links [OF assms] by (auto simp: distinct_remdups_adj sorted_remdups_adj)
  then show ?thesis using heads_set [OF assms] by blast
qed

theorem build_from_heads_witness:
  "{h. h \<in> set (topo_order family_dag) \<and> \<not> (\<exists>c. names_parent family (by_hash family_dag) h c)} = {hash_of CHR ''1''}"
proof -
  have "heads family_dag = [hash_of CHR ''1'']" by (simp add: family_dag_def)
  then show ?thesis using build_from_heads [OF family_accepted] by simp
qed

text \<open>C7: Duplicates collapse: the index holds every content hash of the set once, at the position of its
  last record, and the remaining records are counted as collapsed duplicates.\<close>

theorem build_from_index:
  assumes "build_from records base = Some (Ok d)"
  shows "length (by_hash d) + collapsed_duplicates d = length records
    \<and> (\<forall>h j. map_of (by_hash d) h = Some j \<longleftrightarrow>
          j < length records \<and> get (records ! j) ''content_hash'' = Some (Str h)
          \<and> (\<forall>k<length records. get (records ! k) ''content_hash'' = Some (Str h) \<longrightarrow> k \<le> j))"
  using nodes_records(2) [OF build_from_Ok_index [OF assms]] index_lookup [OF assms] by blast

theorem build_from_index_witness:
  "length (by_hash family_dag) + collapsed_duplicates family_dag = length family"
  using build_from_index [OF family_accepted] by blast

end
