(* ===== verification/Object_Fields.thy ===== *)
theory Object_Fields
  imports Record_Guarantees
begin

text \<open>
  Fields of objects, shared by the components that read records and reports: the string-field reading
  idiom of the code, what replacing a field leaves alone, and how lookups commute with parsing and
  with the canonical form.
\<close>

text \<open>\<open>v.get(key).and_then(|v| v.as_str())\<close>.\<close>

definition field_str :: "canon_value \<Rightarrow> string \<Rightarrow> string option" where
  "field_str v key = Option.bind (get v key) as_str"

lemma field_str_Some [simp]: "field_str v key = Some s \<longleftrightarrow> get v key = Some (Str s)"
  by (cases "get v key") (simp_all add: field_str_def)

lemma with_field_kept:
  assumes "key \<in> set strip"
  shows "\<exists>ms'. with_field (Object ms) key v = Object ms' \<and> kept strip ms' = kept strip ms
     \<and> (\<forall>k. map_of ms' k = (if k = key then Some v else map_of ms k))"
proof (cases "update_first ms key v")
  case None
  then have "map_of ms key = None" by (simp add: update_first_None)
  then show ?thesis using assms by (auto simp: with_field_fresh map_add_def split: option.split)
next
  case (Some ms')
  have "filter (\<lambda>(k, _). k \<notin> set strip) xs = filter (\<lambda>(k, _). k \<notin> set strip) (filter (\<lambda>(k, _). k \<noteq> key) xs)" for xs :: "(string \<times> canon_value) list"
    using assms by (induction xs) auto
  then have "kept strip ms' = kept strip ms" using update_first_Some [OF Some] by metis
  then show ?thesis using Some update_first_Some [OF Some] by (auto simp: with_field_def as_object_def)
qed

lemma parsed_get:
  assumes "parsed uni v" "get v k = Some w"
  shows "parsed uni w"
proof -
  obtain ms where ms: "v = Object ms" using assms(2) get_Some_Object by blast
  then have "(k, w) \<in> set ms" using assms(2) by (simp add: get_Object map_of_SomeD)
  then show ?thesis using assms(1) unfolding ms parsed_Object by blast
qed

lemma map_of_sort_key: "distinct (map fst ms) \<Longrightarrow> map_of (sort_key f ms) = map_of ms"
proof -
  assume d: "distinct (map fst ms)"
  have "mset (map fst (sort_key f ms)) = mset (map fst ms)" by simp
  then have "distinct (map fst (sort_key f ms))" using d by (metis mset_eq_imp_distinct_iff)
  then show ?thesis using d by (simp add: map_of_inject_set)
qed

text \<open>Fields of values the parser delivers can be read off their canonical form.\<close>

lemma canonical_lookup:
  assumes "parsed uni (Object ms)"
  shows "map_option (canonical uni) (map_of ms k) =
    (case canonical uni (Object ms) of Object ms' \<Rightarrow> map_of ms' k | _ \<Rightarrow> None)"
proof -
  have p: "distinct (map fst ms)" "\<forall>(k, v)\<in>set ms. nfc uni k = k" using assms by (auto simp: parsed_Object)
  then have eq: "map (map_prod (nfc uni) (canonical uni)) ms = map (map_prod (\<lambda>k. k) (canonical uni)) ms" by auto
  have "distinct (map fst (map (map_prod (\<lambda>k. k) (canonical uni)) ms))" using p(1) by (simp add: comp_def)
  then have "map_of (sort_key (key_units \<circ> fst) (map (map_prod (\<lambda>k. k) (canonical uni)) ms)) k
      = map_of (map (map_prod (\<lambda>k. k) (canonical uni)) ms) k" by (simp only: map_of_sort_key)
  also have "\<dots> = map_option (canonical uni) (map_of ms k)"
    by (induction ms) auto
  finally show ?thesis unfolding canonical.simps eq by simp
qed

lemma parsed_kept: "parsed uni (Object ms) \<Longrightarrow> parsed uni (Object (kept strip ms))"
  by (auto simp: parsed_Object intro: distinct_map_filter)

lemma parsed_field: "parsed uni (Object ms) \<Longrightarrow> map_of ms k = Some v \<Longrightarrow> parsed uni v"
  by (auto simp: parsed_Object dest: map_of_SomeD)

lemma canonical_Str: "parsed uni v \<Longrightarrow> canonical uni v = Str s \<longleftrightarrow> v = Str s"
  by (cases v) auto

lemma canonical_CInt: "canonical uni v = CInt n \<longleftrightarrow> v = CInt n"
  by (cases v) auto

end
