(* ===== verification/Checkpoint.thy ===== *)
theory Checkpoint
  imports Dag Object_Fields
begin

text \<open>
  \<open>core/src/checkpoint.rs\<close>: frontier checkpoints. A checkpoint is hashed and signed like a record, with
  its anchor outside the hash (the locale \<open>sealed_body\<close> is interpreted for it), and \<open>validate_chain\<close>
  checks a set of them against the record graph.

  The results: sealed checkpoints verify, also after an anchor was attached; an accepted chain has no
  fork and no gap and its head summarises the whole graph; and the hash of a chain's head determines
  the hashes of its whole history.
\<close>

definition CHECKPOINT_DOMAIN :: string where
  "CHECKPOINT_DOMAIN = ''flightrecorder.checkpoint.v2''"

definition CHECKPOINT_CANON_VERSION :: string where
  "CHECKPOINT_CANON_VERSION = ''rcp-1''"

text \<open>
  Errors that carry the rendering of another error carry that error; \<open>CpBody\<close> is the rejection of a
  body with a repeated key.
\<close>

datatype checkpoint_error =
    CpHash record_error
  | CpBody string
  | CpDomainMismatch string
  | CpMissingField string
  | CpFieldType string
  | CpBadFrontierHash string
  | CpSignatureInvalid sig_error
  | CpFirstSeqNotZero int
  | CpFirstPrevNotNull
  | CpSeqGap int int
  | CpForkDetected int
  | CpPrevHashMismatch int string string
  | CpRecordCountDecreased int int int
  | CpFrontierMemberMissing int string
  | CpForkSharedPrev string
  | CpLatestFrontierMismatch int nat nat
  | CpRecordCountMismatch int int nat

definition cp_str_field :: "canon_value \<Rightarrow> string \<Rightarrow> (string, checkpoint_error) result" where
  "cp_str_field v k = bind_result (ok_or (get v k) (CpMissingField k)) (\<lambda>w. ok_or (as_str w) (CpFieldType k))"

definition cp_int_field :: "canon_value \<Rightarrow> string \<Rightarrow> (int, checkpoint_error) result" where
  "cp_int_field v k = bind_result (ok_or (get v k) (CpMissingField k)) (\<lambda>w. ok_or (as_int w) (CpFieldType k))"

definition checkpoint_preimage :: "('sk, 'vk) externals \<Rightarrow> canon_value \<Rightarrow> (bytes, preimage_fault) result" where
  "checkpoint_preimage X cp = body_preimage X cp [''anchor'', ''checkpoint_hash'', ''sig'']"

definition checkpoint_hash :: "('sk, 'vk) externals \<Rightarrow> canon_value \<Rightarrow> (string, preimage_fault) result" where
  "checkpoint_hash X cp = map_ok (sha256_prefixed (sha256 X)) (checkpoint_preimage X cp)"

definition compute_checkpoint_hash :: "('sk, 'vk) externals \<Rightarrow> canon_value \<Rightarrow> (string, record_error) result" where
  "compute_checkpoint_hash X cp = map_err into_record_error (checkpoint_hash X cp)"

definition checkpoint_hash_preimage :: "('sk, 'vk) externals \<Rightarrow> canon_value \<Rightarrow> (bytes, record_error) result" where
  "checkpoint_hash_preimage X cp = map_err into_record_error (checkpoint_preimage X cp)"

definition checkpoint_body :: "(string \<Rightarrow> string) \<Rightarrow> string \<Rightarrow> string \<Rightarrow> int \<Rightarrow> string option \<Rightarrow> string list \<Rightarrow> int
    \<Rightarrow> string \<Rightarrow> canon_value \<Rightarrow> (canon_value, checkpoint_error) result" where
  "checkpoint_body uni checkpoint_id project_id seq prev_checkpoint_hash frontier record_count created_ts key =
     (let fr = remdups_adj (sort frontier);
          prev = (case prev_checkpoint_hash of Some h \<Rightarrow> Str h | None \<Rightarrow> Null)
      in map_err CpBody (object uni
           [(''schema_version'', string_value uni ''2''),
            (''canon_version'', string_value uni CHECKPOINT_CANON_VERSION),
            (''domain'', string_value uni CHECKPOINT_DOMAIN),
            (''checkpoint_id'', string_value uni checkpoint_id),
            (''project_id'', string_value uni project_id),
            (''checkpoint_seq'', CInt seq),
            (''prev_checkpoint_hash'', prev),
            (''frontier'', Array (map Str fr)),
            (''record_count'', CInt record_count),
            (''created_ts'', string_value uni created_ts),
            (''key'', key)]))"

definition check_sealed_checkpoint_pins :: "canon_value \<Rightarrow> (unit, record_error) result" where
  "check_sealed_checkpoint_pins sealed =
     bind_result (record_str_field sealed ''domain'') (\<lambda>domain.
     if domain \<noteq> CHECKPOINT_DOMAIN then Err (RecDomainMismatch CHECKPOINT_DOMAIN domain)
     else bind_result (record_str_field sealed ''canon_version'') (\<lambda>cv.
     if cv \<noteq> CHECKPOINT_CANON_VERSION then Err (RecCanonVersionMismatch CHECKPOINT_CANON_VERSION cv)
     else Ok ()))"

text \<open>\<open>set_field\<close> is the same function as the \<open>with_field\<close> of the records.\<close>

definition set_field :: "canon_value \<Rightarrow> string \<Rightarrow> canon_value \<Rightarrow> canon_value" where
  "set_field obj key v =
     (case as_object obj of
        None \<Rightarrow> Code.abort (STR ''set_field on non-object'') (\<lambda>_. obj)
      | Some members \<Rightarrow>
          (case update_first members key v of
             Some members' \<Rightarrow> Object members'
           | None \<Rightarrow> Object (members @ [(key, v)])))"

definition seal_checkpoint_unchecked :: "('sk, 'vk) externals \<Rightarrow> canon_value \<Rightarrow> 'sk \<Rightarrow> (canon_value, record_error) result" where
  "seal_checkpoint_unchecked X cp_body sk =
     bind_result (compute_checkpoint_hash X cp_body) (\<lambda>ch.
     let sig = sign X CHECKPOINT_SIG_TAG ch sk;
         stripped = without_keys cp_body [''checkpoint_hash'', ''sig''];
         with_hash = set_field stripped ''checkpoint_hash'' (Str ch)
     in Ok (set_field with_hash ''sig'' (Str sig)))"

definition seal_checkpoint_with_mode :: "('sk, 'vk) externals \<Rightarrow> 64 word \<Rightarrow> canon_value \<Rightarrow> 'sk \<Rightarrow> seal_shape_mode
    \<Rightarrow> 64 word \<times> (canon_value, record_error) result" where
  "seal_checkpoint_with_mode X violations cp_body sk mode =
     (case seal_checkpoint_unchecked X cp_body sk of
        Err e \<Rightarrow> (violations, Err e)
      | Ok sealed \<Rightarrow>
          (case check_sealed_checkpoint_pins sealed of
             Ok _ \<Rightarrow> (violations, Ok sealed)
           | Err e \<Rightarrow>
               (case mode of
                  Enforce \<Rightarrow> (violations, Err e)
                | Shadow \<Rightarrow> (violations + 1, Ok sealed))))"

definition seal_checkpoint :: "('sk, 'vk) externals \<Rightarrow> 64 word \<Rightarrow> canon_value \<Rightarrow> 'sk
    \<Rightarrow> 64 word \<times> (canon_value, record_error) result" where
  "seal_checkpoint X violations cp_body sk = seal_checkpoint_with_mode X violations cp_body sk Enforce"

definition attach_anchor :: "canon_value \<Rightarrow> canon_value \<Rightarrow> canon_value" where
  "attach_anchor cp anchor = set_field cp ''anchor'' anchor"

definition verify_checkpoint_sealed :: "('sk, 'vk) externals \<Rightarrow> canon_value \<Rightarrow> 'vk \<Rightarrow> (unit, checkpoint_error) result" where
  "verify_checkpoint_sealed X cp vk =
     bind_result (cp_str_field cp ''domain'') (\<lambda>domain.
     if domain \<noteq> CHECKPOINT_DOMAIN then Err (CpDomainMismatch domain)
     else bind_result (cp_str_field cp ''canon_version'') (\<lambda>cv.
     if cv \<noteq> CHECKPOINT_CANON_VERSION then Err (CpHash (RecCanonVersionMismatch CHECKPOINT_CANON_VERSION cv))
     else bind_result (cp_str_field cp ''checkpoint_hash'') (\<lambda>stored.
     bind_result (map_err CpHash (compute_checkpoint_hash X cp)) (\<lambda>computed.
     if stored \<noteq> computed then Err (CpHash (RecContentHashMismatch stored computed))
     else bind_result (cp_str_field cp ''sig'') (\<lambda>sig.
     map_err CpSignatureInvalid (verify_sig X CHECKPOINT_SIG_TAG computed sig vk))))))"

section \<open>The chain\<close>

definition i64_MIN :: int where
  "i64_MIN = - (2 ^ 63)"

definition seq_key :: "canon_value \<Rightarrow> int" where
  "seq_key c = (case Option.bind (get c ''checkpoint_seq'') as_int of Some s \<Rightarrow> s | None \<Rightarrow> i64_MIN)"

definition check_first :: "canon_value \<Rightarrow> (unit, checkpoint_error) result" where
  "check_first first =
     bind_result (cp_int_field first ''checkpoint_seq'') (\<lambda>s.
     if s \<noteq> 0 then Err (CpFirstSeqNotZero s)
     else if (case get first ''prev_checkpoint_hash'' of Some v \<Rightarrow> is_null v | None \<Rightarrow> False) then Ok ()
     else Err CpFirstPrevNotNull)"

definition check_window :: "canon_value \<Rightarrow> canon_value \<Rightarrow> (unit, checkpoint_error) result" where
  "check_window a b =
     bind_result (cp_int_field a ''checkpoint_seq'') (\<lambda>sa.
     bind_result (cp_int_field b ''checkpoint_seq'') (\<lambda>sb.
     if sa = sb then
       bind_result (cp_str_field a ''checkpoint_hash'') (\<lambda>ha.
       bind_result (cp_str_field b ''checkpoint_hash'') (\<lambda>hb.
       if ha \<noteq> hb then Err (CpForkDetected sa) else Ok ()))
     else if sb \<noteq> sa + 1 then Err (CpSeqGap sa sb)
     else
       bind_result (ok_or (Option.bind (get b ''prev_checkpoint_hash'') as_str) (CpMissingField ''prev_checkpoint_hash'')) (\<lambda>prev_ref.
       bind_result (cp_str_field a ''checkpoint_hash'') (\<lambda>prev_hash.
       if prev_ref \<noteq> prev_hash then Err (CpPrevHashMismatch sb prev_hash prev_ref)
       else
         bind_result (cp_int_field a ''record_count'') (\<lambda>ca.
         bind_result (cp_int_field b ''record_count'') (\<lambda>cb.
         if cb < ca then Err (CpRecordCountDecreased sb ca cb) else Ok ()))))))"

fun check_windows :: "canon_value list \<Rightarrow> (unit, checkpoint_error) result" where
  "check_windows (a # b # rest) = bind_result (check_window a b) (\<lambda>_. check_windows (b # rest))"
| "check_windows _ = Ok ()"

fun check_members :: "dag \<Rightarrow> int \<Rightarrow> canon_value list \<Rightarrow> (unit, checkpoint_error) result" where
  "check_members d seq [] = Ok ()"
| "check_members d seq (fh # fhs) =
     bind_result (ok_or (as_str fh) (CpFieldType ''frontier'')) (\<lambda>h.
     if parse_sha256 h = None then Err (CpBadFrontierHash h)
     else if map_of (by_hash d) h = None then Err (CpFrontierMemberMissing seq h)
     else check_members d seq fhs)"

fun check_frontiers :: "dag \<Rightarrow> canon_value list \<Rightarrow> (unit, checkpoint_error) result" where
  "check_frontiers d [] = Ok ()"
| "check_frontiers d (cp # cps) =
     bind_result (cp_int_field cp ''checkpoint_seq'') (\<lambda>seq.
     bind_result (ok_or (get cp ''frontier'') (CpMissingField ''frontier'')) (\<lambda>v.
     bind_result (ok_or (as_array v) (CpFieldType ''frontier'')) (\<lambda>frontier.
     bind_result (check_members d seq frontier) (\<lambda>_. check_frontiers d cps))))"

fun check_prevs :: "canon_value list \<Rightarrow> (string \<times> string) list \<Rightarrow> (unit, checkpoint_error) result" where
  "check_prevs [] by_prev = Ok ()"
| "check_prevs (cp # cps) by_prev =
     (case Option.bind (get cp ''prev_checkpoint_hash'') as_str of
        None \<Rightarrow> check_prevs cps by_prev
      | Some prev \<Rightarrow>
          bind_result (cp_str_field cp ''checkpoint_hash'') (\<lambda>this.
          if map_of by_prev prev \<notin> {None, Some this} then Err (CpForkSharedPrev prev)
          else check_prevs cps (bt_insert prev this by_prev)))"

definition check_latest :: "dag \<Rightarrow> canon_value \<Rightarrow> (unit, checkpoint_error) result" where
  "check_latest d latest =
     bind_result (cp_int_field latest ''checkpoint_seq'') (\<lambda>seq.
     bind_result (ok_or (Option.bind (get latest ''frontier'') as_array) (CpFieldType ''frontier'')) (\<lambda>arr.
     let frontier = List.map_filter as_str arr
     in if set frontier \<noteq> set (heads d)
        then Err (CpLatestFrontierMismatch seq (length (remdups frontier)) (length (remdups (heads d))))
        else bind_result (cp_int_field latest ''record_count'') (\<lambda>stated.
        if stated < 0 \<or> nat stated \<noteq> length (by_hash d)
        then Err (CpRecordCountMismatch seq stated (length (by_hash d))) else Ok ())))"

definition validate_chain :: "canon_value list \<Rightarrow> dag \<Rightarrow> (canon_value list, checkpoint_error) result" where
  "validate_chain checkpoints d =
     (let ordered = sort_key seq_key checkpoints
      in bind_result (if ordered = [] then Ok () else check_first (hd ordered)) (\<lambda>_.
         bind_result (check_windows ordered) (\<lambda>_.
         bind_result (check_frontiers d ordered) (\<lambda>_.
         bind_result (check_prevs ordered []) (\<lambda>_.
         bind_result (if ordered = [] then Ok () else check_latest d (last ordered)) (\<lambda>_.
         Ok ordered))))))"

section \<open>Sealed checkpoints\<close>

lemma cp_field_Ok [field_simps]:
  "cp_str_field v k = Ok s \<longleftrightarrow> get v k = Some (Str s)" "cp_int_field v k = Ok n \<longleftrightarrow> get v k = Some (CInt n)"
  by (auto simp: cp_str_field_def cp_int_field_def)

lemma set_field_with_field:
  "set_field (Object ms) k v = with_field (Object ms) k v"
  "set_field (with_field (Object ms) k v) k' v' = with_field (with_field (Object ms) k v) k' v'"
  by (auto simp: set_field_def with_field_def as_object_def split: option.split)

interpretation checkpoint: sealed_body "''checkpoint_hash''" "[''anchor'', ''checkpoint_hash'', ''sig'']"
  by unfold_locales simp_all

lemma compute_checkpoint_hash_Ok:
  "compute_checkpoint_hash X cp = Ok h \<longleftrightarrow> (\<exists>p. checkpoint_preimage X cp = Ok p \<and> h = sha256_prefixed (sha256 X) p)"
  by (auto simp: compute_checkpoint_hash_def checkpoint_hash_def)

lemma verify_checkpoint_sealed_Ok:
  "verify_checkpoint_sealed X cp vk = Ok () \<longleftrightarrow>
     get cp ''domain'' = Some (Str CHECKPOINT_DOMAIN) \<and> get cp ''canon_version'' = Some (Str CHECKPOINT_CANON_VERSION)
     \<and> (\<exists>h s. get cp ''checkpoint_hash'' = Some (Str h) \<and> compute_checkpoint_hash X cp = Ok h
          \<and> get cp ''sig'' = Some (Str s) \<and> verify_sig X CHECKPOINT_SIG_TAG h s vk = Ok ())"
  by (auto simp: verify_checkpoint_sealed_def cp_field_Ok split: if_splits)

lemma check_pins_Ok:
  "check_sealed_checkpoint_pins cp = Ok () \<longleftrightarrow>
     get cp ''domain'' = Some (Str CHECKPOINT_DOMAIN) \<and> get cp ''canon_version'' = Some (Str CHECKPOINT_CANON_VERSION)"
  by (auto simp: check_sealed_checkpoint_pins_def record_str_field_Ok split: if_splits)

lemma seal_checkpoint_unchecked_Ok:
  assumes "ed25519_ok X" "seal_checkpoint_unchecked X b sk = Ok cp"
  shows "check_sealed_checkpoint_pins cp = Ok () \<longleftrightarrow> verify_checkpoint_sealed X cp (ed_verifying_key X sk) = Ok ()"
proof -
  obtain h where h: "compute_checkpoint_hash X b = Ok h"
    and cp: "cp = set_field (set_field (without_keys b [''checkpoint_hash'', ''sig'']) ''checkpoint_hash'' (Str h))
       ''sig'' (Str (sign X CHECKPOINT_SIG_TAG h sk))"
    using assms(2) by (auto simp: seal_checkpoint_unchecked_def Let_def)
  then obtain ms where b: "b = Object ms"
    by (auto simp: compute_checkpoint_hash_Ok checkpoint_preimage_def body_preimage_Ok)
  let ?s = "sign X CHECKPOINT_SIG_TAG h sk"
  note fields = checkpoint.seal_fields [where dropped = "[''checkpoint_hash'', ''sig'']" and ms = ms and h = h and s = ?s, simplified]
  have w: "cp = with_field (with_field (without_keys (Object ms) [''checkpoint_hash'', ''sig'']) ''checkpoint_hash'' (Str h)) ''sig'' (Str ?s)"
    unfolding cp b without_keys_def canon_value.case set_field_with_field ..
  have "compute_checkpoint_hash X cp = Ok h"
    using h unfolding compute_checkpoint_hash_Ok checkpoint_preimage_def w fields(2) b .
  then show ?thesis
    using fields(3,4) verify_sig_sign [OF assms(1) sig_tags_fit(2), of h sk]
    unfolding check_pins_Ok verify_checkpoint_sealed_Ok w by auto
qed

lemma verify_attach_anchor:
  assumes "verify_checkpoint_sealed X cp vk = Ok ()"
  shows "verify_checkpoint_sealed X (attach_anchor cp a) vk = Ok ()"
proof -
  obtain ms where cp: "cp = Object ms" using assms get_Some_Object unfolding verify_checkpoint_sealed_Ok by blast
  obtain ms' where m: "attach_anchor (Object ms) a = Object ms'" "kept [''anchor'', ''checkpoint_hash'', ''sig''] ms' = kept [''anchor'', ''checkpoint_hash'', ''sig''] ms"
    "\<forall>k. k \<noteq> ''anchor'' \<longrightarrow> map_of ms' k = map_of ms k"
    using with_field_kept [of "''anchor''" "[''anchor'', ''checkpoint_hash'', ''sig'']" ms a]
    unfolding attach_anchor_def set_field_with_field by auto
  have "compute_checkpoint_hash X (Object ms') = compute_checkpoint_hash X (Object ms)"
    unfolding compute_checkpoint_hash_def checkpoint_hash_def checkpoint_preimage_def checkpoint.body_preimage_cong [OF m(2)] ..
  then show ?thesis using assms m(3) unfolding verify_checkpoint_sealed_Ok cp m(1) get_Object by simp
qed

text \<open>A checkpoint that \<open>seal_checkpoint\<close> returns verifies under the sealing key, and still does after any
  anchor block has been attached to it, once or more.\<close>

theorem seal_checkpoint_verifies:
  assumes "ed25519_ok X" "seal_checkpoint X n b sk = (m, Ok cp)"
  shows "verify_checkpoint_sealed X cp (ed_verifying_key X sk) = Ok ()
    \<and> verify_checkpoint_sealed X (fold (\<lambda>a c. attach_anchor c a) anchors cp) (ed_verifying_key X sk) = Ok () \<and> m = n"
proof -
  have s: "seal_checkpoint_unchecked X b sk = Ok cp" "check_sealed_checkpoint_pins cp = Ok ()" "m = n"
    using assms(2) by (auto simp: seal_checkpoint_def seal_checkpoint_with_mode_def split: result.splits)
  have "verify_checkpoint_sealed X (fold (\<lambda>a c. attach_anchor c a) anchors cp') vk = Ok ()"
    if "verify_checkpoint_sealed X cp' vk = Ok ()" for cp' vk
    using that by (induction anchors arbitrary: cp') (simp_all add: verify_attach_anchor)
  then show ?thesis using s seal_checkpoint_unchecked_Ok [OF assms(1) s(1)] by simp
qed

section \<open>Chains\<close>

lemma seq_key_CInt: "get c ''checkpoint_seq'' = Some (CInt s) \<Longrightarrow> seq_key c = s"
  by (simp add: seq_key_def as_int_def)

lemma bind_get_Some [simp]: "Option.bind (get v k) as_str = Some s \<longleftrightarrow> get v k = Some (Str s)"
  "Option.bind (get v k) as_array = Some vs \<longleftrightarrow> get v k = Some (Array vs)"
  by (cases "get v k"; simp)+

lemma check_window_Ok:
  "check_window a b = Ok () \<longleftrightarrow>
     (\<exists>sa sb. get a ''checkpoint_seq'' = Some (CInt sa) \<and> get b ''checkpoint_seq'' = Some (CInt sb)
        \<and> (sb = sa \<and> (\<exists>h. get a ''checkpoint_hash'' = Some (Str h) \<and> get b ''checkpoint_hash'' = Some (Str h))
           \<or> sb = sa + 1 \<and> (\<exists>h. get b ''prev_checkpoint_hash'' = Some (Str h) \<and> get a ''checkpoint_hash'' = Some (Str h))
             \<and> (\<exists>ca cb. get a ''record_count'' = Some (CInt ca) \<and> get b ''record_count'' = Some (CInt cb) \<and> ca \<le> cb)))"
  (is "?L \<longleftrightarrow> ?R")
proof
  assume ?L
  then show ?R by (auto simp: check_window_def cp_field_Ok not_less split: if_splits)
next
  assume ?R
  then show ?L
    by (elim exE conjE disjE) (simp_all add: check_window_def cp_str_field_def cp_int_field_def as_str_def as_int_def)
qed

lemma check_windows_Ok: "check_windows cs = Ok () \<longleftrightarrow> successively (\<lambda>a b. check_window a b = Ok ()) cs"
  by (induction cs rule: check_windows.induct) auto

lemma check_members_Ok:
  "check_members d seq fr = Ok () \<longleftrightarrow>
     (\<forall>v\<in>set fr. \<exists>h. v = Str h \<and> parse_sha256 h \<noteq> None \<and> map_of (by_hash d) h \<noteq> None)"
  by (induction fr) (auto split: if_splits)

lemma check_frontiers_Ok:
  "check_frontiers d cs = Ok () \<longleftrightarrow>
     (\<forall>c\<in>set cs. \<exists>s fr. get c ''checkpoint_seq'' = Some (CInt s) \<and> get c ''frontier'' = Some (Array fr)
        \<and> check_members d s fr = Ok ())"
  by (induction d cs rule: check_frontiers.induct) (auto simp: cp_field_Ok)

lemma check_latest_Ok:
  "check_latest d c = Ok () \<longleftrightarrow>
     (\<exists>s fr. get c ''checkpoint_seq'' = Some (CInt s) \<and> get c ''frontier'' = Some (Array fr)
        \<and> set (List.map_filter as_str fr) = set (heads d)
        \<and> get c ''record_count'' = Some (CInt (int (length (by_hash d)))))"
  (is "?L \<longleftrightarrow> ?R")
proof
  assume ?L
  then show ?R by (auto simp: check_latest_def cp_field_Ok Let_def split: if_splits)
next
  assume ?R
  then show ?L
    by (elim exE conjE) (simp add: check_latest_def cp_int_field_def as_array_def as_int_def Let_def)
qed

lemma validate_chain_Ok:
  "validate_chain cs d = Ok os \<longleftrightarrow>
     os = sort_key seq_key cs \<and> (os \<noteq> [] \<longrightarrow> check_first (hd os) = Ok () \<and> check_latest d (last os) = Ok ())
     \<and> check_windows os = Ok () \<and> check_frontiers d os = Ok () \<and> check_prevs os [] = Ok ()"
  by (auto simp: validate_chain_def Let_def)

lemma check_first_Ok:
  "check_first c = Ok () \<longleftrightarrow> get c ''checkpoint_seq'' = Some (CInt 0) \<and> get c ''prev_checkpoint_hash'' = Some Null"
  by (auto simp: check_first_def cp_field_Ok is_null_def split: if_splits option.splits canon_value.splits)

lemma sorted_last: "sorted (map f cs) \<Longrightarrow> c \<in> set cs \<Longrightarrow> f c \<le> f (last cs)"
  by (induction cs) auto

lemma set_strs: "set (List.map_filter as_str vs) = {h. Str h \<in> set vs}"
proof (induction vs)
  case (Cons v vs)
  then show ?case by (cases v) (auto simp: List.map_filter_simps as_str_def)
qed (simp add: List.map_filter_simps)

text \<open>What the pairwise checks give along a sorted list.\<close>

lemma windows_seq: "check_window a b = Ok () \<Longrightarrow> seq_key b = seq_key a \<or> seq_key b = seq_key a + 1"
  by (auto simp: check_window_Ok seq_key_CInt)

lemma windows_same_seq:
  "check_windows (a # cs) = Ok () \<Longrightarrow> sorted (map seq_key (a # cs)) \<Longrightarrow> c \<in> set cs \<Longrightarrow> seq_key c = seq_key a \<Longrightarrow>
   get c ''checkpoint_hash'' = get a ''checkpoint_hash''"
proof (induction cs arbitrary: a)
  case (Cons b cs)
  then have w: "check_window a b = Ok ()" "check_windows (b # cs) = Ok ()" by auto
  have s: "seq_key b = seq_key a" using Cons.prems(2-4) by (auto intro: antisym)
  then have "get b ''checkpoint_hash'' = get a ''checkpoint_hash''"
    using w(1) by (auto simp: check_window_Ok seq_key_CInt)
  then show ?case using Cons.IH [OF w(2)] Cons.prems s by auto
qed simp

lemma windows_no_fork:
  "check_windows cs = Ok () \<Longrightarrow> sorted (map seq_key cs) \<Longrightarrow> c \<in> set cs \<Longrightarrow> c' \<in> set cs \<Longrightarrow> seq_key c = seq_key c' \<Longrightarrow>
   get c ''checkpoint_hash'' = get c' ''checkpoint_hash''"
proof (induction cs)
  case (Cons a cs)
  have "check_windows cs = Ok ()" using Cons.prems(1) by (cases cs) auto
  then show ?case
    using Cons windows_same_seq [OF Cons.prems(1,2), of c] windows_same_seq [OF Cons.prems(1,2), of c'] by auto
qed simp

text \<open>No two links leave one checkpoint hash.\<close>

definition prev_link :: "canon_value \<Rightarrow> string \<Rightarrow> bool" where
  "prev_link c p \<longleftrightarrow> get c ''prev_checkpoint_hash'' = Some (Str p)"

definition hash_is :: "canon_value \<Rightarrow> string \<Rightarrow> bool" where
  "hash_is c h \<longleftrightarrow> get c ''checkpoint_hash'' = Some (Str h)"

lemma hash_is_unique: "hash_is c h \<Longrightarrow> hash_is c h' \<Longrightarrow> h = h'"
  by (simp add: hash_is_def)

lemma prev_link_unique: "prev_link c p \<Longrightarrow> prev_link c p' \<Longrightarrow> p = p'"
  by (simp add: prev_link_def)

lemma check_prevs_Cons:
  "check_prevs (c # cs) m = Ok () \<longleftrightarrow>
     (if \<exists>p. prev_link c p
      then \<exists>p h. prev_link c p \<and> hash_is c h \<and> map_of m p \<in> {None, Some h} \<and> check_prevs cs (bt_insert p h m) = Ok ()
      else check_prevs cs m = Ok ())"
proof (cases "Option.bind (get c ''prev_checkpoint_hash'') as_str")
  case None
  then have "\<not> prev_link c p" for p unfolding prev_link_def bind_get_Some(1) [symmetric] by simp
  then show ?thesis using None by simp
next
  case (Some p)
  then have "prev_link c = (\<lambda>q. q = p)" unfolding fun_eq_iff prev_link_def bind_get_Some(1) [symmetric] by auto
  moreover have "(if q then Err e else r) = Ok () \<longleftrightarrow> \<not> q \<and> r = Ok ()" for q and e :: checkpoint_error and r by simp
  ultimately show ?thesis
    unfolding check_prevs.simps Some option.case bind_result_eq_Ok cp_field_Ok hash_is_def by simp
qed

lemma check_prevs_functional:
  "check_prevs cs m = Ok () \<Longrightarrow> bt_wf m \<Longrightarrow> c \<in> set cs \<Longrightarrow> prev_link c p \<Longrightarrow>
   \<exists>h. hash_is c h \<and> map_of m p \<in> {None, Some h} \<and> (\<forall>c'\<in>set cs. prev_link c' p \<longrightarrow> hash_is c' h)"
proof (induction cs arbitrary: m c)
  case (Cons d cs)
  show ?case
  proof (cases "\<exists>q. prev_link d q")
    case False
    then have "check_prevs cs m = Ok ()" using Cons.prems(1) unfolding check_prevs_Cons by simp
    from Cons.IH [OF this Cons.prems(2) _ Cons.prems(4)] show ?thesis using False Cons.prems(3,4) by auto
  next
    case True
    then obtain q k where q: "prev_link d q" "hash_is d k" "map_of m q \<in> {None, Some k}" "check_prevs cs (bt_insert q k m) = Ok ()"
      using Cons.prems(1) unfolding check_prevs_Cons by auto
    note IH = Cons.IH [OF q(4) bt_wf_insert [OF Cons.prems(2)] _ , unfolded map_of_bt_insert [OF Cons.prems(2)]]
    show ?thesis
    proof (cases "q = p")
      case True
      have "hash_is c' k" if "c' \<in> set cs" "prev_link c' p" for c' using IH [OF that] True by auto
      then have "\<forall>c'\<in>set (d # cs). prev_link c' p \<longrightarrow> hash_is c' k" using q(2) by simp
      then show ?thesis using q(3) True Cons.prems(3,4) by blast
    next
      case False
      then have "\<not> prev_link d p" using q(1) prev_link_unique by blast
      then show ?thesis using IH [OF _ Cons.prems(4)] Cons.prems(3,4) False by auto
    qed
  qed
qed simp

lemma check_prevs_intro:
  assumes "\<And>c p. c \<in> set cs \<Longrightarrow> prev_link c p \<Longrightarrow> \<exists>h. hash_is c h \<and> map_of m p \<in> {None, Some h}"
    "\<And>c c' p h. c \<in> set cs \<Longrightarrow> c' \<in> set cs \<Longrightarrow> prev_link c p \<Longrightarrow> prev_link c' p \<Longrightarrow> hash_is c h \<Longrightarrow> hash_is c' h" "bt_wf m"
  shows "check_prevs cs m = Ok ()"
  using assms
proof (induction cs arbitrary: m)
  case (Cons d cs)
  show ?case
  proof (cases "\<exists>q. prev_link d q")
    case False
    have "check_prevs cs m = Ok ()"
    proof (rule Cons.IH)
      show "\<exists>h. hash_is c h \<and> map_of m p \<in> {None, Some h}" if "c \<in> set cs" "prev_link c p" for c p
        using Cons.prems(1) [of c p] that by simp
      show "hash_is c' h" if "c \<in> set cs" "c' \<in> set cs" "prev_link c p" "prev_link c' p" "hash_is c h" for c c' p h
        using Cons.prems(2) [of c c' p h] that by simp
    qed (rule Cons.prems(3))
    then show ?thesis using False unfolding check_prevs_Cons by simp
  next
    case True
    then obtain q where "prev_link d q" by blast
    moreover from this obtain k where "hash_is d k" "map_of m q \<in> {None, Some k}"
      using Cons.prems(1) [of d q] by auto
    ultimately have q: "prev_link d q" "hash_is d k" "map_of m q \<in> {None, Some k}" by blast+
    have "check_prevs cs (bt_insert q k m) = Ok ()"
    proof (rule Cons.IH)
      fix c p assume c: "c \<in> set cs" "prev_link c p"
      show "\<exists>h. hash_is c h \<and> map_of (bt_insert q k m) p \<in> {None, Some h}"
      proof (cases "p = q")
        case True
        then show ?thesis using Cons.prems(2) [of d c q k] c q map_of_bt_insert [OF Cons.prems(3), of q k p] by auto
      next
        case False
        then show ?thesis using Cons.prems(1) [of c p] c map_of_bt_insert [OF Cons.prems(3), of q k p] by auto
      qed
    next
      show "bt_wf (bt_insert q k m)" by (rule bt_wf_insert [OF Cons.prems(3)])
      show "hash_is c' h" if "c \<in> set cs" "c' \<in> set cs" "prev_link c p" "prev_link c' p" "hash_is c h" for c c' p h
        using Cons.prems(2) [of c c' p h] that by simp
    qed
    then show ?thesis unfolding check_prevs_Cons using True q by auto
  qed
qed simp

lemma windows_contiguous:
  "check_windows (a # cs) = Ok () \<Longrightarrow> seq_key a \<le> s \<Longrightarrow> s \<le> seq_key (last (a # cs)) \<Longrightarrow> \<exists>c\<in>set (a # cs). seq_key c = s"
proof (induction cs arbitrary: a)
  case (Cons b cs)
  then have w: "check_window a b = Ok ()" "check_windows (b # cs) = Ok ()" by auto
  show ?case
  proof (cases "s = seq_key a")
    case False
    then have "seq_key b \<le> s" using windows_seq [OF w(1)] Cons.prems(2) by auto
    then show ?thesis using Cons.IH [OF w(2)] Cons.prems(3) by auto
  qed auto
qed auto

text \<open>Every sequence number after the first is reached by a link.\<close>

definition link_to :: "canon_value list \<Rightarrow> int \<Rightarrow> bool" where
  "link_to cs s \<longleftrightarrow> (\<exists>p\<in>set cs. \<exists>q\<in>set cs. seq_key p = s - 1 \<and> seq_key q = s
     \<and> (\<exists>h. get q ''prev_checkpoint_hash'' = Some (Str h) \<and> get p ''checkpoint_hash'' = Some (Str h)))"

lemma windows_linked:
  "check_windows (a # cs) = Ok () \<Longrightarrow> c \<in> set cs \<Longrightarrow> seq_key a < seq_key c \<Longrightarrow> link_to (a # cs) (seq_key c)"
proof (induction cs arbitrary: a)
  case (Cons b cs)
  then have w: "check_window a b = Ok ()" "check_windows (b # cs) = Ok ()" by auto
  show ?case
  proof (cases "seq_key b < seq_key c")
    case True
    then have "c \<in> set cs" using Cons.prems(2) by auto
    from Cons.IH [OF w(2) this True] show ?thesis by (auto simp: link_to_def)
  next
    case False
    then have "seq_key b = seq_key a + 1" "seq_key c = seq_key b"
      using windows_seq [OF w(1)] Cons.prems(3) by auto
    with w(1) show ?thesis by (auto simp: link_to_def check_window_Ok seq_key_CInt)
  qed
qed simp

text \<open>What the pairwise checks give for checkpoints whose first number is \<open>s0\<close>.\<close>

lemma windows_facts:
  assumes os: "os = sort_key seq_key cs" and win: "check_windows os = Ok ()" and first: "os \<noteq> [] \<Longrightarrow> seq_key (hd os) = s0"
  shows windows_from: "c \<in> set cs \<Longrightarrow> s0 \<le> seq_key c"
    and windows_fork_free: "c \<in> set cs \<Longrightarrow> c' \<in> set cs \<Longrightarrow> seq_key c = seq_key c' \<Longrightarrow>
      get c ''checkpoint_hash'' = get c' ''checkpoint_hash''"
    and windows_link: "c \<in> set cs \<Longrightarrow> s0 < seq_key c \<Longrightarrow> link_to cs (seq_key c)"
    and windows_gap_free: "c \<in> set cs \<Longrightarrow> s0 \<le> s \<Longrightarrow> s \<le> seq_key c \<Longrightarrow> \<exists>c'\<in>set cs. seq_key c' = s"
proof -
  have perm: "set os = set cs" and sorted: "sorted (map seq_key os)" unfolding os by simp_all
  show "s0 \<le> seq_key c" if "c \<in> set cs" for c
    using that first sorted unfolding perm [symmetric] by (cases os) auto
  show "get c ''checkpoint_hash'' = get c' ''checkpoint_hash''"
    if "c \<in> set cs" "c' \<in> set cs" "seq_key c = seq_key c'" for c c'
    using windows_no_fork [OF win sorted] that perm by blast
  show "link_to cs (seq_key c)" if c: "c \<in> set cs" "s0 < seq_key c" for c
  proof -
    obtain a xs where xs: "os = a # xs" using c perm by (cases os) auto
    have "c \<in> set (a # xs)" "check_windows (a # xs) = Ok ()" using c(1) perm win unfolding xs by blast+
    then have "link_to os (seq_key c)" using windows_linked [of a xs c] c(2) first unfolding xs by auto
    then show ?thesis using perm by (simp add: link_to_def)
  qed
  show "\<exists>c'\<in>set cs. seq_key c' = s" if c: "c \<in> set cs" "s0 \<le> s" "s \<le> seq_key c" for c s
  proof -
    obtain a xs where xs: "os = a # xs" using c perm by (cases os) auto
    moreover have "seq_key c \<le> seq_key (last os)"
      using sorted c(1) perm by (intro sorted_last) simp_all
    moreover have "set (a # xs) = set cs" using perm unfolding xs .
    ultimately show ?thesis using windows_contiguous [of a xs s] win first c(2,3) by auto
  qed
qed

text \<open>The facts about an accepted chain that its clients use.\<close>

lemma validate_chain_facts:
  assumes "validate_chain cs d = Ok os"
  shows chain_perm: "mset os = mset cs" "set os = set cs"
    and chain_nonneg: "c \<in> set cs \<Longrightarrow> get c ''checkpoint_seq'' = Some (CInt (seq_key c)) \<and> 0 \<le> seq_key c"
    and chain_no_fork: "c \<in> set cs \<Longrightarrow> c' \<in> set cs \<Longrightarrow> seq_key c = seq_key c' \<Longrightarrow>
      get c ''checkpoint_hash'' = get c' ''checkpoint_hash''"
    and chain_linked: "c \<in> set cs \<Longrightarrow> 0 < seq_key c \<Longrightarrow> link_to cs (seq_key c)"
    and chain_contiguous: "c \<in> set cs \<Longrightarrow> 0 \<le> s \<Longrightarrow> s \<le> seq_key c \<Longrightarrow> \<exists>c'\<in>set cs. seq_key c' = s"
proof -
  note ok = assms [unfolded validate_chain_Ok]
  then have os: "os = sort_key seq_key cs" and win: "check_windows os = Ok ()" by blast+
  have first: "os \<noteq> [] \<Longrightarrow> seq_key (hd os) = 0" using ok by (auto simp: check_first_Ok seq_key_CInt)
  note W = windows_facts [OF os win first]
  show perm: "mset os = mset cs" "set os = set cs" unfolding os by simp_all
  show "get c ''checkpoint_seq'' = Some (CInt (seq_key c)) \<and> 0 \<le> seq_key c" if "c \<in> set cs" for c
  proof -
    have "\<exists>s. get c ''checkpoint_seq'' = Some (CInt s)" using ok that perm unfolding check_frontiers_Ok by blast
    then show ?thesis using W(1) [OF _ that] by (auto simp: seq_key_CInt)
  qed
  show "c \<in> set cs \<Longrightarrow> c' \<in> set cs \<Longrightarrow> seq_key c = seq_key c' \<Longrightarrow> get c ''checkpoint_hash'' = get c' ''checkpoint_hash''" for c c'
    by (rule W(2))
  show "c \<in> set cs \<Longrightarrow> 0 < seq_key c \<Longrightarrow> link_to cs (seq_key c)" for c by (rule W(3))
  show "c \<in> set cs \<Longrightarrow> 0 \<le> s \<Longrightarrow> s \<le> seq_key c \<Longrightarrow> \<exists>c'\<in>set cs. seq_key c' = s" for c s by (rule W(4))
qed

text \<open>C9: An accepted chain. It is the given checkpoints in the order of their sequence numbers, which run from 0
  without a gap; two checkpoints with one number have one hash; every later number is reached by a
  checkpoint that names the hash of a checkpoint with the number before; every frontier member is a
  record of the graph; and the last checkpoint states the heads of the graph and the number of its
  records.\<close>

theorem validate_chain_sound:
  assumes "validate_chain cs d = Ok os" "c \<in> set cs"
  shows "mset os = mset cs \<and> sorted (map seq_key os)
    \<and> (\<forall>s\<in>{0..seq_key c}. \<exists>c'\<in>set cs. seq_key c' = s)
    \<and> (\<forall>c'\<in>set cs. seq_key c = seq_key c' \<longrightarrow> get c ''checkpoint_hash'' = get c' ''checkpoint_hash'')
    \<and> (0 < seq_key c \<longrightarrow> link_to cs (seq_key c))
    \<and> (\<forall>fr h. get c ''frontier'' = Some (Array fr) \<and> Str h \<in> set fr \<longrightarrow> map_of (by_hash d) h \<noteq> None)
    \<and> (\<exists>fr. get (last os) ''frontier'' = Some (Array fr) \<and> {h. Str h \<in> set fr} = set (heads d))
    \<and> get (last os) ''record_count'' = Some (CInt (int (length (by_hash d))))"
proof -
  note ok = assms(1) [unfolded validate_chain_Ok] and facts = validate_chain_facts [OF assms(1)]
  have "os \<noteq> []" using facts(2) assms(2) by auto
  then obtain fr where fr: "get (last os) ''frontier'' = Some (Array fr)" "set (List.map_filter as_str fr) = set (heads d)"
    "get (last os) ''record_count'' = Some (CInt (int (length (by_hash d))))"
    using ok unfolding check_latest_Ok by blast
  have G: "\<exists>fr. get (last os) ''frontier'' = Some (Array fr) \<and> {h. Str h \<in> set fr} = set (heads d)"
    using fr(1) fr(2) [unfolded set_strs] by blast
  have "check_frontiers d os = Ok ()" "os = sort_key seq_key cs" using ok by blast+
  then obtain s fc where fc: "get c ''frontier'' = Some (Array fc)" "check_members d s fc = Ok ()"
    using assms(2) facts(2) unfolding check_frontiers_Ok by blast
  have F: "\<forall>fr h. get c ''frontier'' = Some (Array fr) \<and> Str h \<in> set fr \<longrightarrow> map_of (by_hash d) h \<noteq> None"
    using fc(2) unfolding fc(1) check_members_Ok by auto
  have B: "sorted (map seq_key os)" using \<open>os = sort_key seq_key cs\<close> by simp
  have C: "\<forall>s\<in>{0..seq_key c}. \<exists>c'\<in>set cs. seq_key c' = s" using chain_contiguous [OF assms] by simp
  have D: "\<forall>c'\<in>set cs. seq_key c = seq_key c' \<longrightarrow> get c ''checkpoint_hash'' = get c' ''checkpoint_hash''"
    using chain_no_fork [OF assms] by simp
  have E: "0 < seq_key c \<longrightarrow> link_to cs (seq_key c)" using chain_linked [OF assms] by simp
  show ?thesis using facts(1) B C D E F G fr(3) by (intro conjI)
qed

definition demo_cp :: "int \<Rightarrow> canon_value \<Rightarrow> string \<Rightarrow> canon_value" where
  "demo_cp s prev h = Object [(''checkpoint_seq'', CInt s), (''prev_checkpoint_hash'', prev), (''checkpoint_hash'', Str h),
     (''record_count'', CInt 2), (''frontier'', Array [Str (hash_of CHR ''1'')])]"

lemma demo_chain_accepted:
  "validate_chain [demo_cp 1 (Str ''p'') ''q'', demo_cp 0 Null ''p''] family_dag = Ok [demo_cp 0 Null ''p'', demo_cp 1 (Str ''p'') ''q'']"
  by code_simp

theorem validate_chain_sound_witness:
  "get (demo_cp 1 (Str ''p'') ''q'') ''record_count'' = Some (CInt (int (length (by_hash family_dag))))"
  using validate_chain_sound [OF demo_chain_accepted, of "demo_cp 0 Null ''p''"] by simp

section \<open>Sealed checkpoints of the demonstration graph\<close>

definition demo_members :: "int \<Rightarrow> canon_value \<Rightarrow> string \<Rightarrow> int \<Rightarrow> string \<Rightarrow> (string \<times> canon_value) list" where
  "demo_members n prev fr cnt ts = [(''domain'', Str CHECKPOINT_DOMAIN), (''canon_version'', Str CHECKPOINT_CANON_VERSION),
     (''checkpoint_seq'', CInt n), (''prev_checkpoint_hash'', prev), (''frontier'', Array [Str fr]), (''record_count'', CInt cnt),
     (''created_ts'', Str ts)]"

text \<open>A value that may stand in \<open>prev_checkpoint_hash\<close>.\<close>

definition demo_prev :: "canon_value \<Rightarrow> bool" where
  "demo_prev v \<longleftrightarrow> v = Null \<or> (\<exists>h. v = Str h \<and> is_ascii h)"

definition demo_seal :: "(string \<times> canon_value) list \<Rightarrow> canon_value" where
  "demo_seal ms = unwrap (snd (seal_checkpoint demo 0 (Object ms) 7))"

definition demo_head :: canon_value where
  "demo_head = demo_seal (demo_members 0 Null (hash_of CHR ''1'') 2 ''2026-09-30T23:59:59.000Z'')"

lemma demo_keys: "map fst (demo_members n prev fr cnt ts) =
  [''domain'', ''canon_version'', ''checkpoint_seq'', ''prev_checkpoint_hash'', ''frontier'', ''record_count'', ''created_ts'']"
  by (simp add: demo_members_def)

lemma demo_keys_ascii:
  "list_all is_ascii [''domain'', ''canon_version'', ''checkpoint_seq'', ''prev_checkpoint_hash'', ''frontier'', ''record_count'', ''created_ts'']"
  by code_simp

lemma demo_members_facts:
  assumes "demo_prev prev"
  shows "list_all (\<lambda>(k, v). is_ascii k \<and> keys_unique uni v) (demo_members n prev fr cnt ts)" "distinct (map fst (demo_members n prev fr cnt ts))"
    "kept [''anchor'', ''checkpoint_hash'', ''sig''] (demo_members n prev fr cnt ts) = demo_members n prev fr cnt ts"
    "kept [''checkpoint_hash'', ''sig''] (demo_members n prev fr cnt ts) = demo_members n prev fr cnt ts"
    "map_of (demo_members n prev fr cnt ts) ''domain'' = Some (Str CHECKPOINT_DOMAIN)"
    "map_of (demo_members n prev fr cnt ts) ''canon_version'' = Some (Str CHECKPOINT_CANON_VERSION)"
proof -
  have "\<forall>k\<in>set (map fst (demo_members n prev fr cnt ts)). is_ascii k" using demo_keys_ascii unfolding demo_keys list_all_iff .
  moreover have "\<forall>(k, v)\<in>set (demo_members n prev fr cnt ts). keys_unique uni v"
    using assms by (auto simp: demo_members_def demo_prev_def)
  ultimately show "list_all (\<lambda>(k, v). is_ascii k \<and> keys_unique uni v) (demo_members n prev fr cnt ts)"
    unfolding list_all_iff by auto
  show "distinct (map fst (demo_members n prev fr cnt ts))" unfolding demo_keys by simp
qed (simp_all add: demo_members_def)

lemma demo_strings_ascii:
  "is_ascii CHECKPOINT_DOMAIN" "is_ascii CHECKPOINT_CANON_VERSION" "is_ascii (hash_of CHR ''1'')" "is_ascii ''checkpoint_hash''"
  "is_ascii ''2026-09-30T23:59:59.000Z''"
  by code_simp+

lemma demo_sealed_cp:
  assumes "demo_prev prev"
  obtains h s where "seal_checkpoint demo 0 (Object (demo_members n prev fr cnt ts)) 7 = (0, Ok (demo_seal (demo_members n prev fr cnt ts)))"
    "demo_seal (demo_members n prev fr cnt ts) = Object (demo_members n prev fr cnt ts @ [(''checkpoint_hash'', Str h), (''sig'', Str s)])"
    "is_ascii h" "is_ascii s"
proof -
  let ?ms = "demo_members n prev fr cnt ts"
  note facts = demo_members_facts [OF assms, where n = n and fr = fr and cnt = cnt and ts = ts]
  have fit: "lp_fits (as_bytes CHECKPOINT_DOMAIN)" "lp_fits (as_bytes CHECKPOINT_CANON_VERSION)"
    by (simp_all add: CHECKPOINT_DOMAIN_def CHECKPOINT_CANON_VERSION_def MAX_LP_LEN_def)
  have "keys_unique (unicode_nfc demo) (Object ?ms)"
    using keys_unique_ascii demo_members_facts(1,2) [OF assms] by blast
  then obtain p where p: "body_preimage demo (Object ?ms) [''anchor'', ''checkpoint_hash'', ''sig''] = Ok p"
    unfolding body_preimage_Ok facts(3) using facts(5,6) fit by (metis facts(3))
  let ?h = "sha256_prefixed (sha256 demo) p" and ?cp = "\<lambda>h s. Object (?ms @ [(''checkpoint_hash'', Str h), (''sig'', Str s)])"
  let ?s = "sign demo CHECKPOINT_SIG_TAG ?h 7"
  have "compute_checkpoint_hash demo (Object ?ms) = Ok ?h"
    by (simp add: compute_checkpoint_hash_Ok checkpoint_preimage_def p)
  then have "seal_checkpoint_unchecked demo (Object ?ms) 7
      = Ok (set_field (set_field (without_keys (Object ?ms) [''checkpoint_hash'', ''sig'']) ''checkpoint_hash'' (Str ?h)) ''sig'' (Str ?s))"
    by (simp add: seal_checkpoint_unchecked_def Let_def)
  also have "set_field (set_field (without_keys (Object ?ms) [''checkpoint_hash'', ''sig'']) ''checkpoint_hash'' (Str ?h)) ''sig'' (Str ?s)
      = with_field (with_field (without_keys (Object ?ms) [''checkpoint_hash'', ''sig'']) ''checkpoint_hash'' (Str ?h)) ''sig'' (Str ?s)"
    unfolding without_keys_def canon_value.case set_field_with_field ..
  also have "\<dots> = ?cp ?h ?s"
    using checkpoint.seal_fields(1) [where dropped = "[''checkpoint_hash'', ''sig'']" and ms = ?ms and h = ?h and s = ?s]
      facts(4) by simp
  finally have "seal_checkpoint_unchecked demo (Object ?ms) 7 = Ok (?cp ?h ?s)" .
  moreover have "check_sealed_checkpoint_pins (?cp ?h ?s) = Ok ()"
    unfolding check_pins_Ok by (simp add: get_Object demo_members_def)
  ultimately have seal: "seal_checkpoint demo 0 (Object ?ms) 7 = (0, Ok (?cp ?h ?s))"
    by (simp add: seal_checkpoint_def seal_checkpoint_with_mode_def)
  then have "demo_seal ?ms = ?cp ?h ?s" by (simp add: demo_seal_def)
  with seal show thesis
    by (intro that [of ?h ?s]) (simp_all add: sha256_prefixed_ascii sign_ascii [OF sig_tags_fit(2)])
qed

lemma demo_prev_Null: "demo_prev Null"
  by (simp add: demo_prev_def)

lemmas demo_head_sealed = demo_sealed_cp [OF demo_prev_Null, of 0 "hash_of CHR ''1''" 2 "''2026-09-30T23:59:59.000Z''", folded demo_head_def]

lemma demo_head_checks:
  "validate_chain [Object (demo_members 0 Null (hash_of CHR ''1'') 2 ts @ [(''checkpoint_hash'', Str h), (''sig'', Str s)])] family_dag
     = Ok [Object (demo_members 0 Null (hash_of CHR ''1'') 2 ts @ [(''checkpoint_hash'', Str h), (''sig'', Str s)])]"
  by code_simp

theorem seal_checkpoint_verifies_witness:
  "verify_checkpoint_sealed demo (attach_anchor demo_head Null) 7 = Ok ()"
proof (rule demo_head_sealed)
  assume "seal_checkpoint demo 0 (Object (demo_members 0 Null (hash_of CHR ''1'') 2 ''2026-09-30T23:59:59.000Z'')) 7 = (0, Ok demo_head)"
  from seal_checkpoint_verifies [OF demo_ok(2) this, of "[Null]"] show ?thesis by (simp add: demo_def)
qed

section \<open>The head determines the history\<close>

text \<open>A checkpoint as the parser delivers it and the verifier accepts it.\<close>

definition accepted_cp :: "('sk, 'vk) externals \<Rightarrow> canon_value \<Rightarrow> bool" where
  "accepted_cp X c \<longleftrightarrow> parsed (unicode_nfc X) c \<and> nesting c \<le> MAX_DEPTH \<and> (\<exists>vk. verify_checkpoint_sealed X c vk = Ok ())"

lemma checkpoint_fields_agree:
  assumes X: "nfc_ok (unicode_nfc X)" and c: "accepted_cp X c" and c': "accepted_cp X c'"
    and h: "get c ''checkpoint_hash'' = get c' ''checkpoint_hash''"
    and no: "\<not> collision X (unwrap (checkpoint_preimage X c)) (unwrap (checkpoint_preimage X c'))"
    and k: "k \<notin> {''anchor'', ''checkpoint_hash'', ''sig''}"
  shows "map_option (canonical (unicode_nfc X)) (get c k) = map_option (canonical (unicode_nfc X)) (get c' k)"
proof -
  let ?strip = "[''anchor'', ''checkpoint_hash'', ''sig'']" and ?u = "unicode_nfc X"
  obtain p where p: "body_preimage X c ?strip = Ok p" "get c ''checkpoint_hash'' = Some (Str (sha256_prefixed (sha256 X) p))"
    using c by (auto simp: accepted_cp_def verify_checkpoint_sealed_Ok compute_checkpoint_hash_Ok checkpoint_preimage_def)
  obtain q where q: "body_preimage X c' ?strip = Ok q" "get c' ''checkpoint_hash'' = Some (Str (sha256_prefixed (sha256 X) q))"
    using c' by (auto simp: accepted_cp_def verify_checkpoint_sealed_Ok compute_checkpoint_hash_Ok checkpoint_preimage_def)
  obtain a b where ab: "c = Object a" "c' = Object b" using p(1) q(1) unfolding body_preimage_Ok by blast
  have pa: "parsed ?u (Object a)" "nesting (Object a) \<le> MAX_DEPTH" and pb: "parsed ?u (Object b)" "nesting (Object b) \<le> MAX_DEPTH"
    using c c' unfolding accepted_cp_def ab by blast+
  have "sha256 X p = sha256 X q" using p(2) q(2) h by simp
  then have "p = q" using no p(1) q(1) by (simp add: collision_def checkpoint_preimage_def)
  then have can: "canonical ?u (Object (kept ?strip a)) = canonical ?u (Object (kept ?strip b))"
    using body_preimage_binding [OF X parsed_value_ok [OF pa(1)] pa(2) parsed_value_ok [OF pb(1)] pb(2)] p(1) q(1) ab by blast
  have "k \<notin> set ?strip" using k by simp
  then show ?thesis
    using canonical_lookup [OF parsed_kept [OF pa(1)], of ?strip k] canonical_lookup [OF parsed_kept [OF pb(1)], of ?strip k]
    unfolding can map_of_filter_keys ab get_Object by simp
qed

lemma checkpoint_binding:
  assumes X: "nfc_ok (unicode_nfc X)" and c: "accepted_cp X c" and c': "accepted_cp X c'"
    and h: "get c ''checkpoint_hash'' = get c' ''checkpoint_hash''"
    and no: "\<not> collision X (unwrap (checkpoint_preimage X c)) (unwrap (checkpoint_preimage X c'))"
    and k: "k \<notin> {''anchor'', ''checkpoint_hash'', ''sig''}"
  shows bound_int: "get c k = Some (CInt s) \<Longrightarrow> get c' k = Some (CInt s)"
    and bound_str: "get c k = Some (Str t) \<Longrightarrow> get c' k = Some (Str t)"
    and bound_strs: "get c k = Some (Array vs) \<Longrightarrow> get c' k = Some (Array ws) \<Longrightarrow> Str t \<in> set vs \<longleftrightarrow> Str t \<in> set ws"
proof -
  let ?u = "unicode_nfc X"
  note f = checkpoint_fields_agree [OF assms]
  have p: "parsed ?u v" if "get c k = Some v" for v using c parsed_get that unfolding accepted_cp_def by blast
  have p': "parsed ?u v" if "get c' k = Some v" for v using c' parsed_get that unfolding accepted_cp_def by blast
  have get: "\<exists>w. get c' k = Some w \<and> canonical ?u w = canonical ?u v" if "get c k = Some v" for v
    using f unfolding that by (cases "get c' k") simp_all
  show "get c' k = Some (CInt s)" if "get c k = Some (CInt s)"
    using get [OF that] unfolding canonical.simps canonical_CInt by blast
  show "get c' k = Some (Str t)" if "get c k = Some (Str t)"
  proof -
    have "canonical ?u (Str t) = Str t" using canonical_Str [OF p [OF that]] by blast
    then show ?thesis using get [OF that] canonical_Str [OF p'] by metis
  qed
  show "Str t \<in> set vs \<longleftrightarrow> Str t \<in> set ws" if vs: "get c k = Some (Array vs)" and ws: "get c' k = Some (Array ws)"
  proof -
    have "map (canonical ?u) vs = map (canonical ?u) ws" using f vs ws by simp
    then have "Str t \<in> canonical ?u ` set vs \<longleftrightarrow> Str t \<in> canonical ?u ` set ws" by (metis set_map)
    moreover have "Str t \<in> canonical ?u ` set xs \<longleftrightarrow> Str t \<in> set xs" if "parsed ?u (Array xs)" for xs
    proof -
      have "\<forall>x\<in>set xs. canonical ?u x = Str t \<longleftrightarrow> x = Str t" using that canonical_Str [of ?u] unfolding parsed_Array by blast
      then show ?thesis by (metis image_iff)
    qed
    ultimately show ?thesis using p [OF vs] p' [OF ws] by blast
  qed
qed

text \<open>C8: The head determines the history. Take two accepted chains of verified checkpoints that the parser
  delivered. If a checkpoint of one has the hash of a checkpoint of the other, then for every earlier
  checkpoint of the first the second has one with the same sequence number and the same hash, or some
  pair of their checkpoints is a collision of the hash.\<close>

theorem head_determines_history:
  assumes X: "nfc_ok (unicode_nfc X)"
    and A: "validate_chain A dA = Ok osA" "\<forall>c\<in>set A. accepted_cp X c"
    and B: "validate_chain B dB = Ok osB" "\<forall>c\<in>set B. accepted_cp X c"
    and ab: "a \<in> set A" "b \<in> set B" "get a ''checkpoint_hash'' = get b ''checkpoint_hash''"
    and a': "a' \<in> set A" "seq_key a' \<le> seq_key a"
  shows "(\<exists>b'\<in>set B. seq_key b' = seq_key a' \<and> get b' ''checkpoint_hash'' = get a' ''checkpoint_hash'')
    \<or> (\<exists>c\<in>set A. \<exists>c'\<in>set B. collision X (unwrap (checkpoint_preimage X c)) (unwrap (checkpoint_preimage X c')))"
proof (rule disjCI)
  assume no: "\<not> (\<exists>c\<in>set A. \<exists>c'\<in>set B. collision X (unwrap (checkpoint_preimage X c)) (unwrap (checkpoint_preimage X c')))"
  note bind = bound_int [OF X, where k = "''checkpoint_seq''", simplified] bound_str [OF X, where k = "''prev_checkpoint_hash''", simplified]
  have seq: "seq_key b = seq_key a"
    if "a \<in> set A" "b \<in> set B" "get a ''checkpoint_hash'' = get b ''checkpoint_hash''" for a b
    using bind(1) [of a b "seq_key a"] chain_nonneg [OF A(1), of a] that A(2) B(2) no seq_key_CInt by blast
  have "\<exists>b'\<in>set B. seq_key b' = seq_key a' \<and> get b' ''checkpoint_hash'' = get a' ''checkpoint_hash''"
    if "a \<in> set A" "b \<in> set B" "get a ''checkpoint_hash'' = get b ''checkpoint_hash''" "seq_key a' \<le> seq_key a" for a b
    using that
  proof (induction "nat (seq_key a)" arbitrary: a b rule: less_induct)
    case less
    show ?case
    proof (cases "seq_key a' = seq_key a")
      case True
      then show ?thesis using chain_no_fork [OF A(1) a'(1) less.prems(1)] less.prems(2,3) seq [OF less.prems(1-3)] by metis
    next
      case False
      then have pos: "0 < seq_key a" using less.prems(4) chain_nonneg [OF A(1) a'(1)] by linarith
      obtain p q h where p: "p \<in> set A" "seq_key p = seq_key a - 1" "get p ''checkpoint_hash'' = Some (Str h)"
        and q: "q \<in> set A" "seq_key q = seq_key a" "get q ''prev_checkpoint_hash'' = Some (Str h)"
        using chain_linked [OF A(1) less.prems(1) pos] unfolding link_to_def by blast
      have sb: "seq_key b = seq_key a" using seq less.prems(1-3) by blast
      obtain p' q' h' where p': "p' \<in> set B" "get p' ''checkpoint_hash'' = Some (Str h')"
        and q': "q' \<in> set B" "seq_key q' = seq_key b" "get q' ''prev_checkpoint_hash'' = Some (Str h')"
        using chain_linked [OF B(1) less.prems(2)] pos unfolding sb link_to_def by blast
      have "get q ''checkpoint_hash'' = get q' ''checkpoint_hash''"
        using chain_no_fork [OF A(1) q(1) less.prems(1) q(2)] chain_no_fork [OF B(1) q'(1) less.prems(2) q'(2)] less.prems(3) by simp
      then have "get q' ''prev_checkpoint_hash'' = Some (Str h)"
        using bind(2) [of q q' h] q(1,3) q'(1) A(2) B(2) no by blast
      then have "get p ''checkpoint_hash'' = get p' ''checkpoint_hash''" using q'(3) p(3) p'(2) by simp
      moreover have "nat (seq_key p) < nat (seq_key a)" "seq_key a' \<le> seq_key p" using p(2) pos False less.prems(4) by auto
      ultimately show ?thesis using less.hyps p(1) p'(1) by blast
    qed
  qed
  then show "\<exists>b'\<in>set B. seq_key b' = seq_key a' \<and> get b' ''checkpoint_hash'' = get a' ''checkpoint_hash''"
    using ab a'(2) by blast
qed

lemma demo_accepted:
  assumes "demo_prev prev" "in_i64 n" "in_i64 cnt" "is_ascii fr" "is_ascii ts"
  shows "accepted_cp demo (demo_seal (demo_members n prev fr cnt ts))"
proof -
  let ?ms = "demo_members n prev fr cnt ts" and ?cp = "demo_seal (demo_members n prev fr cnt ts)"
  obtain h s where s: "seal_checkpoint demo 0 (Object ?ms) 7 = (0, Ok ?cp)"
    and d: "?cp = Object (?ms @ [(''checkpoint_hash'', Str h), (''sig'', Str s)])" "is_ascii h" "is_ascii s"
    by (rule demo_sealed_cp [OF assms(1)])
  note facts = demo_members_facts [OF assms(1), where n = n and fr = fr and cnt = cnt and ts = ts]
  have str: "is_str k \<and> nfc (\<lambda>s. s) k = k" if "is_ascii k" for k using that by (simp add: is_ascii_is_str)
  note ascii = str [OF d(2)] str [OF d(3)] str [OF assms(4)] str [OF assms(5)] demo_strings_ascii [THEN str] sealed_keys_ascii [THEN str]
  have "\<forall>(k, v)\<in>set ?ms. is_ascii k" using facts(1) unfolding list_all_iff by auto
  then have "\<forall>(k, v)\<in>set ?ms. is_str k \<and> nfc (\<lambda>s. s) k = k" using str by auto
  moreover have "\<forall>(k, v)\<in>set ?ms. parsed (\<lambda>s. s) v"
    using ascii assms(1-3) str by (auto simp: demo_members_def demo_prev_def parsed_Array)
  moreover have "''checkpoint_hash'' \<notin> fst ` set ?ms" "''sig'' \<notin> fst ` set ?ms"
    by (simp_all add: demo_members_def)
  ultimately have "parsed (\<lambda>s. s) ?cp"
    using ascii facts(2) unfolding d(1) parsed_Object by auto
  moreover have "nesting ?cp \<le> MAX_DEPTH"
    using assms(1) unfolding d(1)
    by (auto simp: nesting_Object_le nesting_Array_le demo_members_def demo_prev_def MAX_DEPTH_def nesting.simps)
  moreover have "verify_checkpoint_sealed demo ?cp 7 = Ok ()"
    using seal_checkpoint_unchecked_Ok [OF demo_ok(2)] s
    by (auto simp: seal_checkpoint_def seal_checkpoint_with_mode_def demo_def split: result.splits)
  ultimately show ?thesis unfolding accepted_cp_def by (auto simp: demo_def)
qed

lemma demo_head_accepted: "accepted_cp demo demo_head" "validate_chain [demo_head] family_dag = Ok [demo_head]"
proof -
  show "accepted_cp demo demo_head"
    unfolding demo_head_def by (rule demo_accepted) (simp_all add: demo_prev_Null in_i64_def demo_strings_ascii)
  obtain h s where d: "demo_head = Object (demo_members 0 Null (hash_of CHR ''1'') 2 ''2026-09-30T23:59:59.000Z'' @ [(''checkpoint_hash'', Str h), (''sig'', Str s)])"
    by (rule demo_head_sealed)
  show "validate_chain [demo_head] family_dag = Ok [demo_head]" unfolding d by (rule demo_head_checks)
qed

text \<open>A second checkpoint on the first, and the two in either order.\<close>

definition demo_next :: "string \<Rightarrow> canon_value" where
  "demo_next h = demo_seal (demo_members 1 (Str h) (hash_of CHR ''1'') 2 ''2026-09-30T23:59:59.000Z'')"

lemma demo_chain_checks:
  "ok (validate_chain
     [Object (demo_members 0 Null (hash_of CHR ''1'') 2 ts @ [(''checkpoint_hash'', Str h), (''sig'', Str s)]),
      Object (demo_members 1 (Str h) (hash_of CHR ''1'') 2 ts @ [(''checkpoint_hash'', Str h'), (''sig'', Str s')])] family_dag) \<noteq> None"
  "ok (validate_chain
     [Object (demo_members 1 (Str h) (hash_of CHR ''1'') 2 ts @ [(''checkpoint_hash'', Str h'), (''sig'', Str s')]),
      Object (demo_members 0 Null (hash_of CHR ''1'') 2 ts @ [(''checkpoint_hash'', Str h), (''sig'', Str s)])] family_dag) \<noteq> None"
  by code_simp+

theorem head_determines_history_witness:
  "\<exists>h. get demo_head ''checkpoint_hash'' = Some (Str h) \<and> seq_key demo_head < seq_key (demo_next h)
    \<and> ((\<exists>b\<in>set [demo_next h, demo_head]. seq_key b = seq_key demo_head \<and> get b ''checkpoint_hash'' = get demo_head ''checkpoint_hash'')
       \<or> (\<exists>c\<in>set [demo_head, demo_next h]. \<exists>c'\<in>set [demo_next h, demo_head].
            collision demo (unwrap (checkpoint_preimage demo c)) (unwrap (checkpoint_preimage demo c'))))"
proof -
  obtain h s where d: "demo_head = Object (demo_members 0 Null (hash_of CHR ''1'') 2 ''2026-09-30T23:59:59.000Z'' @ [(''checkpoint_hash'', Str h), (''sig'', Str s)])"
    and h: "is_ascii h" by (rule demo_head_sealed)
  have prev: "demo_prev (Str h)" using h by (simp add: demo_prev_def)
  obtain h' s' where n: "demo_next h = Object (demo_members 1 (Str h) (hash_of CHR ''1'') 2 ''2026-09-30T23:59:59.000Z'' @ [(''checkpoint_hash'', Str h'), (''sig'', Str s')])"
    unfolding demo_next_def by (rule demo_sealed_cp [OF prev])
  have acc: "accepted_cp demo (demo_next h)"
    unfolding demo_next_def by (rule demo_accepted [OF prev]) (simp_all add: in_i64_def demo_strings_ascii)
  have seq: "seq_key demo_head = 0" "seq_key (demo_next h) = 1" unfolding d n by (simp_all add: seq_key_def get_Object demo_members_def as_int_def)
  have hd: "get demo_head ''checkpoint_hash'' = Some (Str h)" unfolding d by (simp add: get_Object demo_members_def)
  obtain osA osB where A: "validate_chain [demo_head, demo_next h] family_dag = Ok osA" and B: "validate_chain [demo_next h, demo_head] family_dag = Ok osB"
    using demo_chain_checks unfolding d n by (metis ok.simps(2) result.exhaust)
  from head_determines_history [OF demo_ok(3) A _ B, of "demo_next h" "demo_next h" demo_head]
  show ?thesis using acc demo_head_accepted(1) seq hd by simp
qed

end
