(* ===== verification/Anchor.thy ===== *)
theory Anchor
  imports Object_Fields
begin

text \<open>
  \<open>core/src/anchor.rs\<close>: the external anchor of a checkpoint. The \<open>test-anchor\<close> scheme is modelled in
  full. The RFC 3161 scheme decodes the token and asks \<open>rfc3161::verify_binding\<close>, which is compiled
  in only with the feature of that name: it is an optional argument \<open>tsa\<close> here, \<open>None\<close> in a build
  without the feature.
\<close>

definition ANCHOR_TAG :: string where
  "ANCHOR_TAG = ''averin.anchor.v1''"

datatype anchor_error =
    AnMissingField string
  | BadScheme string
  | BadToken b64_error
  | Untrusted
  | UntrustedDetail string
  | Unsupported string

text \<open>The results of the three appends are not looked at: a field over the bound is left out.\<close>

definition anchor_preimage :: "string \<Rightarrow> string \<Rightarrow> bytes" where
  "anchor_preimage checkpoint_hash anchored_ts =
     snd (lp_str_into (snd (lp_str_into (snd (lp_str_into [] ANCHOR_TAG)) checkpoint_hash)) anchored_ts)"

definition make_test_anchor :: "('sk, 'vk) externals \<Rightarrow> string \<Rightarrow> string \<Rightarrow> 'sk \<Rightarrow> string \<Rightarrow> canon_value" where
  "make_test_anchor X checkpoint_hash anchored_ts tsa_sk tsa_key_id =
     (let sig = ed_sign X tsa_sk (anchor_preimage checkpoint_hash anchored_ts)
      in case object (unicode_nfc X)
           [(''scheme'', string_value (unicode_nfc X) ''test-anchor''),
            (''anchored_ts'', string_value (unicode_nfc X) anchored_ts),
            (''tsa_key_id'', string_value (unicode_nfc X) tsa_key_id),
            (''token_b64'', string_value (unicode_nfc X) (encode sig))] of
           Ok v \<Rightarrow> v
         | Err e \<Rightarrow> Code.abort (STR ''anchor object'') (\<lambda>_. Null))"

record 'vk anchor_trust =
  test_anchor_keys :: "'vk list"
  rfc3161_tsa_spki :: "bytes list"

type_synonym tsa_verifier = "bytes \<Rightarrow> bytes \<Rightarrow> bytes \<Rightarrow> (string, string) result"

fun try_tsas :: "tsa_verifier \<Rightarrow> bytes \<Rightarrow> bytes \<Rightarrow> bytes list \<Rightarrow> string option \<Rightarrow> (string, anchor_error) result" where
  "try_tsas verify_binding der msg [] last_error =
     Err (case last_error of Some e \<Rightarrow> UntrustedDetail e | None \<Rightarrow> Untrusted)"
| "try_tsas verify_binding der msg (spki # spkis) last_error =
     (case verify_binding der spki msg of
        Ok gen_time \<Rightarrow> Ok gen_time
      | Err e \<Rightarrow> try_tsas verify_binding der msg spkis (Some e))"

definition verify_rfc3161 :: "tsa_verifier option \<Rightarrow> string \<Rightarrow> canon_value \<Rightarrow> 'vk anchor_trust \<Rightarrow> (string, anchor_error) result" where
  "verify_rfc3161 tsa checkpoint_hash anchor trust =
     (case tsa of
        None \<Rightarrow> Err (Unsupported ''rfc3161'')
      | Some verify_binding \<Rightarrow>
          bind_result (ok_or (field_str anchor ''token_b64'') (AnMissingField ''token_b64'')) (\<lambda>token.
          bind_result (map_err BadToken (decode token)) (\<lambda>der.
          try_tsas verify_binding der (as_bytes checkpoint_hash) (rfc3161_tsa_spki trust) None)))"

definition verify_anchor_keyed :: "('sk, 'vk) externals \<Rightarrow> tsa_verifier option \<Rightarrow> string \<Rightarrow> canon_value \<Rightarrow> 'vk anchor_trust
    \<Rightarrow> (string \<times> 'vk option, anchor_error) result" where
  "verify_anchor_keyed X tsa checkpoint_hash anchor trust =
     bind_result (ok_or (field_str anchor ''scheme'') (AnMissingField ''scheme'')) (\<lambda>scheme.
     if scheme = ''test-anchor'' then
       bind_result (ok_or (field_str anchor ''anchored_ts'') (AnMissingField ''anchored_ts'')) (\<lambda>anchored_ts.
       bind_result (ok_or (field_str anchor ''token_b64'') (AnMissingField ''token_b64'')) (\<lambda>token.
       bind_result (map_err BadToken (decode_fixed 64 token)) (\<lambda>signature.
       let pre = anchor_preimage checkpoint_hash anchored_ts
       in case find (\<lambda>vk. ed_verify_strict X vk pre signature) (test_anchor_keys trust) of
            Some vk \<Rightarrow> Ok (anchored_ts, Some vk)
          | None \<Rightarrow> Err Untrusted)))
     else if scheme = ''rfc3161'' then map_ok (\<lambda>ts. (ts, None)) (verify_rfc3161 tsa checkpoint_hash anchor trust)
     else Err (BadScheme scheme))"

definition verify_anchor :: "('sk, 'vk) externals \<Rightarrow> tsa_verifier option \<Rightarrow> string \<Rightarrow> canon_value \<Rightarrow> 'vk anchor_trust
    \<Rightarrow> (string, anchor_error) result" where
  "verify_anchor X tsa checkpoint_hash anchor trust = map_ok fst (verify_anchor_keyed X tsa checkpoint_hash anchor trust)"

section \<open>The preimage binds hash and time\<close>

lemma anchor_preimage_eq:
  "lp_fits (as_bytes h) \<Longrightarrow> lp_fits (as_bytes t) \<Longrightarrow>
   anchor_preimage h t = concat (map lp [as_bytes ANCHOR_TAG, as_bytes h, as_bytes t])"
  by (simp add: anchor_preimage_def lp_str_into_def lp_into_eq ANCHOR_TAG_def MAX_LP_LEN_def)

lemma anchor_preimage_inject:
  assumes "lp_fits (as_bytes h)" "lp_fits (as_bytes t)" "lp_fits (as_bytes h')" "lp_fits (as_bytes t')"
  shows "anchor_preimage h t = anchor_preimage h' t' \<longleftrightarrow> h = h' \<and> t = t'"
proof -
  have "lp_fits (as_bytes ANCHOR_TAG)" by (simp add: ANCHOR_TAG_def MAX_LP_LEN_def)
  then show ?thesis
    using lp_frame.frames_inject [of "[as_bytes ANCHOR_TAG, as_bytes h, as_bytes t]" "[as_bytes ANCHOR_TAG, as_bytes h', as_bytes t']"]
      assms by (auto simp: anchor_preimage_eq)
qed

lemma verify_test_anchor_Ok:
  "verify_anchor_keyed X tsa h anchor trust = Ok (ts, Some vk) \<longleftrightarrow>
     get anchor ''scheme'' = Some (Str ''test-anchor'') \<and> get anchor ''anchored_ts'' = Some (Str ts)
     \<and> (\<exists>b. get anchor ''token_b64'' = Some (Str (encode b)) \<and> length b = 64
          \<and> find (\<lambda>vk. ed_verify_strict X vk (anchor_preimage h ts) b) (test_anchor_keys trust) = Some vk)"
  (is "?L \<longleftrightarrow> ?R")
proof
  assume ?L
  then obtain scheme where s: "get anchor ''scheme'' = Some (Str scheme)" by (auto simp: verify_anchor_keyed_def)
  show ?R
  proof (cases "scheme = ''test-anchor''")
    case True
    with \<open>?L\<close> s obtain b where "get anchor ''anchored_ts'' = Some (Str ts)" "get anchor ''token_b64'' = Some (Str (encode b))"
      "length b = 64" "find (\<lambda>vk. ed_verify_strict X vk (anchor_preimage h ts) b) (test_anchor_keys trust) = Some vk"
      by (auto simp: verify_anchor_keyed_def decode_fixed_iff Let_def field_str_def as_str_def [of "Str _"] bind_eq_Some_conv split: option.splits)
    with s True show ?thesis by blast
  next
    case False
    with \<open>?L\<close> s show ?thesis by (auto simp: verify_anchor_keyed_def field_str_def as_str_def [of "Str _"] split: if_splits)
  qed
next
  assume ?R
  then obtain b where "get anchor ''scheme'' = Some (Str ''test-anchor'')" "get anchor ''anchored_ts'' = Some (Str ts)"
    "get anchor ''token_b64'' = Some (Str (encode b))" "decode_fixed 64 (encode b) = Ok b"
    "find (\<lambda>vk. ed_verify_strict X vk (anchor_preimage h ts) b) (test_anchor_keys trust) = Some vk"
    unfolding decode_fixed_iff by blast
  then show ?L by (simp add: verify_anchor_keyed_def field_str_def as_str_def Let_def)
qed

lemma anchor_object:
  "object uni [(''scheme'', a), (''anchored_ts'', b), (''tsa_key_id'', c), (''token_b64'', d)]
     = Ok (Object [(''scheme'', a), (''anchored_ts'', b), (''tsa_key_id'', c), (''token_b64'', d)])"
proof -
  have "is_ascii ''scheme''" "is_ascii ''anchored_ts''" "is_ascii ''tsa_key_id''" "is_ascii ''token_b64''" by code_simp+
  then show ?thesis by (simp add: object_def)
qed

text \<open>C33: An anchor block that names a key was signed by that pinned key, over exactly the given checkpoint hash
  and the returned time; the same token cannot answer for another hash or another time.\<close>

theorem anchor_binds:
  assumes "verify_anchor_keyed X tsa h anchor trust = Ok (ts, Some vk)"
    and "lp_fits (as_bytes h)" "lp_fits (as_bytes ts)" "lp_fits (as_bytes h')" "lp_fits (as_bytes ts')"
  shows "vk \<in> set (test_anchor_keys trust)
    \<and> (\<exists>b. get anchor ''token_b64'' = Some (Str (encode b)) \<and> ed_verify_strict X vk (anchor_preimage h ts) b)
    \<and> (anchor_preimage h' ts' = anchor_preimage h ts \<longleftrightarrow> h' = h \<and> ts' = ts)"
  using assms by (auto simp: verify_test_anchor_Ok anchor_preimage_inject find_Some_iff)

text \<open>A test anchor made over a checkpoint hash verifies, with its time, as soon as its key is among the
  pinned ones.\<close>

theorem test_anchor_roundtrip:
  assumes "ed25519_ok X" "is_ascii ts" "ed_verifying_key X sk \<in> set (test_anchor_keys trust)"
  shows "verify_anchor X tsa h (make_test_anchor X h ts sk key_id) trust = Ok ts"
proof -
  let ?b = "ed_sign X sk (anchor_preimage h ts)"
  have b: "length ?b = 64" "ed_verify_strict X (ed_verifying_key X sk) (anchor_preimage h ts) ?b"
    using assms(1) by (auto simp: ed25519_ok_def)
  then obtain vk where "find (\<lambda>vk. ed_verify_strict X vk (anchor_preimage h ts) ?b) (test_anchor_keys trust) = Some vk"
    using assms(3) by (cases "find (\<lambda>vk. ed_verify_strict X vk (anchor_preimage h ts) ?b) (test_anchor_keys trust)")
      (auto simp: find_None_iff)
  moreover have "is_ascii ''test-anchor''" by code_simp
  ultimately have "verify_anchor_keyed X tsa h (make_test_anchor X h ts sk key_id) trust = Ok (ts, Some vk)"
    unfolding verify_test_anchor_Ok make_test_anchor_def Let_def anchor_object
    using b(1) assms(2) by (auto simp: get_Object string_value_def encode_ascii)
  then show ?thesis by (simp add: verify_anchor_def)
qed

lemma demo_anchor:
  "verify_anchor_keyed demo None ''h'' (make_test_anchor demo ''h'' ''t'' 7 ''k'') \<lparr> test_anchor_keys = [3, 7], rfc3161_tsa_spki = [] \<rparr>
     = Ok (''t'', Some 7)"
proof -
  have "is_ascii ''test-anchor''" "is_ascii ''t''" by code_simp+
  then show ?thesis
    unfolding verify_test_anchor_Ok make_test_anchor_def Let_def anchor_object
    by (auto simp: get_Object string_value_def encode_ascii demo_def)
qed

theorem anchor_binds_witness:
  "\<exists>b. get (make_test_anchor demo ''h'' ''t'' 7 ''k'') ''token_b64'' = Some (Str (encode b))
     \<and> ed_verify_strict demo 7 (anchor_preimage ''h'' ''t'') b \<and> anchor_preimage ''h'' ''u'' \<noteq> anchor_preimage ''h'' ''t''"
  using anchor_binds [OF demo_anchor, of "''h''" "''u''"] by (simp add: MAX_LP_LEN_def)

theorem test_anchor_roundtrip_witness:
  "verify_anchor demo None ''h'' (make_test_anchor demo ''h'' ''t'' 7 ''k'') \<lparr> test_anchor_keys = [3, 7], rfc3161_tsa_spki = [] \<rparr> = Ok ''t''"
proof (rule test_anchor_roundtrip [OF demo_ok(2)])
  show "is_ascii ''t''" by code_simp
qed (simp add: demo_def)

end
