(* ===== verification/Verdict.thy ===== *)
theory Verdict
  imports Object_Fields
begin

text \<open>
  \<open>core/src/verify/verdict.rs\<close> and \<open>core/src/verify/headline.rs\<close>: the claim decision kernel, a pure
  function of the checked facts and the caller's policy, and the headline word read from a finished
  report. Field names carry a prefix for the structure they belong to (\<open>cap_\<close>, \<open>hist_\<close>, \<open>vf_\<close>, \<open>pol_\<close>,
  \<open>cr_\<close>); the loops of the kernel over lists are structural recursions.

  The results: the claims are ordered by strength, adverse evidence dominates, more support never
  loses a claim and never refutes one, and the headline of a serialized kernel result says what the
  kernel decided.
\<close>

datatype claim_decision = Satisfied | Insufficient | Refuted

fun claim_decision_as_str :: "claim_decision \<Rightarrow> string" where
  "claim_decision_as_str Satisfied = ''satisfied''"
| "claim_decision_as_str Insufficient = ''insufficient''"
| "claim_decision_as_str Refuted = ''refuted''"

datatype requested_claim =
    Integrity | Authenticated | Authorized | HistoricalAuthorizedAsOfSnapshot | CompleteBrokered | CompleteIntrospected

fun requested_claim_as_str :: "requested_claim \<Rightarrow> string" where
  "requested_claim_as_str Integrity = ''integrity''"
| "requested_claim_as_str Authenticated = ''authenticated''"
| "requested_claim_as_str Authorized = ''authorized''"
| "requested_claim_as_str HistoricalAuthorizedAsOfSnapshot = ''historical_authorized_as_of_snapshot''"
| "requested_claim_as_str CompleteBrokered = ''complete_brokered''"
| "requested_claim_as_str CompleteIntrospected = ''complete_introspected''"

datatype revocation_requirement = Pinned | Disclosed | Merkle | Both

record claim_policy =
  pol_requested :: requested_claim
  pol_revocation :: revocation_requirement
  pol_require_disclosure :: bool
  pol_require_attestation :: bool

definition claim_policy_default :: claim_policy where
  "claim_policy_default = \<lparr> pol_requested = Integrity, pol_revocation = Pinned, pol_require_disclosure = False,
     pol_require_attestation = False \<rparr>"

text \<open>The error texts of \<open>parse\<close>, one constructor per text.\<close>

datatype policy_error = PolNotObject | PolUnknownField string | PolRequestedInvalid | PolRevocationInvalid | PolNotBoolean string

definition parse_requested :: "canon_value option \<Rightarrow> (requested_claim, policy_error) result" where
  "parse_requested v =
     (case v of
        None \<Rightarrow> Ok Integrity
      | Some (Str s) \<Rightarrow>
          if s = ''integrity'' then Ok Integrity
          else if s = ''authenticated'' then Ok Authenticated
          else if s = ''authorized'' then Ok Authorized
          else if s = ''historical_authorized_as_of_snapshot'' then Ok HistoricalAuthorizedAsOfSnapshot
          else if s = ''complete_brokered'' then Ok CompleteBrokered
          else if s = ''complete_introspected'' then Ok CompleteIntrospected
          else Err PolRequestedInvalid
      | Some _ \<Rightarrow> Err PolRequestedInvalid)"

definition parse_revocation :: "canon_value option \<Rightarrow> (revocation_requirement, policy_error) result" where
  "parse_revocation v =
     (case v of
        None \<Rightarrow> Ok Pinned
      | Some (Str s) \<Rightarrow>
          if s = ''pinned'' then Ok Pinned
          else if s = ''disclosed'' then Ok Disclosed
          else if s = ''merkle'' then Ok Merkle
          else if s = ''both'' then Ok Both
          else Err PolRevocationInvalid
      | Some _ \<Rightarrow> Err PolRevocationInvalid)"

definition policy_bool_field :: "canon_value \<Rightarrow> string \<Rightarrow> (bool, policy_error) result" where
  "policy_bool_field raw name =
     (case get raw name of None \<Rightarrow> Ok False | Some (Bool b) \<Rightarrow> Ok b | Some _ \<Rightarrow> Err (PolNotBoolean name))"

fun check_policy_keys :: "(string \<times> canon_value) list \<Rightarrow> (unit, policy_error) result" where
  "check_policy_keys [] = Ok ()"
| "check_policy_keys ((key, _) # fs) =
     (if key \<notin> set [''requested'', ''revocation'', ''require_disclosure'', ''require_attestation'']
      then Err (PolUnknownField key) else check_policy_keys fs)"

definition claim_policy_parse :: "canon_value \<Rightarrow> (claim_policy, policy_error) result" where
  "claim_policy_parse opts =
     (case get opts ''claim_policy'' of
        None \<Rightarrow> Ok claim_policy_default
      | Some raw \<Rightarrow>
          bind_result (ok_or (as_object raw) PolNotObject) (\<lambda>fs.
          bind_result (check_policy_keys fs) (\<lambda>_.
          bind_result (parse_requested (get raw ''requested'')) (\<lambda>requested.
          bind_result (parse_revocation (get raw ''revocation'')) (\<lambda>revocation.
          bind_result (policy_bool_field raw ''require_disclosure'') (\<lambda>require_disclosure.
          bind_result (policy_bool_field raw ''require_attestation'') (\<lambda>require_attestation.
          Ok \<lparr> pol_requested = requested, pol_revocation = revocation, pol_require_disclosure = require_disclosure,
               pol_require_attestation = require_attestation \<rparr>)))))))"

record claim_results =
  cr_integrity :: claim_decision
  cr_authenticated :: claim_decision
  cr_authorized :: claim_decision
  cr_historical :: claim_decision
  cr_temporal :: claim_decision
  cr_complete_brokered :: claim_decision
  cr_complete_introspected :: claim_decision
  cr_requested :: requested_claim
  cr_requested_decision :: claim_decision

definition claim_results_fatal :: claim_results where
  "claim_results_fatal = \<lparr> cr_integrity = Refuted, cr_authenticated = Refuted, cr_authorized = Refuted, cr_historical = Refuted,
     cr_temporal = Refuted, cr_complete_brokered = Refuted, cr_complete_introspected = Refuted,
     cr_requested = Integrity, cr_requested_decision = Refuted \<rparr>"

text \<open>\<open>to_canon\<close> unwraps the result of \<open>CanonValue::object\<close>: an \<open>Err\<close> here is its panic.\<close>

definition claim_results_to_canon :: "(string \<Rightarrow> string) \<Rightarrow> claim_results \<Rightarrow> (canon_value, string) result" where
  "claim_results_to_canon uni r =
     (let field = (\<lambda>name v. (name, string_value uni (claim_decision_as_str v)))
      in object uni
           [field ''integrity'' (cr_integrity r), field ''authenticated'' (cr_authenticated r),
            field ''authorized'' (cr_authorized r), field ''historical_authorized_as_of_snapshot'' (cr_historical r),
            field ''temporal'' (cr_temporal r), field ''complete_brokered'' (cr_complete_brokered r),
            field ''complete_introspected'' (cr_complete_introspected r),
            (''requested'', string_value uni (requested_claim_as_str (cr_requested r))),
            field ''requested_decision'' (cr_requested_decision r)])"

section \<open>The checked facts\<close>

record pinned_record_seal =
  seal_record_hash :: string
  seal_key_bytes :: bytes

record anchored_checkpoint =
  anc_checkpoint_hash :: string
  anc_timestamp :: string
  anc_sequence :: int

record capstone_facts =
  cap_manifest :: bool
  cap_two_phase :: bool
  cap_no_incomplete_intent :: bool
  cap_taxonomy :: bool
  cap_every_action_verified :: bool
  cap_every_pop_reverified :: bool
  cap_grant_log :: bool
  cap_attestation :: bool
  cap_no_violation :: bool
  cap_no_pending :: bool
  cap_bounded_reuse :: bool
  cap_cosignatures :: bool
  cap_delegation :: bool
  cap_revocation :: bool
  cap_federation :: bool
  cap_coverage :: bool
  cap_brokered_surface :: bool
  cap_introspected_surface :: bool

definition capstone_base :: "capstone_facts \<Rightarrow> bool" where
  "capstone_base c \<longleftrightarrow>
     cap_manifest c \<and> cap_two_phase c \<and> cap_no_incomplete_intent c \<and> cap_taxonomy c \<and> cap_every_action_verified c
     \<and> cap_every_pop_reverified c \<and> cap_grant_log c \<and> cap_attestation c \<and> cap_no_violation c \<and> cap_no_pending c
     \<and> cap_bounded_reuse c \<and> cap_cosignatures c \<and> cap_delegation c \<and> cap_revocation c \<and> cap_federation c \<and> cap_coverage c"

definition capstone_brokered :: "capstone_facts \<Rightarrow> bool" where
  "capstone_brokered c \<longleftrightarrow> capstone_base c \<and> cap_brokered_surface c"

definition capstone_introspected :: "capstone_facts \<Rightarrow> bool" where
  "capstone_introspected c \<longleftrightarrow> capstone_base c \<and> cap_introspected_surface c"

record historical_facts =
  hist_selected :: bool
  hist_snapshot_verified :: bool
  hist_brokered_use_valid :: bool
  hist_introspected_use_valid :: bool
  hist_adverse :: bool
  hist_checked_contradiction :: bool
  hist_v2_list_usable :: bool
  hist_v2_merkle_usable :: bool
  hist_merkle_paths_complete :: bool

record validated_facts =
  vf_historical :: historical_facts
  vf_structural_integrity :: bool
  vf_record_count :: nat
  vf_pinned_record_seals :: "pinned_record_seal list"
  vf_pinned_signer_keys :: "bytes list"
  vf_pinned_role_authority :: bool
  vf_latest_checkpoint_sequence :: int
  vf_anchors :: "anchored_checkpoint list"
  vf_attestation_valid :: bool
  vf_brokered_use_valid :: bool
  vf_introspected_use_valid :: bool
  vf_capstone :: capstone_facts
  vf_immutable_record_contradiction :: bool
  vf_checked_contradiction :: bool
  vf_adverse_disclosure :: bool
  vf_adverse_anchor :: bool
  vf_revoked_membership :: bool
  vf_revocation_issuer_pinned :: bool
  vf_disclosed_revocation_fresh :: bool
  vf_merkle_revocation_fresh :: bool
  vf_merkle_nonmembership_complete :: bool
  vf_disclosure_complete :: bool
  vf_policy :: claim_policy

section \<open>The kernel\<close>

fun key_pinned :: "bytes list \<Rightarrow> bytes \<Rightarrow> bool" where
  "key_pinned [] key = False"
| "key_pinned (k # keys) key = (if k \<noteq> key then key_pinned keys key else True)"

definition seal_pinned :: "pinned_record_seal \<Rightarrow> bytes list \<Rightarrow> bool" where
  "seal_pinned sl keys \<longleftrightarrow> seal_record_hash sl \<noteq> [] \<and> key_pinned keys (seal_key_bytes sl)"

fun seals_pinned :: "pinned_record_seal list \<Rightarrow> bytes list \<Rightarrow> bool" where
  "seals_pinned [] keys = True"
| "seals_pinned (sl # seals) keys = (if seal_pinned sl keys then seals_pinned seals keys else False)"

definition anchors_checkpoint :: "anchored_checkpoint \<Rightarrow> int \<Rightarrow> bool" where
  "anchors_checkpoint a sequence \<longleftrightarrow> anc_sequence a = sequence \<and> anc_checkpoint_hash a \<noteq> [] \<and> anc_timestamp a \<noteq> []"

fun anchored_at :: "anchored_checkpoint list \<Rightarrow> int \<Rightarrow> bool" where
  "anchored_at [] sequence = False"
| "anchored_at (a # anchors) sequence = (if \<not> anchors_checkpoint a sequence then anchored_at anchors sequence else True)"

definition decision :: "bool \<Rightarrow> bool \<Rightarrow> claim_decision" where
  "decision refuted satisfied = (if refuted then Refuted else if satisfied then Satisfied else Insufficient)"

definition pinned_record_keys :: "validated_facts \<Rightarrow> bool" where
  "pinned_record_keys f \<longleftrightarrow>
     vf_record_count f > 0 \<and> length (vf_pinned_record_seals f) = vf_record_count f
     \<and> seals_pinned (vf_pinned_record_seals f) (vf_pinned_signer_keys f)"

definition revocation_ready :: "validated_facts \<Rightarrow> bool" where
  "revocation_ready f \<longleftrightarrow>
     (case pol_revocation (vf_policy f) of
        Pinned \<Rightarrow> \<not> vf_revocation_issuer_pinned f \<or> vf_disclosed_revocation_fresh f
      | Disclosed \<Rightarrow> vf_revocation_issuer_pinned f \<and> vf_disclosed_revocation_fresh f
      | Merkle \<Rightarrow> vf_revocation_issuer_pinned f \<and> vf_merkle_revocation_fresh f \<and> vf_merkle_nonmembership_complete f
      | Both \<Rightarrow> vf_revocation_issuer_pinned f \<and> vf_disclosed_revocation_fresh f
          \<and> vf_merkle_revocation_fresh f \<and> vf_merkle_nonmembership_complete f)"

definition adverse :: "validated_facts \<Rightarrow> bool" where
  "adverse f \<longleftrightarrow>
     vf_immutable_record_contradiction f \<or> vf_checked_contradiction f \<or> vf_revoked_membership f
     \<or> vf_adverse_disclosure f \<or> vf_adverse_anchor f"

definition policy_evidence_ready :: "validated_facts \<Rightarrow> bool" where
  "policy_evidence_ready f \<longleftrightarrow>
     (\<not> pol_require_disclosure (vf_policy f) \<or> vf_disclosure_complete f)
     \<and> (\<not> pol_require_attestation (vf_policy f) \<or> vf_attestation_valid f)"

definition authorization_ready :: "validated_facts \<Rightarrow> bool \<Rightarrow> bool" where
  "authorization_ready f revocation \<longleftrightarrow>
     vf_pinned_role_authority f \<and> revocation \<and> policy_evidence_ready f
     \<and> (vf_brokered_use_valid f \<or> vf_introspected_use_valid f)"

definition authorization_refuted :: "validated_facts \<Rightarrow> bool" where
  "authorization_refuted f \<longleftrightarrow> \<not> vf_structural_integrity f \<or> adverse f"

definition authorized :: "validated_facts \<Rightarrow> bool \<Rightarrow> bool \<Rightarrow> bool" where
  "authorized f record_keys revocation \<longleftrightarrow> vf_structural_integrity f \<and> record_keys \<and> authorization_ready f revocation"

definition temporal :: "validated_facts \<Rightarrow> bool \<Rightarrow> bool \<Rightarrow> bool" where
  "temporal f anchored_latest revocation \<longleftrightarrow> anchored_latest \<and> vf_attestation_valid f \<and> revocation"

definition historical_revocation :: "validated_facts \<Rightarrow> bool" where
  "historical_revocation f \<longleftrightarrow>
     vf_revocation_issuer_pinned f
     \<and> (case pol_revocation (vf_policy f) of
          Pinned \<Rightarrow> True
        | Disclosed \<Rightarrow> hist_v2_list_usable (vf_historical f)
        | Merkle \<Rightarrow> hist_v2_merkle_usable (vf_historical f) \<and> hist_merkle_paths_complete (vf_historical f)
        | Both \<Rightarrow> hist_v2_list_usable (vf_historical f) \<and> hist_v2_merkle_usable (vf_historical f)
            \<and> hist_merkle_paths_complete (vf_historical f))"

definition historical_adverse :: "validated_facts \<Rightarrow> bool" where
  "historical_adverse f \<longleftrightarrow>
     vf_immutable_record_contradiction f \<or> hist_checked_contradiction (vf_historical f) \<or> vf_adverse_disclosure f
     \<or> vf_adverse_anchor f \<or> hist_adverse (vf_historical f)"

definition historical_ready :: "validated_facts \<Rightarrow> bool" where
  "historical_ready f \<longleftrightarrow>
     vf_pinned_role_authority f \<and> hist_snapshot_verified (vf_historical f) \<and> historical_revocation f
     \<and> policy_evidence_ready f
     \<and> (hist_brokered_use_valid (vf_historical f) \<or> hist_introspected_use_valid (vf_historical f))"

definition integrity_claim :: "validated_facts \<Rightarrow> claim_decision" where
  "integrity_claim f = decision (\<not> vf_structural_integrity f) True"

definition authenticated_claim :: "validated_facts \<Rightarrow> bool \<Rightarrow> claim_decision" where
  "authenticated_claim f record_keys = decision (\<not> vf_structural_integrity f) (vf_structural_integrity f \<and> record_keys)"

definition authorized_claim :: "validated_facts \<Rightarrow> bool \<Rightarrow> bool \<Rightarrow> claim_decision" where
  "authorized_claim f record_keys revocation = decision (authorization_refuted f) (authorized f record_keys revocation)"

definition temporal_claim :: "validated_facts \<Rightarrow> bool \<Rightarrow> bool \<Rightarrow> claim_decision" where
  "temporal_claim f anchored_latest revocation = decision (adverse f) (temporal f anchored_latest revocation)"

definition historical_claim :: "validated_facts \<Rightarrow> bool \<Rightarrow> claim_decision" where
  "historical_claim f record_keys =
     (let selected = hist_selected (vf_historical f); integrity = vf_structural_integrity f
      in decision (selected \<and> (\<not> integrity \<or> historical_adverse f))
                  (selected \<and> integrity \<and> record_keys \<and> historical_ready f))"

definition complete_claim :: "validated_facts \<Rightarrow> bool \<Rightarrow> bool \<Rightarrow> bool \<Rightarrow> bool \<Rightarrow> claim_decision" where
  "complete_claim f record_keys anchored_latest revocation surface =
     decision (authorization_refuted f)
       (authorized f record_keys revocation \<and> temporal f anchored_latest revocation \<and> surface)"

definition decide_claims :: "validated_facts \<Rightarrow> claim_results" where
  "decide_claims f =
     (let record_keys = pinned_record_keys f;
          anchored_latest = anchored_at (vf_anchors f) (vf_latest_checkpoint_sequence f);
          revocation = revocation_ready f;
          integrity = integrity_claim f;
          authenticated = authenticated_claim f record_keys;
          auth = authorized_claim f record_keys revocation;
          historical = historical_claim f record_keys;
          temp = temporal_claim f anchored_latest revocation;
          brokered = complete_claim f record_keys anchored_latest revocation (capstone_brokered (vf_capstone f));
          introspected = complete_claim f record_keys anchored_latest revocation (capstone_introspected (vf_capstone f));
          requested_decision =
            (case pol_requested (vf_policy f) of
               Integrity \<Rightarrow> integrity
             | Authenticated \<Rightarrow> authenticated
             | Authorized \<Rightarrow> auth
             | HistoricalAuthorizedAsOfSnapshot \<Rightarrow> historical
             | CompleteBrokered \<Rightarrow> brokered
             | CompleteIntrospected \<Rightarrow> introspected)
      in \<lparr> cr_integrity = integrity, cr_authenticated = authenticated, cr_authorized = auth, cr_historical = historical,
           cr_temporal = temp, cr_complete_brokered = brokered, cr_complete_introspected = introspected,
           cr_requested = pol_requested (vf_policy f), cr_requested_decision = requested_decision \<rparr>)"

section \<open>The headline\<close>

datatype claim_verdict = Pass | Consistent | VerdictInsufficient | Fail

fun word :: "claim_verdict \<Rightarrow> string" where
  "word Pass = ''PASS''"
| "word Consistent = ''CONSISTENT''"
| "word VerdictInsufficient = ''INSUFFICIENT''"
| "word Fail = ''FAIL''"

fun exit_code :: "claim_verdict \<Rightarrow> u8" where
  "exit_code Pass = 0"
| "exit_code Consistent = 2"
| "exit_code VerdictInsufficient = 1"
| "exit_code Fail = 1"

definition segment_residual :: "canon_value \<Rightarrow> bool" where
  "segment_residual report =
     (case get report ''segment'' of
        None \<Rightarrow> False
      | Some sg \<Rightarrow>
          field_str sg ''link'' = Some ''base_unpinned''
          \<or> (case Option.bind (get sg ''not_evaluated'') as_array of
               None \<Rightarrow> False
             | Some a \<Rightarrow> list_ex (\<lambda>x. as_str x \<in> {Some ''record_completeness'', Some ''cross_month_uses''}) a))"

definition month_claim_verdict :: "canon_value \<Rightarrow> bool \<Rightarrow> claim_verdict" where
  "month_claim_verdict report cap_segment_residual =
     (let flag = (\<lambda>k. get report k = Some (Bool True));
          claims = get report ''claims'';
          requested = Option.bind claims (\<lambda>c. field_str c ''requested'');
          dec = Option.bind claims (\<lambda>c. field_str c ''requested_decision'');
          known_claim = requested \<in> Some ` set [''integrity'', ''authenticated'', ''authorized'',
            ''historical_authorized_as_of_snapshot'', ''complete_brokered'', ''complete_introspected''];
          known_decision = dec \<in> {Some ''satisfied'', Some ''insufficient'', Some ''refuted''};
          own_field = (case (claims, requested) of (Some c, Some r) \<Rightarrow> field_str c r | _ \<Rightarrow> None);
          valid = (field_str report ''claims_version'' = Some ''2'' \<and> known_claim \<and> known_decision \<and> own_field = dec)
      in if \<not> flag ''ok'' \<or> (valid \<and> dec = Some ''refuted'') then Fail
         else if \<not> valid \<or> dec = Some ''insufficient'' \<or> (cap_segment_residual \<and> segment_residual report) then VerdictInsufficient
         else if flag ''keys_externally_pinned'' then Pass
         else Consistent)"

definition report_claim_verdict :: "canon_value \<Rightarrow> claim_verdict" where
  "report_claim_verdict report = month_claim_verdict report True"

section \<open>What the claims mean\<close>

lemma key_pinned_iff [simp]: "key_pinned keys key \<longleftrightarrow> key \<in> set keys"
  by (induction keys) auto

lemma seals_pinned_iff [simp]: "seals_pinned seals keys \<longleftrightarrow> list_all (\<lambda>sl. seal_pinned sl keys) seals"
  by (induction seals) auto

lemma anchored_at_iff [simp]: "anchored_at anchors n \<longleftrightarrow> list_ex (\<lambda>a. anchors_checkpoint a n) anchors"
  by (induction anchors) auto

lemma decision_iff [simp]:
  "decision r s = Refuted \<longleftrightarrow> r" "decision r s = Satisfied \<longleftrightarrow> \<not> r \<and> s" "decision r s = Insufficient \<longleftrightarrow> \<not> r \<and> \<not> s"
  by (auto simp: decision_def)

lemmas claim_defs = integrity_claim_def authenticated_claim_def authorized_claim_def temporal_claim_def
  historical_claim_def complete_claim_def

lemma decide_claims_sel:
  "cr_integrity (decide_claims f) = integrity_claim f"
  "cr_authenticated (decide_claims f) = authenticated_claim f (pinned_record_keys f)"
  "cr_authorized (decide_claims f) = authorized_claim f (pinned_record_keys f) (revocation_ready f)"
  "cr_historical (decide_claims f) = historical_claim f (pinned_record_keys f)"
  "cr_temporal (decide_claims f) =
     temporal_claim f (anchored_at (vf_anchors f) (vf_latest_checkpoint_sequence f)) (revocation_ready f)"
  "cr_complete_brokered (decide_claims f) =
     complete_claim f (pinned_record_keys f) (anchored_at (vf_anchors f) (vf_latest_checkpoint_sequence f)) (revocation_ready f)
       (capstone_brokered (vf_capstone f))"
  "cr_complete_introspected (decide_claims f) =
     complete_claim f (pinned_record_keys f) (anchored_at (vf_anchors f) (vf_latest_checkpoint_sequence f)) (revocation_ready f)
       (capstone_introspected (vf_capstone f))"
  "cr_requested (decide_claims f) = pol_requested (vf_policy f)"
  by (simp_all add: decide_claims_def Let_def)

text \<open>The decision recorded for a claim, by the claim's name: what the policy's request selects.\<close>

fun claim_of :: "requested_claim \<Rightarrow> claim_results \<Rightarrow> claim_decision" where
  "claim_of Integrity r = cr_integrity r"
| "claim_of Authenticated r = cr_authenticated r"
| "claim_of Authorized r = cr_authorized r"
| "claim_of HistoricalAuthorizedAsOfSnapshot r = cr_historical r"
| "claim_of CompleteBrokered r = cr_complete_brokered r"
| "claim_of CompleteIntrospected r = cr_complete_introspected r"

lemma requested_decision_eq:
  "cr_requested_decision (decide_claims f) = claim_of (pol_requested (vf_policy f)) (decide_claims f)"
  by (cases "pol_requested (vf_policy f)") (simp_all add: decide_claims_def Let_def)

text \<open>
  Two sets of facts about the same history under the same policy: the same records, checkpoints and
  adverse findings, with at least as much support in the second. Pinning a revocation issuer is not
  support (under the default mode it adds an obligation), so both agree on it.
\<close>

definition same_history :: "validated_facts \<Rightarrow> validated_facts \<Rightarrow> bool" where
  "same_history f g \<longleftrightarrow>
     vf_policy f = vf_policy g \<and> vf_structural_integrity f = vf_structural_integrity g \<and> vf_record_count f = vf_record_count g
     \<and> vf_pinned_record_seals f = vf_pinned_record_seals g
     \<and> vf_latest_checkpoint_sequence f = vf_latest_checkpoint_sequence g
     \<and> vf_revocation_issuer_pinned f = vf_revocation_issuer_pinned g
     \<and> hist_selected (vf_historical f) = hist_selected (vf_historical g)
     \<and> adverse f = adverse g \<and> historical_adverse f = historical_adverse g"

definition capstone_le :: "capstone_facts \<Rightarrow> capstone_facts \<Rightarrow> bool" where
  "capstone_le c d \<longleftrightarrow>
     cap_manifest c \<le> cap_manifest d \<and> cap_two_phase c \<le> cap_two_phase d
     \<and> cap_no_incomplete_intent c \<le> cap_no_incomplete_intent d \<and> cap_taxonomy c \<le> cap_taxonomy d
     \<and> cap_every_action_verified c \<le> cap_every_action_verified d
     \<and> cap_every_pop_reverified c \<le> cap_every_pop_reverified d \<and> cap_grant_log c \<le> cap_grant_log d
     \<and> cap_attestation c \<le> cap_attestation d \<and> cap_no_violation c \<le> cap_no_violation d \<and> cap_no_pending c \<le> cap_no_pending d
     \<and> cap_bounded_reuse c \<le> cap_bounded_reuse d \<and> cap_cosignatures c \<le> cap_cosignatures d
     \<and> cap_delegation c \<le> cap_delegation d \<and> cap_revocation c \<le> cap_revocation d \<and> cap_federation c \<le> cap_federation d
     \<and> cap_coverage c \<le> cap_coverage d \<and> cap_brokered_surface c \<le> cap_brokered_surface d
     \<and> cap_introspected_surface c \<le> cap_introspected_surface d"

definition historical_le :: "historical_facts \<Rightarrow> historical_facts \<Rightarrow> bool" where
  "historical_le h k \<longleftrightarrow>
     hist_snapshot_verified h \<le> hist_snapshot_verified k \<and> hist_brokered_use_valid h \<le> hist_brokered_use_valid k
     \<and> hist_introspected_use_valid h \<le> hist_introspected_use_valid k \<and> hist_v2_list_usable h \<le> hist_v2_list_usable k
     \<and> hist_v2_merkle_usable h \<le> hist_v2_merkle_usable k \<and> hist_merkle_paths_complete h \<le> hist_merkle_paths_complete k"

definition support_le :: "validated_facts \<Rightarrow> validated_facts \<Rightarrow> bool" where
  "support_le f g \<longleftrightarrow>
     same_history f g \<and> capstone_le (vf_capstone f) (vf_capstone g) \<and> historical_le (vf_historical f) (vf_historical g)
     \<and> set (vf_pinned_signer_keys f) \<subseteq> set (vf_pinned_signer_keys g) \<and> set (vf_anchors f) \<subseteq> set (vf_anchors g)
     \<and> vf_pinned_role_authority f \<le> vf_pinned_role_authority g \<and> vf_attestation_valid f \<le> vf_attestation_valid g
     \<and> vf_brokered_use_valid f \<le> vf_brokered_use_valid g \<and> vf_introspected_use_valid f \<le> vf_introspected_use_valid g
     \<and> vf_disclosed_revocation_fresh f \<le> vf_disclosed_revocation_fresh g
     \<and> vf_merkle_revocation_fresh f \<le> vf_merkle_revocation_fresh g
     \<and> vf_merkle_nonmembership_complete f \<le> vf_merkle_nonmembership_complete g
     \<and> vf_disclosure_complete f \<le> vf_disclosure_complete g"

text \<open>A decision is kept, or an insufficient one becomes satisfied.\<close>

definition improves :: "claim_decision \<Rightarrow> claim_decision \<Rightarrow> bool" where
  "improves d e \<longleftrightarrow> d = e \<or> d = Insufficient \<and> e = Satisfied"

lemma improves_decision: "s \<le> s' \<Longrightarrow> improves (decision r s) (decision r s')"
  by (auto simp: improves_def decision_def)

text \<open>Each ingredient of the decisions grows with support.\<close>

lemma historyD:
  assumes "same_history f g"
  shows "vf_policy f = vf_policy g" "vf_structural_integrity f = vf_structural_integrity g"
    "vf_record_count f = vf_record_count g" "vf_pinned_record_seals f = vf_pinned_record_seals g"
    "vf_latest_checkpoint_sequence f = vf_latest_checkpoint_sequence g"
    "vf_revocation_issuer_pinned f = vf_revocation_issuer_pinned g"
    "hist_selected (vf_historical f) = hist_selected (vf_historical g)"
    "adverse f = adverse g" "historical_adverse f = historical_adverse g"
  using assms unfolding same_history_def by blast+

lemma supportD:
  assumes "support_le f g"
  shows "same_history f g" "capstone_le (vf_capstone f) (vf_capstone g)" "historical_le (vf_historical f) (vf_historical g)"
    "set (vf_pinned_signer_keys f) \<subseteq> set (vf_pinned_signer_keys g)" "set (vf_anchors f) \<subseteq> set (vf_anchors g)"
    "vf_pinned_role_authority f \<le> vf_pinned_role_authority g" "vf_attestation_valid f \<le> vf_attestation_valid g"
    "vf_brokered_use_valid f \<or> vf_introspected_use_valid f \<Longrightarrow> vf_brokered_use_valid g \<or> vf_introspected_use_valid g"
    "vf_disclosed_revocation_fresh f \<le> vf_disclosed_revocation_fresh g"
    "vf_merkle_revocation_fresh f \<le> vf_merkle_revocation_fresh g"
    "vf_merkle_nonmembership_complete f \<le> vf_merkle_nonmembership_complete g"
    "vf_disclosure_complete f \<le> vf_disclosure_complete g"
  using assms unfolding support_le_def by simp_all blast

lemma capstone_mono:
  assumes "capstone_le c d"
  shows "capstone_brokered c \<le> capstone_brokered d" "capstone_introspected c \<le> capstone_introspected d"
  using assms unfolding capstone_le_def capstone_brokered_def capstone_introspected_def capstone_base_def by simp_all

lemma record_keys_mono:
  assumes "support_le f g"
  shows "pinned_record_keys f \<le> pinned_record_keys g"
  unfolding pinned_record_keys_def historyD [OF supportD(1) [OF assms]]
  using supportD(4) [OF assms] by (auto simp: list_all_iff seal_pinned_def)

lemma revocation_mono:
  assumes "support_le f g"
  shows "revocation_ready f \<le> revocation_ready g"
  unfolding revocation_ready_def historyD [OF supportD(1) [OF assms]]
  using supportD(9-11) [OF assms] by (cases "pol_revocation (vf_policy g)") auto

lemma anchored_mono:
  assumes "support_le f g"
  shows "anchored_at (vf_anchors f) (vf_latest_checkpoint_sequence f) \<le> anchored_at (vf_anchors g) (vf_latest_checkpoint_sequence g)"
  unfolding historyD [OF supportD(1) [OF assms]] using supportD(5) [OF assms] by (auto simp: list_ex_iff)

lemma evidence_mono:
  assumes "support_le f g"
  shows "policy_evidence_ready f \<le> policy_evidence_ready g"
  unfolding policy_evidence_ready_def historyD [OF supportD(1) [OF assms]] using supportD(7,12) [OF assms] by auto

lemma historical_mono:
  assumes "support_le f g"
  shows "historical_ready f \<le> historical_ready g"
proof -
  have "historical_revocation f \<le> historical_revocation g"
    unfolding historical_revocation_def historyD [OF supportD(1) [OF assms]]
    using supportD(3) [OF assms] by (cases "pol_revocation (vf_policy g)") (auto simp: historical_le_def)
  then show ?thesis
    unfolding historical_ready_def using supportD(3,6) [OF assms] evidence_mono [OF assms] by (auto simp: historical_le_def)
qed

lemma authorized_mono:
  assumes "support_le f g" "k \<le> k'" "r \<le> r'"
  shows "authorized f k r \<le> authorized g k' r'"
  unfolding authorized_def authorization_ready_def historyD [OF supportD(1) [OF assms(1)]]
  using supportD(6,8) [OF assms(1)] evidence_mono [OF assms(1)] assms(2,3) by auto

lemma temporal_mono:
  assumes "support_le f g" "a \<le> a'" "r \<le> r'"
  shows "temporal f a r \<le> temporal g a' r'"
  unfolding temporal_def using supportD(7) [OF assms(1)] assms(2,3) by auto

lemma claims_improve:
  assumes le: "support_le f g"
  defines "r \<equiv> decide_claims f" and "s \<equiv> decide_claims g"
  shows "improves (cr_integrity r) (cr_integrity s)" "improves (cr_authenticated r) (cr_authenticated s)"
    "improves (cr_authorized r) (cr_authorized s)" "improves (cr_historical r) (cr_historical s)"
    "improves (cr_temporal r) (cr_temporal s)" "improves (cr_complete_brokered r) (cr_complete_brokered s)"
    "improves (cr_complete_introspected r) (cr_complete_introspected s)"
proof -
  note h = historyD [OF supportD(1) [OF le]]
  note mono = record_keys_mono [OF le] revocation_mono [OF le] anchored_mono [OF le]
  note am = authorized_mono [OF le mono(1) mono(2)] and tm = temporal_mono [OF le mono(3) mono(2)]
  note sel = decide_claims_sel claim_defs authorization_refuted_def Let_def h(2,7,8,9)
  show "improves (cr_integrity r) (cr_integrity s)" unfolding r_def s_def sel by (rule improves_decision) simp
  show "improves (cr_authenticated r) (cr_authenticated s)"
    unfolding r_def s_def sel by (rule improves_decision) (use mono(1) in auto)
  show "improves (cr_authorized r) (cr_authorized s)" unfolding r_def s_def sel by (rule improves_decision) (rule am)
  show "improves (cr_historical r) (cr_historical s)"
    unfolding r_def s_def sel by (rule improves_decision) (use mono(1) historical_mono [OF le] in auto)
  show "improves (cr_temporal r) (cr_temporal s)" unfolding r_def s_def sel by (rule improves_decision) (rule tm)
  show "improves (cr_complete_brokered r) (cr_complete_brokered s)"
    unfolding r_def s_def sel by (rule improves_decision) (use am tm capstone_mono(1) [OF supportD(2) [OF le]] in auto)
  show "improves (cr_complete_introspected r) (cr_complete_introspected s)"
    unfolding r_def s_def sel by (rule improves_decision) (use am tm capstone_mono(2) [OF supportD(2) [OF le]] in auto)
qed

section \<open>The headline of a serialized decision\<close>

lemma claim_key_ascii:
  "is_ascii (claim_decision_as_str d)" "is_ascii (requested_claim_as_str c)"
  "is_ascii ''temporal''" "is_ascii ''requested''" "is_ascii ''requested_decision''"
proof -
  show "is_ascii (claim_decision_as_str d)" by (cases d; clarsimp; code_simp)
  show "is_ascii (requested_claim_as_str c)" by (cases c; clarsimp; code_simp)
qed code_simp+

lemma claim_text_inject:
  "claim_decision_as_str d = claim_decision_as_str e \<longleftrightarrow> d = e"
  "claim_decision_as_str d = ''satisfied'' \<longleftrightarrow> d = Satisfied"
  "claim_decision_as_str d = ''insufficient'' \<longleftrightarrow> d = Insufficient"
  "claim_decision_as_str d = ''refuted'' \<longleftrightarrow> d = Refuted"
  by (cases d; cases e; simp)+

lemma claims_to_canon:
  "claim_results_to_canon uni r = Ok (Object
     [(''integrity'', Str (claim_decision_as_str (cr_integrity r))),
      (''authenticated'', Str (claim_decision_as_str (cr_authenticated r))),
      (''authorized'', Str (claim_decision_as_str (cr_authorized r))),
      (''historical_authorized_as_of_snapshot'', Str (claim_decision_as_str (cr_historical r))),
      (''temporal'', Str (claim_decision_as_str (cr_temporal r))),
      (''complete_brokered'', Str (claim_decision_as_str (cr_complete_brokered r))),
      (''complete_introspected'', Str (claim_decision_as_str (cr_complete_introspected r))),
      (''requested'', Str (requested_claim_as_str (cr_requested r))),
      (''requested_decision'', Str (claim_decision_as_str (cr_requested_decision r)))])"
proof -
  have "is_ascii ''integrity''" "is_ascii ''authenticated''" "is_ascii ''authorized''"
    "is_ascii ''historical_authorized_as_of_snapshot''" "is_ascii ''complete_brokered''" "is_ascii ''complete_introspected''"
    by code_simp+
  then show ?thesis
    unfolding claim_results_to_canon_def Let_def object_def by (simp add: claim_key_ascii string_value_def)
qed

lemma claims_fields:
  assumes "claim_results_to_canon uni r = Ok c"
  shows "field_str c ''requested'' = Some (requested_claim_as_str (cr_requested r))"
    "field_str c ''requested_decision'' = Some (claim_decision_as_str (cr_requested_decision r))"
    "field_str c (requested_claim_as_str q) = Some (claim_decision_as_str (claim_of q r))"
proof -
  note c = assms [unfolded claims_to_canon result.inject, symmetric]
  show "field_str c ''requested'' = Some (requested_claim_as_str (cr_requested r))"
    "field_str c ''requested_decision'' = Some (claim_decision_as_str (cr_requested_decision r))"
    unfolding c field_str_def get_Object by (simp_all add: as_str_def)
  show "field_str c (requested_claim_as_str q) = Some (claim_decision_as_str (claim_of q r))"
    unfolding c field_str_def get_Object by (cases q) (simp_all add: as_str_def)
qed

text \<open>The headline rule over the kernel's own decision: what \<open>month_claim_verdict\<close> computes from text.\<close>

definition headline :: "canon_value \<Rightarrow> bool \<Rightarrow> claim_decision \<Rightarrow> claim_verdict" where
  "headline report cap d =
     (if get report ''ok'' \<noteq> Some (Bool True) \<or> d = Refuted then Fail
      else if d = Insufficient \<or> cap \<and> segment_residual report then VerdictInsufficient
      else if get report ''keys_externally_pinned'' = Some (Bool True) then Pass
      else Consistent)"

text \<open>C31: The claims object of a report is always built, its requested decision is the decision the kernel made for the
  claim the caller's policy asked for, and the headline read back from the report's text is the one that decision gives:
  no re-reading of the report's strings changes the kernel's answer.\<close>

theorem headline_is_decision:
  assumes "get report ''claims'' = Some c" "claim_results_to_canon uni (decide_claims f) = Ok c"
    and "get report ''claims_version'' = Some (Str ''2'')"
  shows "month_claim_verdict report cap = headline report cap (claim_of (pol_requested (vf_policy f)) (decide_claims f))"
proof -
  note fs = claims_fields [OF assms(2)]
  have v: "field_str report ''claims_version'' = Some ''2''" using assms(3) by (simp add: field_str_def as_str_def)
  let ?q = "pol_requested (vf_policy f)"
  have k: "Some (requested_claim_as_str ?q) \<in> Some ` set [''integrity'', ''authenticated'', ''authorized'',
      ''historical_authorized_as_of_snapshot'', ''complete_brokered'', ''complete_introspected''] \<longleftrightarrow> True"
    by (cases ?q) simp_all
  have d: "Some (claim_decision_as_str e) \<in> {Some ''satisfied'', Some ''insufficient'', Some ''refuted''} \<longleftrightarrow> True" for e
    by (cases e) simp_all
  show ?thesis
    unfolding month_claim_verdict_def Let_def assms(1) bind.bind_lunit fs v decide_claims_sel(8) k d requested_decision_eq
    by (simp add: fs(3) headline_def claim_text_inject del: claim_of.simps)
qed

text \<open>Concrete facts for the witnesses: one record sealed by a pinned key, a verified latest anchor and every
  supporting check passed; \<open>bare_facts\<close> drops the support.\<close>

definition demo_capstone :: "bool \<Rightarrow> capstone_facts" where
  "demo_capstone b = \<lparr> cap_manifest = b, cap_two_phase = b, cap_no_incomplete_intent = b, cap_taxonomy = b,
     cap_every_action_verified = b, cap_every_pop_reverified = b, cap_grant_log = b, cap_attestation = b,
     cap_no_violation = b, cap_no_pending = b, cap_bounded_reuse = b, cap_cosignatures = b, cap_delegation = b,
     cap_revocation = b, cap_federation = b, cap_coverage = b, cap_brokered_surface = b, cap_introspected_surface = False \<rparr>"

definition demo_facts :: "bool \<Rightarrow> validated_facts" where
  "demo_facts b = \<lparr>
     vf_historical = \<lparr> hist_selected = True, hist_snapshot_verified = b, hist_brokered_use_valid = b,
       hist_introspected_use_valid = False, hist_adverse = False, hist_checked_contradiction = False,
       hist_v2_list_usable = b, hist_v2_merkle_usable = b, hist_merkle_paths_complete = b \<rparr>,
     vf_structural_integrity = True, vf_record_count = 1,
     vf_pinned_record_seals = [\<lparr> seal_record_hash = ''h'', seal_key_bytes = [7] \<rparr>],
     vf_pinned_signer_keys = (if b then [[7]] else []), vf_pinned_role_authority = b, vf_latest_checkpoint_sequence = 3,
     vf_anchors = (if b then [\<lparr> anc_checkpoint_hash = ''c'', anc_timestamp = ''t'', anc_sequence = 3 \<rparr>] else []),
     vf_attestation_valid = b, vf_brokered_use_valid = b, vf_introspected_use_valid = False, vf_capstone = demo_capstone b,
     vf_immutable_record_contradiction = False, vf_checked_contradiction = False, vf_adverse_disclosure = False,
     vf_adverse_anchor = False, vf_revoked_membership = False, vf_revocation_issuer_pinned = True,
     vf_disclosed_revocation_fresh = b, vf_merkle_revocation_fresh = b, vf_merkle_nonmembership_complete = b,
     vf_disclosure_complete = b,
     vf_policy = \<lparr> pol_requested = CompleteBrokered, pol_revocation = Both, pol_require_disclosure = True,
       pol_require_attestation = True \<rparr> \<rparr>"

lemma demo_decisions:
  "cr_complete_brokered (decide_claims (demo_facts True)) = Satisfied"
  "cr_historical (decide_claims (demo_facts True)) = Satisfied"
  "cr_complete_introspected (decide_claims (demo_facts True)) = Insufficient"
  "cr_authenticated (decide_claims (demo_facts False)) = Insufficient"
  by code_simp+

lemma demo_support: "support_le (demo_facts False) (demo_facts True)"
  unfolding support_le_def same_history_def capstone_le_def historical_le_def adverse_def historical_adverse_def
  by (simp add: demo_facts_def demo_capstone_def)

section \<open>Guarantees\<close>

text \<open>C29: Claims are ordered by strength: a complete claim holds only with the authorized and the temporal ones, the
  authorized and the historical ones only with the authenticated one, and that one only with integrity.\<close>

theorem claim_order:
  assumes "r = decide_claims f"
  shows "(cr_complete_brokered r = Satisfied \<or> cr_complete_introspected r = Satisfied
            \<longrightarrow> cr_authorized r = Satisfied \<and> cr_temporal r = Satisfied)
    \<and> (cr_authorized r = Satisfied \<or> cr_historical r = Satisfied \<longrightarrow> cr_authenticated r = Satisfied)
    \<and> (cr_authenticated r = Satisfied \<longrightarrow> cr_integrity r = Satisfied)"
  unfolding assms decide_claims_sel claim_defs Let_def
  by (auto simp: authorization_refuted_def authorized_def)

theorem claim_order_witness:
  "cr_authorized (decide_claims (demo_facts True)) = Satisfied \<and> cr_temporal (decide_claims (demo_facts True)) = Satisfied
   \<and> cr_authenticated (decide_claims (demo_facts True)) = Satisfied \<and> cr_integrity (decide_claims (demo_facts True)) = Satisfied"
  using claim_order [OF refl, of "demo_facts True"] demo_decisions by blast

text \<open>Adverse evidence decides, whatever the support: which facts refute which claim.\<close>

lemma refuted_exactly:
  defines "bad f \<equiv> vf_immutable_record_contradiction f \<or> vf_checked_contradiction f \<or> vf_revoked_membership f
      \<or> vf_adverse_disclosure f \<or> vf_adverse_anchor f"
  shows "cr_integrity (decide_claims f) = Refuted \<longleftrightarrow> \<not> vf_structural_integrity f"
    and "cr_authenticated (decide_claims f) = Refuted \<longleftrightarrow> \<not> vf_structural_integrity f"
    and "cr_authorized (decide_claims f) = Refuted \<longleftrightarrow> \<not> vf_structural_integrity f \<or> bad f"
    and "cr_complete_brokered (decide_claims f) = Refuted \<longleftrightarrow> \<not> vf_structural_integrity f \<or> bad f"
    and "cr_complete_introspected (decide_claims f) = Refuted \<longleftrightarrow> \<not> vf_structural_integrity f \<or> bad f"
    and "cr_temporal (decide_claims f) = Refuted \<longleftrightarrow> bad f"
    and "cr_historical (decide_claims f) = Refuted \<longleftrightarrow> hist_selected (vf_historical f)
      \<and> (\<not> vf_structural_integrity f \<or> vf_immutable_record_contradiction f \<or> hist_checked_contradiction (vf_historical f)
         \<or> vf_adverse_disclosure f \<or> vf_adverse_anchor f \<or> hist_adverse (vf_historical f))"
  unfolding bad_def decide_claims_sel claim_defs Let_def by (simp_all add: authorization_refuted_def adverse_def historical_adverse_def)

text \<open>C30: More support for the same history and policy never loses a claim and never refutes one: each of the seven
  decisions, and the requested one, is kept or goes from insufficient to satisfied.\<close>

theorem support_monotone:
  assumes "support_le f g"
  defines "r \<equiv> decide_claims f" and "s \<equiv> decide_claims g"
  shows "improves (claim_of q r) (claim_of q s) \<and> improves (cr_temporal r) (cr_temporal s)
    \<and> improves (cr_requested_decision r) (cr_requested_decision s)"
proof -
  note ci = claims_improve [OF assms(1)]
  have c: "improves (claim_of q r) (claim_of q s)" for q unfolding r_def s_def using ci by (cases q) simp_all
  moreover have "vf_policy f = vf_policy g" using historyD(1) supportD(1) assms(1) by blast
  ultimately show ?thesis using ci(5) unfolding r_def s_def requested_decision_eq by simp
qed

theorem support_monotone_witness:
  "improves (cr_historical (decide_claims (demo_facts False))) Satisfied
   \<and> improves (cr_requested_decision (decide_claims (demo_facts False))) Satisfied"
  using support_monotone [OF demo_support, of HistoricalAuthorizedAsOfSnapshot] demo_decisions
  by (simp add: requested_decision_eq) (simp add: demo_facts_def)

text \<open>The authenticated claim is satisfied exactly when integrity holds, there is at least one record, and the
  checked seals, one per record, each name a record hash and a key of the caller's pinned set.\<close>

theorem authenticated_exactly:
  "cr_authenticated (decide_claims f) = Satisfied \<longleftrightarrow>
     vf_structural_integrity f \<and> vf_record_count f \<noteq> 0 \<and> length (vf_pinned_record_seals f) = vf_record_count f
     \<and> seal_key_bytes ` set (vf_pinned_record_seals f) \<subseteq> set (vf_pinned_signer_keys f)
     \<and> [] \<notin> seal_record_hash ` set (vf_pinned_record_seals f)"
  unfolding decide_claims_sel claim_defs pinned_record_keys_def
  by (auto simp: list_all_iff seal_pinned_def image_iff)

theorem headline_is_decision_witness:
  "\<exists>c. claim_results_to_canon (\<lambda>s. s) (decide_claims (demo_facts True)) = Ok c
     \<and> month_claim_verdict (Object [(''claims'', c), (''claims_version'', Str ''2''), (''ok'', Bool True)]) True = Consistent"
proof -
  obtain c where c: "claim_results_to_canon (\<lambda>s. s) (decide_claims (demo_facts True)) = Ok c"
    using claims_to_canon by blast
  let ?rep = "Object [(''claims'', c), (''claims_version'', Str ''2''), (''ok'', Bool True)]"
  have "month_claim_verdict ?rep True
      = headline ?rep True (claim_of (pol_requested (vf_policy (demo_facts True))) (decide_claims (demo_facts True)))"
    by (rule headline_is_decision [OF _ c]) (simp_all add: get_Object)
  moreover have "pol_requested (vf_policy (demo_facts True)) = CompleteBrokered" by (simp add: demo_facts_def)
  ultimately show ?thesis
    using c demo_decisions(1) by (auto simp: headline_def get_Object segment_residual_def)
qed

end
