(* ===== verification/Refusal.thy ===== *)
theory Refusal
  imports Btree Object_Fields
begin

text \<open>
  \<open>core/src/refusal.rs\<close>: the shape check of gateway refusal records and what an accepted record
  contributes to the report. The report counts are \<open>u64\<close> words, the running sum of a summary is a
  checked \<open>i64\<close> addition.

  The result: an accepted refusal carries no authority and no broker evidence, has between one and
  \<open>MAX_ATTEMPTS\<close> attempts, names classes of the closed set only, and its counts per class add up to
  the attempts.
\<close>

definition KIND :: string where
  "KIND = ''gateway-refusal''"

definition EVENT_TYPE :: string where
  "EVENT_TYPE = ''gateway_refusal''"

definition REASON_CLASSES :: "string list" where
  "REASON_CLASSES =
     [''not_granted'', ''policy_deny'', ''kill_fence'', ''rate_limit'', ''spend_cap'', ''cross_tenant'', ''token_unusable'',
      ''llm_channel_only'', ''model_unpriced'', ''modifier_unpriced'', ''provider_disabled'', ''capability_undeclared'',
      ''approval_unavailable'', ''decision_unavailable'']"

definition ENTRY_POINTS :: "string list" where
  "ENTRY_POINTS = [''mcp'', ''execute'', ''llm'', ''approval_resume'']"

definition ALLOWED_KEYS :: "string list" where
  "ALLOWED_KEYS =
     [''v'', ''reason_class'', ''entry_point'', ''credential'', ''attempts'', ''first_at'', ''last_at'', ''summary'', ''by_class'']"

definition MAX_ATTEMPTS :: int where
  "MAX_ATTEMPTS = 1000000000"

record counted =
  cnt_attempts :: "64 word"
  cnt_by_class :: "(string \<times> 64 word) list"

text \<open>One constructor per error text.\<close>

datatype refusal_error =
    RfEventType | RfStatus | RfObservedVia | RfAction | RfAuthority | RfNoExtension | RfBroker | RfNotObject
  | RfUnknownKey string | RfVersion | RfAttempts | RfTime string | RfCredential | RfSummaryType | RfEntryPoint
  | RfSummaryReason | RfNoByClass | RfClass string | RfClassCount | RfSumOverflow | RfSum | RfNoEntryPoint
  | RfByClass | RfReason

definition is_name_byte :: "u8 \<Rightarrow> bool" where
  "is_name_byte b \<longleftrightarrow>
     0x41 \<le> b \<and> b \<le> 0x5A \<or> 0x61 \<le> b \<and> b \<le> 0x7A \<or> 0x30 \<le> b \<and> b \<le> 0x39 \<or> b \<in> {0x2E, 0x5F, 0x3A, 0x2D}"

definition is_name :: "string \<Rightarrow> bool" where
  "is_name s \<longleftrightarrow> 1 \<le> length s \<and> length s \<le> 128 \<and> list_all is_name_byte (as_bytes s)"

definition is_canonical_time :: "string \<Rightarrow> bool" where
  "is_canonical_time s =
     (let b = as_bytes s
      in length b = 24 \<and>
         list_all (\<lambda>(i, c).
           if i = 4 \<or> i = 7 then c = 0x2D
           else if i = 10 then c = 0x54
           else if i = 13 \<or> i = 16 then c = 0x3A
           else if i = 19 then c = 0x2E
           else if i = 23 then c = 0x5A
           else 0x30 \<le> c \<and> c \<le> 0x39) (zip [0..<length b] b))"

definition is_refusal :: "canon_value \<Rightarrow> bool" where
  "is_refusal rec \<longleftrightarrow> field_str rec ''record_kind'' = Some KIND"

definition int_of_value :: "canon_value \<Rightarrow> int option" where
  "int_of_value v = (case v of CInt i \<Rightarrow> Some i | _ \<Rightarrow> None)"

definition is_some_and :: "'a option \<Rightarrow> ('a \<Rightarrow> bool) \<Rightarrow> bool" where
  "is_some_and x p = (case x of None \<Rightarrow> False | Some a \<Rightarrow> p a)"

definition in_attempts :: "int \<Rightarrow> bool" where
  "in_attempts n \<longleftrightarrow> 1 \<le> n \<and> n \<le> MAX_ATTEMPTS"

definition counted_int :: "canon_value option \<Rightarrow> int option" where
  "counted_int v = Option.bind (Option.bind v int_of_value) (\<lambda>n. if in_attempts n then Some n else None)"

fun check_keys :: "(string \<times> canon_value) list \<Rightarrow> (unit, refusal_error) result" where
  "check_keys [] = Ok ()"
| "check_keys ((k, _) # ms) = (if k \<notin> set ALLOWED_KEYS then Err (RfUnknownKey k) else check_keys ms)"

fun check_times :: "canon_value \<Rightarrow> string list \<Rightarrow> (unit, refusal_error) result" where
  "check_times g [] = Ok ()"
| "check_times g (k # ks) = (if \<not> is_some_and (field_str g k) is_canonical_time then Err (RfTime k) else check_times g ks)"

definition check_credential :: "canon_value option \<Rightarrow> (unit, refusal_error) result" where
  "check_credential c = (case c of None \<Rightarrow> Ok () | Some v \<Rightarrow> if \<not> is_some_and (as_str v) is_name then Err RfCredential else Ok ())"

definition summary_of :: "canon_value option \<Rightarrow> (bool, refusal_error) result" where
  "summary_of v = (case v of None \<Rightarrow> Ok False | Some (Bool b) \<Rightarrow> Ok b | Some _ \<Rightarrow> Err RfSummaryType)"

definition check_entry :: "canon_value option \<Rightarrow> (unit, refusal_error) result" where
  "check_entry e =
     (case e of None \<Rightarrow> Ok () | Some v \<Rightarrow> if \<not> is_some_and (as_str v) (\<lambda>s. s \<in> set ENTRY_POINTS) then Err RfEntryPoint else Ok ())"

text \<open>The loop over \<open>by_class\<close>, with the running sum and the map built so far.\<close>

fun sum_classes :: "(string \<times> canon_value) list \<Rightarrow> int \<Rightarrow> (string \<times> 64 word) list
    \<Rightarrow> (int \<times> (string \<times> 64 word) list, refusal_error) result" where
  "sum_classes [] s by_class = Ok (s, by_class)"
| "sum_classes ((cls, v) # bc) s by_class =
     (if cls \<notin> set REASON_CLASSES then Err (RfClass cls)
      else bind_result (ok_or (counted_int (Some v)) RfClassCount) (\<lambda>n.
        if \<not> in_i64 (s + n) then Err RfSumOverflow
        else sum_classes bc (s + n) (bt_insert cls (i64_as_u64 n) by_class)))"

definition refusal_classes :: "canon_value \<Rightarrow> int \<Rightarrow> bool \<Rightarrow> canon_value option
    \<Rightarrow> ((string \<times> 64 word) list, refusal_error) result" where
  "refusal_classes g attempts summary entry =
     (if summary then
        (if get g ''reason_class'' \<noteq> None then Err RfSummaryReason
         else
           bind_result (ok_or (Option.bind (get g ''by_class'') as_object) RfNoByClass) (\<lambda>bc.
           bind_result (sum_classes bc 0 []) (\<lambda>(s, by_class).
           if s \<noteq> attempts then Err RfSum else Ok by_class)))
      else if entry = None then Err RfNoEntryPoint
      else if get g ''by_class'' \<noteq> None then Err RfByClass
      else
        bind_result (ok_or (Option.bind (field_str g ''reason_class'') (\<lambda>c. if c \<in> set REASON_CLASSES then Some c else None)) RfReason) (\<lambda>cls.
        Ok (bt_insert cls (i64_as_u64 attempts) [])))"

definition check_refusal_block :: "canon_value \<Rightarrow> (counted, refusal_error) result" where
  "check_refusal_block g =
     bind_result (ok_or (as_object g) RfNotObject) (\<lambda>members.
     bind_result (check_keys members) (\<lambda>_.
     if Option.bind (get g ''v'') int_of_value \<noteq> Some 1 then Err RfVersion
     else
       bind_result (ok_or (counted_int (get g ''attempts'')) RfAttempts) (\<lambda>attempts.
       bind_result (check_times g [''first_at'', ''last_at'']) (\<lambda>_.
       bind_result (check_credential (get g ''credential'')) (\<lambda>_.
       bind_result (summary_of (get g ''summary'')) (\<lambda>summary.
       bind_result (check_entry (get g ''entry_point'')) (\<lambda>_.
       bind_result (refusal_classes g attempts summary (get g ''entry_point'')) (\<lambda>by_class.
       Ok \<lparr> cnt_attempts = i64_as_u64 attempts, cnt_by_class = by_class \<rparr>))))))))"

definition check_shape :: "canon_value \<Rightarrow> (counted, refusal_error) result" where
  "check_shape rec =
     (if field_str rec ''event_type'' \<noteq> Some EVENT_TYPE then Err RfEventType
      else if field_str rec ''status'' \<noteq> Some ''refused'' then Err RfStatus
      else if field_str rec ''observed_via'' \<noteq> Some ''gateway'' then Err RfObservedVia
      else if \<not> is_some_and (field_str rec ''action'') (\<lambda>a. a = ''*'' \<or> is_name a) then Err RfAction
      else if get rec ''authority'' \<noteq> None then Err RfAuthority
      else
        bind_result (ok_or (get rec ''extensions'') RfNoExtension) (\<lambda>ext.
        if get ext ''broker'' \<noteq> None \<or> get ext ''broker_denial'' \<noteq> None then Err RfBroker
        else bind_result (ok_or (get ext ''gateway_refusal'') RfNoExtension) check_refusal_block))"

section \<open>What an accepted refusal counts\<close>

lemma counted_int_Some [simp]: "counted_int v = Some n \<longleftrightarrow> v = Some (CInt n) \<and> in_attempts n"
proof (cases v)
  case (Some w)
  then show ?thesis by (cases w) (auto simp: counted_int_def int_of_value_def)
qed (simp add: counted_int_def)

lemma unat_attempts: "in_attempts n \<Longrightarrow> unat (i64_as_u64 n) = nat n"
  by (simp add: in_attempts_def MAX_ATTEMPTS_def i64_as_u64_def unat_eq_nat_uint uint_word_of_int)

lemma in_attempts_nat: "in_attempts n \<Longrightarrow> int (nat n) = n \<and> 1 \<le> nat n \<and> int (nat n) \<le> MAX_ATTEMPTS"
  by (auto simp: in_attempts_def)

lemma sum_bt_insert:
  "k \<notin> fst ` set m \<Longrightarrow> (\<Sum>(_, w)\<leftarrow>bt_insert k v m. unat w) = unat v + (\<Sum>(_, w)\<leftarrow>m. unat w)"
  by (induction k v m rule: bt_insert.induct) auto

text \<open>With distinct classes the map built by the loop adds up to the running sum.\<close>

lemma sum_classes_total:
  assumes "sum_classes bc s m = Ok (t, m')" "distinct (map fst bc)" "fst ` set bc \<inter> fst ` set m = {}"
    and "s = int (\<Sum>(_, w)\<leftarrow>m. unat w)" "fst ` set m \<subseteq> set REASON_CLASSES"
  shows "t = int (\<Sum>(_, w)\<leftarrow>m'. unat w) \<and> fst ` set m' \<subseteq> set REASON_CLASSES"
  using assms
proof (induction bc arbitrary: s m)
  case (Cons e bc)
  then obtain cls n where e: "e = (cls, CInt n)" "cls \<in> set REASON_CLASSES" "in_attempts n"
    and rest: "sum_classes bc (s + n) (bt_insert cls (i64_as_u64 n) m) = Ok (t, m')"
    by (cases e) (auto split: if_splits)
  let ?m = "bt_insert cls (i64_as_u64 n) m"
  have keys: "fst ` set ?m = insert cls (fst ` set m)"
    using bt_insert_keys [of cls "i64_as_u64 n" m] by simp
  have fresh: "cls \<notin> fst ` set m" using Cons.prems(3) e(1) by auto
  show ?case
  proof (rule Cons.IH [OF rest])
    show "s + n = int (\<Sum>(_, w)\<leftarrow>?m. unat w)"
      using in_attempts_nat [OF e(3)] unfolding sum_bt_insert [OF fresh] of_nat_add unat_attempts [OF e(3)] Cons.prems(4) by simp
  qed (use Cons.prems e keys in auto)
qed simp

lemma refusal_classes_total:
  assumes "refusal_classes g n summary entry = Ok m" "in_attempts n"
    and "\<And>bc. get g ''by_class'' = Some (Object bc) \<Longrightarrow> distinct (map fst bc)"
  shows "(\<Sum>(_, w)\<leftarrow>m. unat w) = nat n \<and> fst ` set m \<subseteq> set REASON_CLASSES"
proof (cases summary)
  case True
  with assms(1) obtain bc where "get g ''by_class'' = Some (Object bc)" "sum_classes bc 0 [] = Ok (n, m)"
    by (auto simp: refusal_classes_def bind_eq_Some_conv as_object_def split: if_splits canon_value.splits)
  with assms(3) show ?thesis using sum_classes_total [of bc 0 "[]" n m] by auto
next
  case False
  with assms(1,2) show ?thesis
    by (auto simp: refusal_classes_def bind_eq_Some_conv unat_attempts split: if_splits)
qed

lemma check_refusal_block_Ok:
  assumes "check_refusal_block g = Ok c"
  obtains n summary where "in_attempts n" "cnt_attempts c = i64_as_u64 n"
    "refusal_classes g n summary (get g ''entry_point'') = Ok (cnt_by_class c)"
  using assms by (auto simp: check_refusal_block_def split: if_splits)

text \<open>C32: A refusal accepted in a parsed document carries no authority block and no broker evidence, has between one and
  \<open>MAX_ATTEMPTS\<close> attempts, names only classes of the closed set, and its counts per class add up to its attempts:
  every refused attempt is counted under exactly one class.\<close>

theorem refusal_accounts:
  assumes "parsed uni rec" "check_shape rec = Ok c"
  shows "get rec ''authority'' = None
    \<and> (\<exists>ext. get rec ''extensions'' = Some ext \<and> get ext ''broker'' = None \<and> get ext ''broker_denial'' = None)
    \<and> 1 \<le> unat (cnt_attempts c) \<and> int (unat (cnt_attempts c)) \<le> MAX_ATTEMPTS
    \<and> fst ` set (cnt_by_class c) \<subseteq> set REASON_CLASSES
    \<and> (\<Sum>(_, w)\<leftarrow>cnt_by_class c. unat w) = unat (cnt_attempts c)"
proof -
  obtain ext g where r: "get rec ''authority'' = None" "get rec ''extensions'' = Some ext" "get ext ''broker'' = None"
    "get ext ''broker_denial'' = None" "get ext ''gateway_refusal'' = Some g" "check_refusal_block g = Ok c"
    using assms(2) unfolding check_shape_def by (auto split: if_splits)
  obtain n summary where n: "in_attempts n" "cnt_attempts c = i64_as_u64 n"
    "refusal_classes g n summary (get g ''entry_point'') = Ok (cnt_by_class c)"
    using check_refusal_block_Ok [OF r(6)] .
  have "distinct (map fst bc)" if "get g ''by_class'' = Some (Object bc)" for bc
    using parsed_get [OF parsed_get [OF parsed_get [OF assms(1) r(2)] r(5)] that] by (simp add: parsed_Object)
  with n have "(\<Sum>(_, w)\<leftarrow>cnt_by_class c. unat w) = nat n \<and> fst ` set (cnt_by_class c) \<subseteq> set REASON_CLASSES"
    by (intro refusal_classes_total)
  moreover have "unat (cnt_attempts c) = nat n" using n(1,2) unat_attempts by simp
  ultimately show ?thesis using r in_attempts_nat [OF n(1)] by simp
qed

definition demo_refusal :: canon_value where
  "demo_refusal = Object [(''event_type'', Str ''gateway_refusal''), (''status'', Str ''refused''), (''observed_via'', Str ''gateway''),
     (''action'', Str ''*''),
     (''extensions'', Object [(''gateway_refusal'', Object
        [(''v'', CInt 1), (''attempts'', CInt 5), (''first_at'', Str ''2026-06-15T10:05:00.000Z''), (''last_at'', Str ''2026-06-15T10:05:00.000Z''),
         (''summary'', Bool True), (''by_class'', Object [(''rate_limit'', CInt 3), (''kill_fence'', CInt 2)])])])]"

theorem refusal_accounts_witness:
  "\<exists>c. check_shape demo_refusal = Ok c \<and> (\<Sum>(_, w)\<leftarrow>cnt_by_class c. unat w) = unat (cnt_attempts c) \<and> unat (cnt_attempts c) = 5"
proof -
  have p: "parsed (\<lambda>s. s) demo_refusal" unfolding demo_refusal_def by code_simp
  have c: "check_shape demo_refusal = Ok \<lparr> cnt_attempts = i64_as_u64 5, cnt_by_class = [(''kill_fence'', i64_as_u64 2), (''rate_limit'', i64_as_u64 3)] \<rparr>"
    unfolding demo_refusal_def by code_simp
  show ?thesis using refusal_accounts [OF p c] c unat_attempts [of 5] by (simp add: in_attempts_def MAX_ATTEMPTS_def)
qed

end
