(* ===== verification/Authority.thy ===== *)
theory Authority
  imports Object_Fields
begin

text \<open>
  \<open>core/src/authority.rs\<close>: authority evidence. The v3 profile signs a digest of the record's semantic
  body (the subject), the historical v2 profile signs only its identity. The code's error texts are
  the constructors of \<open>authority_error\<close>.

  The results: a record is classified as verified only with a signature, by one of the pinned keys,
  over a message that fixes its source, project, identity and subject; and evidence signed for a
  finished record verifies once it is attached, whatever the recorder's envelope adds afterwards.
\<close>

definition AUTHORITY_SIG_TAG :: string where
  "AUTHORITY_SIG_TAG = ''averin.authority.v2''"

definition AUTHORITY_SIG_TAG_V3 :: string where
  "AUTHORITY_SIG_TAG_V3 = ''averin.authority.v3''"

definition SUBJECT_PROJECTION :: string where
  "SUBJECT_PROJECTION = ''averin.authority.subject.v1''"

definition SUBJECT_HASH_TAG :: string where
  "SUBJECT_HASH_TAG = ''averin.authority.subject.digest.v1''"

definition SUBJECT_TOP_EXCLUSIONS :: "string list" where
  "SUBJECT_TOP_EXCLUSIONS = [''received_ts'', ''display_seq'', ''causal_prev_hashes'', ''key'', ''content_hash'', ''sig'']"

definition SUBJECT_AUTHORITY_EXCLUSIONS :: "string list" where
  "SUBJECT_AUTHORITY_EXCLUSIONS = [''evidence_sig'', ''subject_digest'']"

definition SUBJECT_REQUIRED :: "string list" where
  "SUBJECT_REQUIRED =
     [''schema_version'', ''canon_version'', ''domain'', ''record_id'', ''project_id'', ''agent_id'', ''agent_version'', ''session_id'',
      ''span_id'', ''parent_span_id'', ''agent_ts'', ''event_type'', ''action'', ''observed_via'', ''status'', ''authority'']"

datatype authority_trust = TrustNone | Declared | Verified | LegacyUnbound | Unverifiable | Failed

fun authority_trust_as_str :: "authority_trust \<Rightarrow> string" where
  "authority_trust_as_str TrustNone = ''none''"
| "authority_trust_as_str Declared = ''declared''"
| "authority_trust_as_str Verified = ''verified''"
| "authority_trust_as_str LegacyUnbound = ''legacy_unbound''"
| "authority_trust_as_str Unverifiable = ''unverifiable''"
| "authority_trust_as_str Failed = ''failed''"

datatype authority_error =
    AuNotObject | AuMissingField | AuRecordProfile | AuEmptyValue | AuNonString | AuParentSpan | AuNoAuthority
  | AuProofProfile | AuSubjectFraming | AuV3Framing | AuMissing string | AuInvalidSource

fun check_present :: "canon_value \<Rightarrow> string list \<Rightarrow> (unit, authority_error) result" where
  "check_present record [] = Ok ()"
| "check_present record (k # ks) = (if get record k = None then Err AuMissingField else check_present record ks)"

fun check_nonempty :: "canon_value \<Rightarrow> string list \<Rightarrow> (unit, authority_error) result" where
  "check_nonempty record [] = Ok ()"
| "check_nonempty record (k # ks) =
     (if (case field_str record k of Some s \<Rightarrow> s | None \<Rightarrow> []) = [] then Err AuEmptyValue else check_nonempty record ks)"

fun check_strings :: "canon_value \<Rightarrow> string list \<Rightarrow> (unit, authority_error) result" where
  "check_strings record [] = Ok ()"
| "check_strings record (k # ks) = (if field_str record k = None then Err AuNonString else check_strings record ks)"

definition strip_authority :: "(string \<times> canon_value) list \<Rightarrow> canon_value" where
  "strip_authority authority = Object (filter (\<lambda>(key, _). key \<notin> set SUBJECT_AUTHORITY_EXCLUSIONS) authority)"

definition project_members :: "canon_value \<Rightarrow> (string \<times> canon_value) list \<Rightarrow> (string \<times> canon_value) list" where
  "project_members stripped_authority members =
     List.map_filter (\<lambda>(key, v).
       if key \<in> set SUBJECT_TOP_EXCLUSIONS then None
       else if key = ''authority'' then Some (key, stripped_authority)
       else Some (key, v)) members"

definition subject_projection :: "canon_value \<Rightarrow> (canon_value, authority_error) result" where
  "subject_projection record =
     bind_result (ok_or (as_object record) AuNotObject) (\<lambda>members.
     bind_result (check_present record SUBJECT_REQUIRED) (\<lambda>_.
     if field_str record ''schema_version'' \<noteq> Some ''2'' \<or> field_str record ''canon_version'' \<noteq> Some ''rcp-1''
        \<or> field_str record ''domain'' \<noteq> Some ''flightrecorder.record.v2'' then Err AuRecordProfile
     else
       bind_result (check_nonempty record [''record_id'', ''project_id'', ''session_id'', ''span_id'', ''agent_ts'']) (\<lambda>_.
       bind_result (check_strings record [''agent_id'', ''agent_version'', ''event_type'', ''action'', ''observed_via'', ''status'']) (\<lambda>_.
       if (case get record ''parent_span_id'' of None \<Rightarrow> False | Some parent \<Rightarrow> \<not> is_null parent \<and> as_str parent = None)
       then Err AuParentSpan
       else
         bind_result (ok_or (Option.bind (get record ''authority'') as_object) AuNoAuthority) (\<lambda>authority.
         if Option.bind (get record ''authority'') (\<lambda>a. field_str a ''proof_version'') \<noteq> Some ''v3''
            \<or> Option.bind (get record ''authority'') (\<lambda>a. field_str a ''subject_projection'') \<noteq> Some SUBJECT_PROJECTION
         then Err AuProofProfile
         else Ok (Object (project_members (strip_authority authority) members)))))))"

definition subject_digest_preimage :: "('sk, 'vk) externals \<Rightarrow> canon_value \<Rightarrow> (bytes, authority_error) result" where
  "subject_digest_preimage X subject =
     (case lp_all_into [] (map as_bytes [SUBJECT_HASH_TAG, SUBJECT_PROJECTION]) of
        (False, _) \<Rightarrow> Err AuSubjectFraming
      | (True, pre) \<Rightarrow> Ok (pre @ as_bytes (serialize (unicode_nfc X) subject)))"

definition subject_digest :: "('sk, 'vk) externals \<Rightarrow> canon_value \<Rightarrow> (string, authority_error) result" where
  "subject_digest X record =
     bind_result (subject_projection record) (\<lambda>subject.
     map_ok (sha256_prefixed (sha256 X)) (subject_digest_preimage X subject))"

definition preimage_v3 :: "string \<Rightarrow> string \<Rightarrow> string \<Rightarrow> string \<Rightarrow> string \<Rightarrow> (bytes, authority_error) result" where
  "preimage_v3 source project_id record_id evidence_hash digest =
     (case lp_all_into [] (map as_bytes
             [AUTHORITY_SIG_TAG_V3, SUBJECT_PROJECTION, source, project_id, record_id, evidence_hash, digest]) of
        (False, _) \<Rightarrow> Err AuV3Framing
      | (True, pre) \<Rightarrow> Ok pre)"

definition SIGNED_SOURCES :: "string list" where
  "SIGNED_SOURCES = [''policy_engine_signed'', ''human_signed'', ''delegate_signed'', ''gateway_enforced'']"

definition sign_evidence_v3 :: "('sk, 'vk) externals \<Rightarrow> canon_value \<Rightarrow> 'sk \<Rightarrow> (string \<times> string, authority_error) result" where
  "sign_evidence_v3 X record sk =
     bind_result (ok_or (get record ''authority'') (AuMissing ''authority'')) (\<lambda>authority.
     bind_result (ok_or (field_str authority ''source'') (AuMissing ''source'')) (\<lambda>source.
     bind_result (ok_or (field_str record ''project_id'') (AuMissing ''project'')) (\<lambda>project.
     bind_result (ok_or (field_str record ''record_id'') (AuMissing ''record ID'')) (\<lambda>record_id.
     bind_result (ok_or (field_str authority ''evidence_hash'') (AuMissing ''evidence hash'')) (\<lambda>evidence_hash.
     if source \<notin> set SIGNED_SOURCES \<or> parse_sha256 evidence_hash = None then Err AuInvalidSource
     else
       bind_result (subject_digest X record) (\<lambda>digest.
       bind_result (preimage_v3 source project record_id evidence_hash digest) (\<lambda>pre.
       Ok (digest, ''ed25519:'' @ encode (ed_sign X sk pre)))))))))"

text \<open>As in the anchors, the results of the appends are not looked at.\<close>

definition preimage :: "string \<Rightarrow> string \<Rightarrow> string \<Rightarrow> string \<Rightarrow> bytes" where
  "preimage source project_id record_id evidence_hash =
     snd (lp_str_into (snd (lp_str_into (snd (lp_str_into (snd (lp_str_into [] AUTHORITY_SIG_TAG)) source)) project_id)) record_id)
     @ as_bytes evidence_hash"

definition sign_evidence :: "('sk, 'vk) externals \<Rightarrow> string \<Rightarrow> string \<Rightarrow> string \<Rightarrow> string \<Rightarrow> 'sk \<Rightarrow> string" where
  "sign_evidence X source project_id record_id evidence_hash sk =
     ''ed25519:'' @ encode (ed_sign X sk (preimage source project_id record_id evidence_hash))"

text \<open>The choice of the signed message by the proof profile; an error is the early return with \<open>Failed\<close>.\<close>

definition proof_message :: "('sk, 'vk) externals \<Rightarrow> canon_value \<Rightarrow> canon_value \<Rightarrow> string \<Rightarrow> string \<Rightarrow> string \<Rightarrow> string
    \<Rightarrow> (bytes \<times> authority_trust) option" where
  "proof_message X record authority source project_id record_id eh =
     (let proof_version = get authority ''proof_version'';
          v3_fields_present = (get authority ''subject_projection'' \<noteq> None \<or> get authority ''subject_digest'' \<noteq> None)
      in case Option.bind proof_version as_str of
           Some pv \<Rightarrow>
             if pv \<noteq> ''v3'' then None
             else if field_str authority ''subject_projection'' \<noteq> Some SUBJECT_PROJECTION then None
             else (case field_str authority ''subject_digest'' of
                     None \<Rightarrow> None
                   | Some digest \<Rightarrow>
                       if parse_sha256 digest = None \<or> ok (subject_digest X record) \<noteq> Some digest then None
                       else (case preimage_v3 source project_id record_id eh digest of
                               Err _ \<Rightarrow> None
                             | Ok pre \<Rightarrow> Some (pre, Verified)))
         | None \<Rightarrow>
             if proof_version = None \<and> \<not> v3_fields_present then Some (preimage source project_id record_id eh, LegacyUnbound)
             else None)"

definition verify_authority_with_key :: "('sk, 'vk) externals \<Rightarrow> canon_value \<Rightarrow> 'vk list \<Rightarrow> authority_trust \<times> 'vk option" where
  "verify_authority_with_key X record trusted =
     (case get record ''authority'' of
        None \<Rightarrow> (TrustNone, None)
      | Some authority \<Rightarrow>
          let source = (case field_str authority ''source'' of Some s \<Rightarrow> s | None \<Rightarrow> [])
          in if source = [] then (TrustNone, None)
             else if source = ''caller_declared'' then (Declared, None)
             else if source \<in> set SIGNED_SOURCES then
               let record_id = (case field_str record ''record_id'' of Some s \<Rightarrow> s | None \<Rightarrow> []);
                   project_id = (case field_str record ''project_id'' of Some s \<Rightarrow> s | None \<Rightarrow> [])
               in case (field_str authority ''evidence_hash'', field_str authority ''evidence_sig'') of
                    (Some eh, Some es) \<Rightarrow>
                      if parse_sha256 eh = None \<or> record_id = [] \<or> project_id = [] then (Failed, None)
                      else (case Option.bind (strip_prefix ''ed25519:'' es) (\<lambda>s. ok (decode_fixed 64 s)) of
                              None \<Rightarrow> (Failed, None)
                            | Some raw \<Rightarrow>
                                (case proof_message X record authority source project_id record_id eh of
                                   None \<Rightarrow> (Failed, None)
                                 | Some (pre, trust) \<Rightarrow>
                                     if trusted = [] then (Unverifiable, None)
                                     else (case find (\<lambda>vk. ed_verify_strict X vk pre raw) trusted of
                                             Some vk \<Rightarrow> (trust, Some vk)
                                           | None \<Rightarrow> (Failed, None))))
                  | _ \<Rightarrow> (Failed, None)
             else (Declared, None))"

definition verify_authority :: "('sk, 'vk) externals \<Rightarrow> canon_value \<Rightarrow> 'vk list \<Rightarrow> authority_trust" where
  "verify_authority X record trusted = fst (verify_authority_with_key X record trusted)"

section \<open>What a verified classification says\<close>

lemma tags_fit: "lp_fits (as_bytes AUTHORITY_SIG_TAG)" "lp_fits (as_bytes AUTHORITY_SIG_TAG_V3)"
  "lp_fits (as_bytes SUBJECT_PROJECTION)" "lp_fits (as_bytes SUBJECT_HASH_TAG)"
  by (simp_all add: AUTHORITY_SIG_TAG_def AUTHORITY_SIG_TAG_V3_def SUBJECT_PROJECTION_def SUBJECT_HASH_TAG_def MAX_LP_LEN_def)

lemma preimage_v3_Ok:
  "preimage_v3 s p r e d = Ok pre \<longleftrightarrow>
     list_all lp_fits (map as_bytes [s, p, r, e, d])
     \<and> pre = concat (map lp (map as_bytes [AUTHORITY_SIG_TAG_V3, SUBJECT_PROJECTION, s, p, r, e, d]))"
  unfolding preimage_v3_def lp_all_case using tags_fit by simp

lemma preimage_v3_inject:
  assumes "preimage_v3 s p r e d = Ok pre" "preimage_v3 s' p' r' e' d' = Ok pre"
  shows "s = s' \<and> p = p' \<and> r = r' \<and> e = e' \<and> d = d'"
  using assms tags_fit lp_frame.frames_inject
    [of "map as_bytes [AUTHORITY_SIG_TAG_V3, SUBJECT_PROJECTION, s, p, r, e, d]"
        "map as_bytes [AUTHORITY_SIG_TAG_V3, SUBJECT_PROJECTION, s', p', r', e', d']"]
  by (simp add: preimage_v3_Ok)

lemma subject_digest_preimage_eq:
  "subject_digest_preimage X s =
     Ok (concat (map lp (map as_bytes [SUBJECT_HASH_TAG, SUBJECT_PROJECTION])) @ as_bytes (serialize (unicode_nfc X) s))"
proof -
  have "list_all lp_fits (map as_bytes [SUBJECT_HASH_TAG, SUBJECT_PROJECTION])" using tags_fit by simp
  then show ?thesis unfolding subject_digest_preimage_def lp_all_into_eq(1) [OF \<open>list_all _ _\<close>] by simp
qed

text \<open>A historical message is never a v3 message: the tags differ and are framed.\<close>

lemma preimage_prefix: "\<exists>rest. preimage s p r e = lp (as_bytes AUTHORITY_SIG_TAG) @ rest"
  using tags_fit(1) by (auto simp: preimage_def lp_str_into_def lp_into_eq)

lemma preimage_versions_apart:
  assumes "preimage_v3 s p r e d = Ok pre"
  shows "preimage s' p' r' e' \<noteq> pre"
proof -
  obtain rest where "preimage s' p' r' e' = lp (as_bytes AUTHORITY_SIG_TAG) @ rest" using preimage_prefix by blast
  then show ?thesis
    using assms lp_frame.enc_split [OF tags_fit(1,2), of rest]
    by (auto simp: preimage_v3_Ok AUTHORITY_SIG_TAG_def AUTHORITY_SIG_TAG_V3_def)
qed

text \<open>The message a verified classification is about, read off the record itself.\<close>

definition evidence_message :: "('sk, 'vk) externals \<Rightarrow> canon_value \<Rightarrow> bytes option" where
  "evidence_message X record =
     Option.bind (get record ''authority'') (\<lambda>a.
     Option.bind (field_str a ''source'') (\<lambda>source.
     Option.bind (field_str record ''project_id'') (\<lambda>project_id.
     Option.bind (field_str record ''record_id'') (\<lambda>record_id.
     Option.bind (field_str a ''evidence_hash'') (\<lambda>eh.
     Option.bind (ok (subject_digest X record)) (\<lambda>digest.
     ok (preimage_v3 source project_id record_id eh digest)))))))"

lemma proof_message_Verified:
  "proof_message X record a source p r eh = Some (pre, Verified) \<longleftrightarrow>
     get a ''proof_version'' = Some (Str ''v3'') \<and> get a ''subject_projection'' = Some (Str SUBJECT_PROJECTION)
     \<and> (\<exists>digest. get a ''subject_digest'' = Some (Str digest) \<and> parse_sha256 digest \<noteq> None
          \<and> subject_digest X record = Ok digest \<and> preimage_v3 source p r eh digest = Ok pre)"
  unfolding proof_message_def Let_def field_str_def [of a "''proof_version''", symmetric] field_str_Some [symmetric]
  by (cases "field_str a ''proof_version''"; cases "field_str a ''subject_digest''")
    (auto simp del: field_str_Some split: result.splits if_splits)

lemma verify_authority_Verified:
  "verify_authority_with_key X record trusted = (Verified, k) \<longleftrightarrow>
     (\<exists>a source eh b p r pre vk. get record ''authority'' = Some a \<and> get a ''source'' = Some (Str source) \<and> source \<in> set SIGNED_SOURCES
        \<and> get a ''evidence_hash'' = Some (Str eh) \<and> parse_sha256 eh \<noteq> None
        \<and> get a ''evidence_sig'' = Some (Str (''ed25519:'' @ encode b)) \<and> length b = 64
        \<and> get record ''project_id'' = Some (Str p) \<and> p \<noteq> [] \<and> get record ''record_id'' = Some (Str r) \<and> r \<noteq> []
        \<and> proof_message X record a source p r eh = Some (pre, Verified)
        \<and> k = Some vk \<and> find (\<lambda>vk. ed_verify_strict X vk pre b) trusted = Some vk)"
  (is "?L \<longleftrightarrow> ?R")
proof
  assume L: ?L
  then obtain a source where a: "get record ''authority'' = Some a" "field_str a ''source'' = Some source" "source \<in> set SIGNED_SOURCES"
    by (auto simp: verify_authority_with_key_def Let_def split: option.splits if_splits)
  then have s: "source \<noteq> []" "source \<noteq> ''caller_declared''" by (auto simp: SIGNED_SOURCES_def)
  obtain eh es r p where f: "field_str a ''evidence_hash'' = Some eh" "field_str a ''evidence_sig'' = Some es"
    "field_str record ''record_id'' = Some r" "field_str record ''project_id'' = Some p" "parse_sha256 eh \<noteq> None" "r \<noteq> []" "p \<noteq> []"
    using L a s unfolding verify_authority_with_key_def Let_def by (simp split: option.splits if_splits)
  obtain raw where raw: "Option.bind (strip_prefix ''ed25519:'' es) (\<lambda>s. ok (decode_fixed 64 s)) = Some raw"
    using L a s f unfolding verify_authority_with_key_def Let_def by (simp split: option.splits)
  obtain pre trust where m: "proof_message X record a source p r eh = Some (pre, trust)"
    using L a s f raw unfolding verify_authority_with_key_def Let_def
    by (cases "proof_message X record a source p r eh") (simp, force)
  have "trust = Verified" "\<exists>vk. k = Some vk \<and> find (\<lambda>vk. ed_verify_strict X vk pre raw) trusted = Some vk"
    using L a s f raw m unfolding verify_authority_with_key_def Let_def by (simp_all split: option.splits if_splits)
  moreover obtain b where "es = ''ed25519:'' @ encode b" "b = raw" "length raw = 64"
    using raw by (auto simp: bind_eq_Some_conv strip_prefix_Some decode_fixed_iff)
  ultimately show ?R using a f m unfolding field_str_Some by blast
next
  assume ?R
  then obtain a source eh b p r pre vk where R: "get record ''authority'' = Some a" "get a ''source'' = Some (Str source)"
    "source \<in> set SIGNED_SOURCES" "get a ''evidence_hash'' = Some (Str eh)" "parse_sha256 eh \<noteq> None"
    "get a ''evidence_sig'' = Some (Str (''ed25519:'' @ encode b))" "length b = 64"
    "get record ''project_id'' = Some (Str p)" "p \<noteq> []" "get record ''record_id'' = Some (Str r)" "r \<noteq> []"
    "proof_message X record a source p r eh = Some (pre, Verified)" "k = Some vk"
    "find (\<lambda>vk. ed_verify_strict X vk pre b) trusted = Some vk" by blast
  have s: "source \<noteq> []" "source \<noteq> ''caller_declared''" using R(3) by (auto simp: SIGNED_SOURCES_def)
  have raw: "Option.bind (strip_prefix ''ed25519:'' (''ed25519:'' @ encode b)) (\<lambda>s. ok (decode_fixed 64 s)) = Some b"
    unfolding bind_eq_Some_conv strip_prefix_Some using R(7) by (simp add: decode_fixed_iff)
  have f: "field_str a ''source'' = Some source" "field_str a ''evidence_hash'' = Some eh"
    "field_str a ''evidence_sig'' = Some (''ed25519:'' @ encode b)" "field_str record ''project_id'' = Some p"
    "field_str record ''record_id'' = Some r" unfolding field_str_Some using R by blast+
  have "trusted \<noteq> []" using R(14) by auto
  then show ?L
    unfolding verify_authority_with_key_def Let_def R(1,12) option.case f prod.case raw using R s by simp
qed

section \<open>The subject\<close>

lemma project_members_eq:
  "project_members sa ms = map (\<lambda>(k, v). (k, if k = ''authority'' then sa else v)) (kept SUBJECT_TOP_EXCLUSIONS ms)"
  unfolding project_members_def by (induction ms) (simp_all add: List.map_filter_simps split_beta)

lemma subject_projection_Ok:
  assumes "subject_projection record = Ok s"
  obtains ms a where "record = Object ms" "get record ''authority'' = Some (Object a)"
    "s = Object (project_members (strip_authority a) ms)"
proof -
  obtain ms a where "as_object record = Some ms" "Option.bind (get record ''authority'') as_object = Some a"
    "s = Object (project_members (strip_authority a) ms)"
    using assms unfolding subject_projection_def by (auto split: if_splits)
  then show thesis
    by (intro that [of ms a]) (auto simp: bind_eq_Some_conv as_object_def split: canon_value.splits)
qed

lemma subject_projection_checks:
  assumes "subject_projection r = Ok s" "get r ''authority'' = Some a"
  shows "field_str a ''proof_version'' = Some ''v3''" "field_str a ''subject_projection'' = Some SUBJECT_PROJECTION"
    "field_str r ''record_id'' \<noteq> Some []" "field_str r ''project_id'' \<noteq> Some []"
  using assms unfolding subject_projection_def by (auto split: if_splits simp del: field_str_Some)

text \<open>The subject of a parsed record is as well formed as the record.\<close>

lemma subject_parsed:
  assumes "parsed uni record" "subject_projection record = Ok s"
  shows "parsed uni s" "nesting record \<le> n \<Longrightarrow> nesting s \<le> n"
proof -
  obtain ms a where r: "record = Object ms" "get record ''authority'' = Some (Object a)"
    "s = Object (project_members (strip_authority a) ms)" using subject_projection_Ok [OF assms(2)] .
  have a: "map_of ms ''authority'' = Some (Object a)" using r by (simp add: get_Object)
  then have "parsed uni (Object a)" using assms(1) r parsed_field by blast
  then have pa: "parsed uni (strip_authority a)" unfolding strip_authority_def by (rule parsed_kept)
  have "parsed uni (Object (kept SUBJECT_TOP_EXCLUSIONS ms))" using assms(1) r parsed_kept by blast
  then show "parsed uni s"
    unfolding r project_members_eq using pa by (auto simp: parsed_Object comp_def case_prod_beta split: if_splits)
  assume n: "nesting record \<le> n"
  then have "nesting (Object a) \<le> n - 1" using map_of_SomeD [OF a] unfolding r nesting_Object_le [of ms] by blast
  then have "nesting (strip_authority a) \<le> n - 1" unfolding strip_authority_def by (rule nesting_kept)
  then show "nesting s \<le> n"
    using n unfolding r project_members_eq by (auto simp: nesting_Object_le)
qed

lemma subject_binding:
  assumes X: "nfc_ok (unicode_nfc X)" and r: "parsed (unicode_nfc X) r" "nesting r \<le> MAX_DEPTH"
    and r': "parsed (unicode_nfc X) r'" "nesting r' \<le> MAX_DEPTH"
    and d: "subject_digest X r = Ok d" "subject_digest X r' = Ok d"
  obtains s s' q q' where "subject_projection r = Ok s" "subject_projection r' = Ok s'"
    "subject_digest_preimage X s = Ok q" "subject_digest_preimage X s' = Ok q'"
    "canonical (unicode_nfc X) s = canonical (unicode_nfc X) s' \<or> collision X q q'"
proof -
  obtain s s' q q' where s: "subject_projection r = Ok s" "subject_projection r' = Ok s'"
    and q: "subject_digest_preimage X s = Ok q" "subject_digest_preimage X s' = Ok q'" and h: "sha256 X q = sha256 X q'"
    using d unfolding subject_digest_def by auto
  have p: "parsed (unicode_nfc X) s" "nesting s \<le> MAX_DEPTH" "parsed (unicode_nfc X) s'" "nesting s' \<le> MAX_DEPTH"
    using subject_parsed [OF r(1) s(1)] subject_parsed [OF r'(1) s(2)] r(2) r'(2) by blast+
  have "canonical (unicode_nfc X) s = canonical (unicode_nfc X) s'" if "q = q'"
  proof -
    have "as_bytes (serialize (unicode_nfc X) s) = as_bytes (serialize (unicode_nfc X) s')"
      using q that by (auto simp: subject_digest_preimage_eq)
    then have "canon_text (unicode_nfc X) s = canon_text (unicode_nfc X) s'"
      using serialize_eq [OF X] parsed_value_ok [OF p(1)] parsed_value_ok [OF p(3)] by simp
    then show ?thesis using canon_text_canonical X p parsed_serializable by blast
  qed
  then show thesis using that s q h unfolding collision_def by blast
qed

lemma subject_digest_parses:
  assumes "sha256_ok X" "subject_digest X r = Ok d"
  shows "parse_sha256 d \<noteq> None"
  using assms unfolding subject_digest_def
  by (auto simp: parse_sha256_iff sha256_ok_def sha256_prefixed_eq hex_lower_eq)

text \<open>
  The subject depends on the semantic fields only: two records that agree on them, whose authority
  blocks agree up to the proof fields, have the same subject.
\<close>

lemma check_present_cong: "(\<And>k. k \<in> set ks \<Longrightarrow> get r k = None \<longleftrightarrow> get r' k = None) \<Longrightarrow> check_present r ks = check_present r' ks"
  by (induction ks) simp_all

lemma check_nonempty_cong: "(\<And>k. k \<in> set ks \<Longrightarrow> get r k = get r' k) \<Longrightarrow> check_nonempty r ks = check_nonempty r' ks"
  by (induction ks) (simp_all add: field_str_def)

lemma check_strings_cong: "(\<And>k. k \<in> set ks \<Longrightarrow> get r k = get r' k) \<Longrightarrow> check_strings r ks = check_strings r' ks"
  by (induction ks) (simp_all add: field_str_def)

lemma subject_projection_cong:
  assumes same: "\<And>k. k \<in> set SUBJECT_REQUIRED \<Longrightarrow> k \<noteq> ''authority'' \<Longrightarrow> map_of ms' k = map_of ms k"
    and a: "map_of ms ''authority'' = Some (Object a)" "map_of ms' ''authority'' = Some (Object a')"
    and proof_fields: "kept SUBJECT_AUTHORITY_EXCLUSIONS a' = kept SUBJECT_AUTHORITY_EXCLUSIONS a"
    and proj: "\<And>sa. project_members sa ms' = project_members sa ms"
  shows "subject_projection (Object ms') = subject_projection (Object ms)"
proof -
  have g: "get (Object ms') k = get (Object ms) k" if "k \<in> set SUBJECT_REQUIRED" "k \<noteq> ''authority''" for k
    using same [OF that] by (simp add: get_Object)
  have req: "set [''schema_version'', ''canon_version'', ''domain'', ''record_id'', ''project_id'', ''session_id'', ''span_id'', ''agent_ts'',
      ''agent_id'', ''agent_version'', ''event_type'', ''action'', ''observed_via'', ''status'', ''parent_span_id''] \<subseteq> set SUBJECT_REQUIRED"
    unfolding SUBJECT_REQUIRED_def by simp
  have "map_of a' k = map_of a k" if "k \<notin> set SUBJECT_AUTHORITY_EXCLUSIONS" for k
    using map_of_filter_keys [of SUBJECT_AUTHORITY_EXCLUSIONS a k] map_of_filter_keys [of SUBJECT_AUTHORITY_EXCLUSIONS a' k] that proof_fields
    by simp
  then have pv: "map_of a' ''proof_version'' = map_of a ''proof_version''" "map_of a' ''subject_projection'' = map_of a ''subject_projection''"
    by (simp_all add: SUBJECT_AUTHORITY_EXCLUSIONS_def)
  have present: "check_present (Object ms') SUBJECT_REQUIRED = check_present (Object ms) SUBJECT_REQUIRED"
    by (rule check_present_cong) (metis g a get_Object option.distinct(1))
  have nonempty: "check_nonempty (Object ms') [''record_id'', ''project_id'', ''session_id'', ''span_id'', ''agent_ts'']
      = check_nonempty (Object ms) [''record_id'', ''project_id'', ''session_id'', ''span_id'', ''agent_ts'']"
    by (rule check_nonempty_cong, rule g) (use req in auto)
  have strings: "check_strings (Object ms') [''agent_id'', ''agent_version'', ''event_type'', ''action'', ''observed_via'', ''status'']
      = check_strings (Object ms) [''agent_id'', ''agent_version'', ''event_type'', ''action'', ''observed_via'', ''status'']"
    by (rule check_strings_cong, rule g) (use req in auto)
  have fields: "get (Object ms') ''schema_version'' = get (Object ms) ''schema_version''"
    "get (Object ms') ''canon_version'' = get (Object ms) ''canon_version''" "get (Object ms') ''domain'' = get (Object ms) ''domain''"
    "get (Object ms') ''parent_span_id'' = get (Object ms) ''parent_span_id''"
    by (rule g; use req in simp)+
  show ?thesis
    unfolding subject_projection_def as_object_def canon_value.case ok_or.simps bind_result.simps present nonempty strings
      field_str_def get_Object fields [unfolded get_Object] a bind.bind_lunit pv strip_authority_def proof_fields proj ..
qed

text \<open>Attaching the signed evidence to the authority block of the record it was signed for.\<close>

definition attach_evidence :: "canon_value \<Rightarrow> canon_value \<Rightarrow> string \<times> string \<Rightarrow> canon_value" where
  "attach_evidence record authority e =
     with_field record ''authority''
       (with_field (with_field authority ''subject_digest'' (Str (fst e))) ''evidence_sig'' (Str (snd e)))"

lemma update_authority_project:
  "update_first ms ''authority'' v = Some ms' \<Longrightarrow> project_members sa ms' = project_members sa ms"
  by (induction ms "''authority''" v arbitrary: ms' rule: update_first.induct)
    (auto simp: project_members_eq split: if_splits)

lemma attach_evidence_subject:
  assumes "get (Object ms) ''authority'' = Some (Object a)"
  obtains ms' a' where "attach_evidence (Object ms) (Object a) (d, e) = Object ms'"
    "subject_projection (Object ms') = subject_projection (Object ms)"
    "\<And>k. map_of ms' k = (if k = ''authority'' then Some (Object a') else map_of ms k)"
    "\<And>k. map_of a' k = (if k = ''evidence_sig'' then Some (Str e) else if k = ''subject_digest'' then Some (Str d) else map_of a k)"
proof -
  let ?X = SUBJECT_AUTHORITY_EXCLUSIONS
  have x: "''subject_digest'' \<in> set ?X" "''evidence_sig'' \<in> set ?X" by (simp_all add: SUBJECT_AUTHORITY_EXCLUSIONS_def)
  obtain b where b: "with_field (Object a) ''subject_digest'' (Str d) = Object b" "kept ?X b = kept ?X a"
    "\<forall>k. map_of b k = (if k = ''subject_digest'' then Some (Str d) else map_of a k)" using with_field_kept [OF x(1)] by blast
  obtain a' where a': "with_field (Object b) ''evidence_sig'' (Str e) = Object a'" "kept ?X a' = kept ?X b"
    "\<forall>k. map_of a' k = (if k = ''evidence_sig'' then Some (Str e) else map_of b k)" using with_field_kept [OF x(2)] by blast
  have am: "map_of ms ''authority'' = Some (Object a)" using assms by (simp add: get_Object)
  then obtain ms' where u: "update_first ms ''authority'' (Object a') = Some ms'"
    using update_first_None [of ms "''authority''" "Object a'"] by (cases "update_first ms ''authority'' (Object a')") auto
  have at: "attach_evidence (Object ms) (Object a) (d, e) = Object ms'"
    by (simp add: attach_evidence_def b(1) a'(1)) (simp add: with_field_def as_object_def u)
  have m: "map_of ms' k = (if k = ''authority'' then Some (Object a') else map_of ms k)" for k
    using update_first_Some [OF u, of k] by blast
  have "subject_projection (Object ms') = subject_projection (Object ms)"
    by (rule subject_projection_cong [where a = a and a' = a']) (simp_all add: m am a'(2) b(2) update_authority_project [OF u])
  then show thesis using that [OF at _ m] a'(3) b(3) by auto
qed

text \<open>The recorder's envelope is outside the subject and is not read by the classification.\<close>

lemma envelope_not_read:
  assumes "k \<in> set SUBJECT_TOP_EXCLUSIONS"
  shows "k \<notin> set SUBJECT_REQUIRED"
  using assms by (auto simp: SUBJECT_TOP_EXCLUSIONS_def SUBJECT_REQUIRED_def)

lemma envelope_neutral:
  assumes "k \<in> set SUBJECT_TOP_EXCLUSIONS" "subject_projection r = Ok s"
  shows "subject_projection (with_field r k v) = Ok s"
    and "q \<noteq> k \<Longrightarrow> get (with_field r k v) q = get r q"
proof -
  obtain ms a where r: "r = Object ms" "get r ''authority'' = Some (Object a)" using subject_projection_Ok [OF assms(2)] by metis
  then have a: "map_of ms ''authority'' = Some (Object a)" by (simp add: get_Object)
  obtain ms' where w: "with_field (Object ms) k v = Object ms'" "kept SUBJECT_TOP_EXCLUSIONS ms' = kept SUBJECT_TOP_EXCLUSIONS ms"
    "\<forall>q. map_of ms' q = (if q = k then Some v else map_of ms q)" using with_field_kept [OF assms(1)] by blast
  have k: "k \<notin> set SUBJECT_REQUIRED" using envelope_not_read [OF assms(1)] .
  then have "k \<noteq> ''authority''" by (auto simp: SUBJECT_REQUIRED_def)
  then have "subject_projection (Object ms') = subject_projection (Object ms)"
    using w k a by (intro subject_projection_cong [OF _ a]) (auto simp: project_members_eq)
  then show "subject_projection (with_field r k v) = Ok s" using assms(2) r w(1) by simp
  show "get (with_field r k v) q = get r q" if "q \<noteq> k" using that w by (simp add: r get_Object)
qed

lemma envelope_verified:
  assumes "k \<in> set SUBJECT_TOP_EXCLUSIONS" "verify_authority_with_key X r trusted = (Verified, vk)"
  shows "verify_authority_with_key X (with_field r k v) trusted = (Verified, vk)"
proof -
  obtain s where s: "subject_projection r = Ok s"
    using assms(2) by (auto simp: verify_authority_Verified proof_message_Verified subject_digest_def)
  note n = envelope_neutral [OF assms(1) s]
  have k: "k \<notin> set SUBJECT_REQUIRED" using envelope_not_read [OF assms(1)] .
  have g: "get (with_field r k v) q = get r q" if "q \<in> {''authority'', ''project_id'', ''record_id''}" for q
    by (rule n(2)) (use that k in \<open>auto simp: SUBJECT_REQUIRED_def\<close>)
  have d: "subject_digest X (with_field r k v) = subject_digest X r" unfolding subject_digest_def n(1) s ..
  show ?thesis
    using assms(2) unfolding verify_authority_Verified proof_message_Verified d
    by (simp add: g)
qed

lemma attached_verified:
  assumes "sha256_ok X" "ed25519_ok X" "sign_evidence_v3 X r sk = Ok e" "get r ''authority'' = Some a"
    and "ed_verifying_key X sk \<in> set trusted"
  obtains vk where "verify_authority_with_key X (attach_evidence r a e) trusted = (Verified, Some vk)"
proof -
  obtain source p rid eh digest pre where s: "field_str a ''source'' = Some source" "source \<in> set SIGNED_SOURCES"
    "field_str r ''project_id'' = Some p" "field_str r ''record_id'' = Some rid" "field_str a ''evidence_hash'' = Some eh"
    "parse_sha256 eh \<noteq> None" "subject_digest X r = Ok digest" "preimage_v3 source p rid eh digest = Ok pre"
    "e = (digest, ''ed25519:'' @ encode (ed_sign X sk pre))"
    using assms(3,4) by (auto simp: sign_evidence_v3_def simp del: field_str_Some split: if_splits)
  then obtain t where t: "subject_projection r = Ok t" by (auto simp: subject_digest_def)
  obtain ms am where r: "r = Object ms" "a = Object am" using subject_projection_Ok [OF t] assms(4) by (metis option.inject)
  note checks = subject_projection_checks [OF t assms(4)]
  obtain ms' a' where at: "attach_evidence r a e = Object ms'" "subject_projection (Object ms') = subject_projection r"
    "\<And>k. get (Object ms') k = (if k = ''authority'' then Some (Object a') else get r k)"
    "\<And>k. get (Object a') k = (if k = ''evidence_sig'' then Some (Str (snd e)) else if k = ''subject_digest'' then Some (Str (fst e)) else get a k)"
    using attach_evidence_subject [OF assms(4) [unfolded r], of "fst e" "snd e"] unfolding r get_Object prod.collapse by blast
  have d: "subject_digest X (Object ms') = Ok digest" using s(7) unfolding subject_digest_def at(2) .
  have sig: "length (ed_sign X sk pre) = 64" "ed_verify_strict X (ed_verifying_key X sk) pre (ed_sign X sk pre)"
    using assms(2) by (simp_all add: ed25519_ok_def)
  then obtain vk where vk: "find (\<lambda>vk. ed_verify_strict X vk pre (ed_sign X sk pre)) trusted = Some vk"
    using assms(5) by (cases "find (\<lambda>vk. ed_verify_strict X vk pre (ed_sign X sk pre)) trusted") (auto simp: find_None_iff)
  have "proof_message X (Object ms') (Object a') source p rid eh = Some (pre, Verified)"
    unfolding proof_message_Verified using checks(1,2) s(8) d subject_digest_parses [OF assms(1) s(7)] by (simp add: at(4) s(9))
  then have "verify_authority_with_key X (attach_evidence r a e) trusted = (Verified, Some vk)"
    unfolding verify_authority_Verified at(1)
    using s(1-6) checks(3,4) sig(1) vk
    by (intro exI [of _ "Object a'"] exI [of _ source] exI [of _ eh] exI [of _ "ed_sign X sk pre"] exI [of _ p] exI [of _ rid]
        exI [of _ pre] exI [of _ vk]) (simp add: at(3,4) s(9))
  then show thesis by (rule that)
qed

section \<open>Guarantees\<close>

text \<open>C27: A record is classified as verified only with a pinned key and a signature by it, stored in the record, over the
  record's own evidence message; that message is never a historical one, and a record with the same evidence message
  has the same source, project, identity, evidence hash and canonical subject, or the two digest preimages are a
  SHA-256 collision.\<close>

theorem verified_binds_subject:
  assumes "nfc_ok (unicode_nfc X)" "verify_authority_with_key X r trusted = (Verified, k)"
    and "parsed (unicode_nfc X) r" "nesting r \<le> MAX_DEPTH" "parsed (unicode_nfc X) r'" "nesting r' \<le> MAX_DEPTH"
    and "evidence_message X r' = evidence_message X r"
  shows "\<exists>vk pre a b a' s s' q q'. k = Some vk \<and> vk \<in> set trusted \<and> evidence_message X r = Some pre
     \<and> get r ''authority'' = Some a \<and> get a ''evidence_sig'' = Some (Str (''ed25519:'' @ encode b)) \<and> ed_verify_strict X vk pre b
     \<and> (\<forall>source project record_id eh. preimage source project record_id eh \<noteq> pre)
     \<and> get r' ''authority'' = Some a' \<and> field_str a' ''source'' = field_str a ''source''
     \<and> field_str a' ''evidence_hash'' = field_str a ''evidence_hash''
     \<and> field_str r' ''project_id'' = field_str r ''project_id'' \<and> field_str r' ''record_id'' = field_str r ''record_id''
     \<and> subject_projection r = Ok s \<and> subject_projection r' = Ok s'
     \<and> subject_digest_preimage X s = Ok q \<and> subject_digest_preimage X s' = Ok q'
     \<and> (canonical (unicode_nfc X) s = canonical (unicode_nfc X) s' \<or> collision X q q')"
proof -
  obtain a source eh b p rid pre vk digest where v: "get r ''authority'' = Some a" "field_str a ''source'' = Some source"
    "field_str a ''evidence_hash'' = Some eh" "get a ''evidence_sig'' = Some (Str (''ed25519:'' @ encode b))"
    "field_str r ''project_id'' = Some p" "field_str r ''record_id'' = Some rid" "k = Some vk"
    "find (\<lambda>vk. ed_verify_strict X vk pre b) trusted = Some vk"
    and d: "subject_digest X r = Ok digest" "preimage_v3 source p rid eh digest = Ok pre"
    using assms(2) unfolding verify_authority_Verified proof_message_Verified field_str_Some by blast
  have m: "evidence_message X r = Some pre" using v d by (simp add: evidence_message_def del: field_str_Some)
  obtain a' source' eh' p' rid' digest' where v': "get r' ''authority'' = Some a'" "field_str a' ''source'' = Some source'"
    "field_str a' ''evidence_hash'' = Some eh'" "field_str r' ''project_id'' = Some p'" "field_str r' ''record_id'' = Some rid'"
    and d': "subject_digest X r' = Ok digest'" "preimage_v3 source' p' rid' eh' digest' = Ok pre"
    using m [folded assms(7)] unfolding evidence_message_def bind_eq_Some_conv ok_eq_Some by blast
  have same: "source = source'" "p = p'" "rid = rid'" "eh = eh'" "digest = digest'" using preimage_v3_inject [OF d(2) d'(2)] by blast+
  obtain s s' q q' where "subject_projection r = Ok s" "subject_projection r' = Ok s'"
    "subject_digest_preimage X s = Ok q" "subject_digest_preimage X s' = Ok q'"
    "canonical (unicode_nfc X) s = canonical (unicode_nfc X) s' \<or> collision X q q'"
    using subject_binding [OF assms(1,3-6) d(1)] d'(1) same(5) by blast
  moreover have "vk \<in> set trusted" "ed_verify_strict X vk pre b" using v(8) by (auto simp: find_Some_iff)
  moreover have "\<forall>source project record_id eh. preimage source project record_id eh \<noteq> pre"
    using preimage_versions_apart [OF d(2)] by blast
  moreover have "field_str a' ''source'' = field_str a ''source''" "field_str a' ''evidence_hash'' = field_str a ''evidence_hash''"
    "field_str r' ''project_id'' = field_str r ''project_id''" "field_str r' ''record_id'' = field_str r ''record_id''"
    unfolding v(2,3,5,6) v'(2-5) same by (rule refl)+
  ultimately show ?thesis using v(1,4,7) v'(1) m by blast
qed

text \<open>C28: Evidence signed over a finished record, attached to its authority block, classifies the record as verified under
  the signing key, and still does after the recorder has set any of its envelope fields.\<close>

theorem evidence_roundtrip:
  assumes "sha256_ok X" "ed25519_ok X" "sign_evidence_v3 X r sk = Ok e" "get r ''authority'' = Some a"
    and "ed_verifying_key X sk \<in> set trusted" "fst ` set envelope \<subseteq> set SUBJECT_TOP_EXCLUSIONS"
  shows "verify_authority X (fold (\<lambda>(k, v) r. with_field r k v) envelope (attach_evidence r a e)) trusted = Verified"
proof -
  obtain vk where v: "verify_authority_with_key X (attach_evidence r a e) trusted = (Verified, Some vk)"
    using attached_verified [OF assms(1-5)] .
  have "verify_authority_with_key X (fold (\<lambda>(k, v) r. with_field r k v) envelope r') trusted = (Verified, Some vk)"
    if "verify_authority_with_key X r' trusted = (Verified, Some vk)" for r'
    using assms(6) that by (induction envelope arbitrary: r') (auto simp: envelope_verified)
  with v show ?thesis by (simp add: verify_authority_def)
qed

text \<open>A concrete record, with or without its evidence and an envelope field.\<close>

definition demo_authority :: "(string \<times> canon_value) list" where
  "demo_authority = [(''source'', Str ''human_signed''), (''proof_version'', Str ''v3''), (''subject_projection'', Str SUBJECT_PROJECTION),
     (''evidence_hash'', Str (''sha256:'' @ replicate 64 (CHR ''0'')))]"

definition demo_subject :: "(string \<times> canon_value) list \<Rightarrow> (string \<times> canon_value) list \<Rightarrow> canon_value" where
  "demo_subject evidence envelope = Object
     ([(''schema_version'', Str ''2''), (''canon_version'', Str ''rcp-1''), (''domain'', Str ''flightrecorder.record.v2''),
       (''record_id'', Str ''r1''), (''project_id'', Str ''p1''), (''agent_id'', Str ''a''), (''agent_version'', Str ''1''),
       (''session_id'', Str ''s''), (''span_id'', Str ''x''), (''parent_span_id'', Null), (''agent_ts'', Str ''t''), (''event_type'', Str ''e''),
       (''action'', Str ''act''), (''observed_via'', Str ''sdk''), (''status'', Str ''done''), (''authority'', Object (demo_authority @ evidence))]
      @ envelope)"

lemma demo_fields:
  "get (demo_subject ev env) ''authority'' = Some (Object (demo_authority @ ev))"
  "get (demo_subject ev env) ''project_id'' = Some (Str ''p1'')" "get (demo_subject ev env) ''record_id'' = Some (Str ''r1'')"
  "get (Object (demo_authority @ ev)) ''source'' = Some (Str ''human_signed'')"
  "get (Object (demo_authority @ ev)) ''evidence_hash'' = Some (Str (''sha256:'' @ replicate 64 (CHR ''0'')))"
  by (simp_all add: demo_subject_def demo_authority_def get_Object)

definition demo_digest :: string where
  "demo_digest = sha256_prefixed (sha256 demo) (lp (as_bytes SUBJECT_HASH_TAG))"

lemma demo_subject_digest:
  assumes "subject_projection r = Ok s"
  shows "subject_digest demo r = Ok demo_digest"
proof -
  have "length (lp (as_bytes SUBJECT_HASH_TAG)) = 38" by (simp add: lp_def SUBJECT_HASH_TAG_def)
  then show ?thesis
    unfolding subject_digest_def assms bind_result.simps subject_digest_preimage_eq map_ok.simps demo_digest_def by (simp add: demo_def)
qed

lemma demo_projects: "\<exists>s. subject_projection (demo_subject ev env) = Ok s"
proof -
  have p: "check_present (demo_subject ev env) SUBJECT_REQUIRED = Ok ()"
    by (simp add: demo_subject_def SUBJECT_REQUIRED_def get_Object)
  have n: "check_nonempty (demo_subject ev env) [''record_id'', ''project_id'', ''session_id'', ''span_id'', ''agent_ts''] = Ok ()"
    by (simp add: demo_subject_def get_Object field_str_def as_str_def)
  have s: "check_strings (demo_subject ev env) [''agent_id'', ''agent_version'', ''event_type'', ''action'', ''observed_via'', ''status''] = Ok ()"
    by (simp add: demo_subject_def get_Object field_str_def as_str_def)
  have f: "field_str (demo_subject ev env) ''schema_version'' = Some ''2''" "field_str (demo_subject ev env) ''canon_version'' = Some ''rcp-1''"
    "field_str (demo_subject ev env) ''domain'' = Some ''flightrecorder.record.v2''" "get (demo_subject ev env) ''parent_span_id'' = Some Null"
    "field_str (Object (demo_authority @ ev)) ''proof_version'' = Some ''v3''"
    "field_str (Object (demo_authority @ ev)) ''subject_projection'' = Some SUBJECT_PROJECTION"
    by (simp_all add: demo_subject_def demo_authority_def get_Object)
  have o: "as_object (demo_subject ev env) = Some (the (as_object (demo_subject ev env)))" by (simp add: demo_subject_def as_object_def)
  show ?thesis
    unfolding subject_projection_def p n s f demo_fields ok_or.simps bind_result.simps bind.bind_lunit option.case
    by (subst o) (simp add: as_object_def [of "Object _"] is_null_def)
qed

lemma demo_signs:
  "sign_evidence_v3 demo (demo_subject [] []) 7 = Ok (demo_digest, ''ed25519:'' @ encode (replicate 64 7))"
proof -
  obtain s where s: "subject_projection (demo_subject [] []) = Ok s" using demo_projects by blast
  have f: "field_str (Object demo_authority) ''source'' = Some ''human_signed''" "field_str (demo_subject [] []) ''project_id'' = Some ''p1''"
    "field_str (demo_subject [] []) ''record_id'' = Some ''r1''"
    "field_str (Object demo_authority) ''evidence_hash'' = Some (''sha256:'' @ replicate 64 (CHR ''0''))"
    using demo_fields [where ev = "[]"] by simp_all
  have h: "parse_sha256 (''sha256:'' @ replicate 64 (CHR ''0'')) \<noteq> None" by code_simp
  have "length demo_digest = 71" using demo_ok(1) by (simp add: demo_digest_def sha256_prefixed_eq sha256_ok_def)
  then obtain pre where "preimage_v3 ''human_signed'' ''p1'' ''r1'' (''sha256:'' @ replicate 64 (CHR ''0'')) demo_digest = Ok pre"
    by (simp add: preimage_v3_Ok MAX_LP_LEN_def)
  then show ?thesis
    unfolding sign_evidence_v3_def demo_fields append_Nil2 ok_or.simps bind_result.simps f demo_subject_digest [OF s] using h
    by (simp add: SIGNED_SOURCES_def) (simp add: demo_def)
qed

lemma demo_attach:
  "attach_evidence (demo_subject [] []) (Object demo_authority) (d, e) =
     demo_subject [(''subject_digest'', Str d), (''evidence_sig'', Str e)] []"
  by (simp add: attach_evidence_def demo_subject_def demo_authority_def with_field_def as_object_def)

theorem evidence_roundtrip_witness:
  "verify_authority demo (fold (\<lambda>(k, v) r. with_field r k v) [(''display_seq'', CInt 3)]
     (attach_evidence (demo_subject [] []) (Object demo_authority) (demo_digest, ''ed25519:'' @ encode (replicate 64 7)))) [3, 7] = Verified"
  by (rule evidence_roundtrip [OF demo_ok(1,2) demo_signs])
    (simp_all add: demo_fields [where ev = "[]", simplified] SUBJECT_TOP_EXCLUSIONS_def, simp add: demo_def)

lemma demo_strings:
  "list_all is_str [''schema_version'', ''canon_version'', ''domain'', ''record_id'', ''project_id'', ''agent_id'', ''agent_version'',
     ''session_id'', ''span_id'', ''parent_span_id'', ''agent_ts'', ''event_type'', ''action'', ''observed_via'', ''status'', ''authority'',
     ''2'', ''rcp-1'', ''flightrecorder.record.v2'', ''r1'', ''p1'', ''a'', ''1'', ''s'', ''x'', ''t'', ''e'', ''act'', ''sdk'', ''done'', ''display_seq'',
     ''source'', ''proof_version'', ''subject_projection'', ''evidence_hash'', ''human_signed'', ''v3'', SUBJECT_PROJECTION,
     ''sha256:'' @ replicate 64 (CHR ''0''), ''subject_digest'', ''evidence_sig'']"
  by code_simp

lemma demo_parsed:
  assumes "is_ascii d" "is_ascii e"
  shows "parsed (\<lambda>s. s) (demo_subject [(''subject_digest'', Str d), (''evidence_sig'', Str e)] [(''display_seq'', CInt 3)])"
    "parsed (\<lambda>s. s) (demo_subject [(''subject_digest'', Str d), (''evidence_sig'', Str e)] [])"
  using demo_strings is_ascii_is_str [OF assms(1)] is_ascii_is_str [OF assms(2)]
  by (simp_all add: demo_subject_def demo_authority_def parsed_Object nfc_def in_i64_def)

theorem verified_binds_subject_witness:
  "\<exists>s s'. subject_projection (demo_subject [(''subject_digest'', Str demo_digest), (''evidence_sig'', Str (''ed25519:'' @ encode (replicate 64 7)))] []) = Ok s
     \<and> subject_projection (demo_subject [(''subject_digest'', Str demo_digest), (''evidence_sig'', Str (''ed25519:'' @ encode (replicate 64 7)))] [(''display_seq'', CInt 3)]) = Ok s'
     \<and> canonical (unicode_nfc demo) s = canonical (unicode_nfc demo) s'"
proof -
  let ?ev = "[(''subject_digest'', Str demo_digest), (''evidence_sig'', Str (''ed25519:'' @ encode (replicate 64 7)))]"
  let ?r = "demo_subject ?ev []" and ?r' = "demo_subject ?ev [(''display_seq'', CInt 3)]"
  have asc: "is_ascii demo_digest" "is_ascii (''ed25519:'' @ encode (replicate 64 7))"
    unfolding demo_digest_def is_ascii_append using sha256_prefixed_ascii sealed_keys_ascii(3) encode_ascii
    by (auto simp: SIG_PREFIX_def)
  note p = demo_parsed [OF asc]
  obtain vk where v: "verify_authority_with_key demo ?r [3, 7] = (Verified, Some vk)"
    using attached_verified [OF demo_ok(1,2) demo_signs demo_fields(1) [where ev = "[]", simplified], of "[3, 7]"]
    unfolding demo_attach by (auto simp: demo_def)
  have m: "evidence_message demo ?r' = evidence_message demo ?r"
  proof -
    obtain s s' where s: "subject_projection ?r = Ok s" "subject_projection ?r' = Ok s'" using demo_projects by blast
    show ?thesis
      unfolding evidence_message_def field_str_def demo_fields demo_subject_digest [OF s(1)] demo_subject_digest [OF s(2)] ..
  qed
  have n: "nesting ?r \<le> MAX_DEPTH" "nesting ?r' \<le> MAX_DEPTH"
    by (simp_all add: demo_subject_def demo_authority_def nesting_Object_le MAX_DEPTH_def)
  have u: "unicode_nfc demo = (\<lambda>s. s)" by (simp add: demo_def)
  have bound: "\<exists>s s' q q'. subject_projection ?r = Ok s \<and> subject_projection ?r' = Ok s'
      \<and> (canonical (unicode_nfc demo) s = canonical (unicode_nfc demo) s' \<or> collision demo q q')"
    using verified_binds_subject [OF demo_ok(3) v p(2) [folded u] n(1) p(1) [folded u] n(2) m] by blast
  then obtain s where s: "subject_projection ?r = Ok s" by blast
  have w: "?r' = with_field ?r ''display_seq'' (CInt 3)" by (simp add: demo_subject_def with_field_def as_object_def)
  have "subject_projection ?r' = Ok s"
    unfolding w by (rule envelope_neutral(1) [OF _ s]) (simp add: SUBJECT_TOP_EXCLUSIONS_def)
  with s show ?thesis by blast
qed

end
