(* ===== verification/Merkle.thy ===== *)
theory Merkle
  imports Object_Fields
begin

text \<open>
  \<open>core/src/verify.rs\<close>: the framed challenge preimages of the broker protocol, the hash chain over a
  broker's grant log, and the RFC 6962 style Merkle tree of the revocation lists with its audit paths
  and the per-grant revocation proofs. SHA-256 is the parameter \<open>sha256\<close> of the externals.

  The results: the chain root determines the grant log, and against the root of a tree that was
  built from a revocation list an accepted proof says the truth about the list, in both cases unless
  two concrete byte strings that were hashed are a SHA-256 collision.
\<close>

section \<open>Framing\<close>

text \<open>\<open>b.len() as u32\<close> keeps the low 32 bits.\<close>

definition lp4 :: "bytes \<Rightarrow> bytes \<Rightarrow> bytes" where
  "lp4 pre b = pre @ to_be_bytes 4 (length b mod 2 ^ 32) @ b"

definition push_be8 :: "bytes \<Rightarrow> 64 word \<Rightarrow> bytes" where
  "push_be8 pre n = pre @ be8 n"

definition ledger_commitment_preimage :: "string \<Rightarrow> string \<Rightarrow> int \<Rightarrow> bytes" where
  "ledger_commitment_preimage jti nonce used_at =
     push_be8 (fold (\<lambda>part pre. lp4 pre (as_bytes part)) [''averin.broker.use.ledger.v1'', jti, nonce] []) (i64_as_u64 used_at)"

definition ledger_commitment :: "('sk, 'vk) externals \<Rightarrow> string \<Rightarrow> string \<Rightarrow> int \<Rightarrow> string" where
  "ledger_commitment X jti nonce used_at = sha256_prefixed (sha256 X) (ledger_commitment_preimage jti nonce used_at)"

definition use_pop_preimage :: "string \<Rightarrow> string \<Rightarrow> string \<Rightarrow> string \<Rightarrow> string \<Rightarrow> string \<Rightarrow> bytes" where
  "use_pop_preimage grant_id resource_id action params_commitment credential_binding nonce =
     fold (\<lambda>part pre. lp4 pre (as_bytes part))
       [''averin.broker.use.pop.v1'', grant_id, resource_id, action, params_commitment, credential_binding, nonce] []"

definition use_pop_challenge :: "('sk, 'vk) externals \<Rightarrow> string \<Rightarrow> string \<Rightarrow> string \<Rightarrow> string \<Rightarrow> string \<Rightarrow> string \<Rightarrow> bytes" where
  "use_pop_challenge X grant_id resource_id action params_commitment credential_binding nonce =
     sha256 X (use_pop_preimage grant_id resource_id action params_commitment credential_binding nonce)"

definition cosig_approval_preimage :: "string \<Rightarrow> string \<Rightarrow> string \<Rightarrow> int \<Rightarrow> int \<Rightarrow> bytes" where
  "cosig_approval_preimage grant_id approver_kid credential_binding threshold_m exp =
     push_be8 (push_be8 (fold (\<lambda>part pre. lp4 pre (as_bytes part))
       [''averin.broker.cosig.approval.v1'', grant_id, approver_kid, credential_binding] []) (i64_as_u64 threshold_m)) (i64_as_u64 exp)"

definition cosig_approval_challenge :: "('sk, 'vk) externals \<Rightarrow> string \<Rightarrow> string \<Rightarrow> string \<Rightarrow> int \<Rightarrow> int \<Rightarrow> bytes" where
  "cosig_approval_challenge X grant_id approver_kid credential_binding threshold_m exp =
     sha256 X (cosig_approval_preimage grant_id approver_kid credential_binding threshold_m exp)"

definition delegation_hop_preimage :: "string \<Rightarrow> int \<Rightarrow> string \<Rightarrow> string \<Rightarrow> string \<Rightarrow> string \<Rightarrow> string \<Rightarrow> int \<Rightarrow> bytes" where
  "delegation_hop_preimage grant_id hop_index delegator_kid delegate_kid scope action resource_id exp =
     (let pre = lp4 (lp4 [] (as_bytes ''averin.broker.delegation.hop.v1'')) (as_bytes grant_id);
          pre = push_be8 pre (i64_as_u64 hop_index);
          pre = fold (\<lambda>part pre. lp4 pre (as_bytes part)) [delegator_kid, delegate_kid, scope, action, resource_id] pre
      in push_be8 pre (i64_as_u64 exp))"

definition delegation_hop_challenge :: "('sk, 'vk) externals \<Rightarrow> string \<Rightarrow> int \<Rightarrow> string \<Rightarrow> string \<Rightarrow> string \<Rightarrow> string \<Rightarrow> string \<Rightarrow> int \<Rightarrow> bytes" where
  "delegation_hop_challenge X grant_id hop_index delegator_kid delegate_kid scope action resource_id exp =
     sha256 X (delegation_hop_preimage grant_id hop_index delegator_kid delegate_kid scope action resource_id exp)"

section \<open>The grant log\<close>

definition grant_head_seed_preimage :: bytes where
  "grant_head_seed_preimage = lp4 [] (as_bytes ''averin.broker.grant_head.v1'')"

definition grant_head_step_preimage :: "bytes \<Rightarrow> int \<Rightarrow> string \<Rightarrow> bytes" where
  "grant_head_step_preimage acc seq content_hash =
     lp4 (push_be8 (grant_head_seed_preimage @ acc) (i64_as_u64 seq)) (as_bytes content_hash)"

definition grant_head_root :: "('sk, 'vk) externals \<Rightarrow> (int \<times> string) list \<Rightarrow> string" where
  "grant_head_root X grants =
     ''sha256:'' @ hex_lower (fold (\<lambda>(seq, content_hash) acc. sha256 X (grant_head_step_preimage acc seq content_hash))
       grants (sha256 X grant_head_seed_preimage))"

section \<open>The Merkle tree\<close>

definition revocation_leaf_preimage :: "string \<Rightarrow> bytes" where
  "revocation_leaf_preimage grant_id = lp4 (lp4 [] (as_bytes ''averin.broker.revocation.leaf.v1'')) (as_bytes grant_id)"

definition revocation_leaf :: "('sk, 'vk) externals \<Rightarrow> string \<Rightarrow> bytes" where
  "revocation_leaf X grant_id = sha256 X (revocation_leaf_preimage grant_id)"

definition merkle_leaf_preimage :: "bytes \<Rightarrow> bytes" where
  "merkle_leaf_preimage v = [0x00] @ v"

definition merkle_leaf_hash :: "('sk, 'vk) externals \<Rightarrow> bytes \<Rightarrow> bytes" where
  "merkle_leaf_hash X v = sha256 X (merkle_leaf_preimage v)"

definition merkle_node_preimage :: "bytes \<Rightarrow> bytes \<Rightarrow> bytes" where
  "merkle_node_preimage l r = [0x01] @ l @ r"

definition merkle_node_hash :: "('sk, 'vk) externals \<Rightarrow> bytes \<Rightarrow> bytes \<Rightarrow> bytes" where
  "merkle_node_hash X l r = sha256 X (merkle_node_preimage l r)"

text \<open>The two loops of the producer: one pass over a level, and the levels up to the root.\<close>

fun next_level :: "('sk, 'vk) externals \<Rightarrow> bytes list \<Rightarrow> bytes list" where
  "next_level X (l # r # level) = merkle_node_hash X l r # next_level X level"
| "next_level X [l] = [l]"
| "next_level X [] = []"

lemma length_next_level [simp]: "length (next_level X level) = (length level + 1) div 2"
  by (induction X level rule: next_level.induct) simp_all

function fold_levels :: "('sk, 'vk) externals \<Rightarrow> bytes list \<Rightarrow> bytes" where
  "fold_levels X level = (if length level > 1 then fold_levels X (next_level X level) else level ! 0)"
  by pat_completeness auto
termination by (relation "measure (\<lambda>(X, level). length level)") auto

declare fold_levels.simps [simp del]

text \<open>The levels start from the sentinel-bracketed leaves, so they are never empty.\<close>

definition revocation_leaves :: "('sk, 'vk) externals \<Rightarrow> string list \<Rightarrow> bytes list" where
  "revocation_leaves X revoked = [replicate 32 0] @ sort (map (revocation_leaf X) revoked) @ [replicate 32 0xFF]"

definition revocation_merkle_root :: "('sk, 'vk) externals \<Rightarrow> string list \<Rightarrow> string" where
  "revocation_merkle_root X revoked =
     ''sha256:'' @ hex_lower (fold_levels X (map (merkle_leaf_hash X) (revocation_leaves X revoked)))"

function proof_loop :: "('sk, 'vk) externals \<Rightarrow> bytes \<Rightarrow> nat \<Rightarrow> nat \<Rightarrow> bytes list \<Rightarrow> bytes option" where
  "proof_loop X hash idx lst path =
     (if lst = 0 then (if path \<noteq> [] then None else Some hash)
      else if idx mod 2 = 1 then
        (case path of
           [] \<Rightarrow> None
         | sib # path \<Rightarrow> proof_loop X (merkle_node_hash X sib hash) (idx div 2) (lst div 2) path)
      else if idx < lst then
        (case path of
           [] \<Rightarrow> None
         | sib # path \<Rightarrow> proof_loop X (merkle_node_hash X hash sib) (idx div 2) (lst div 2) path)
      else proof_loop X hash (idx div 2) (lst div 2) path)"
  by pat_completeness auto
termination by (relation "measure (\<lambda>(X, hash, idx, lst, path). lst)") auto

declare proof_loop.simps [simp del]

definition merkle_root_from_proof :: "('sk, 'vk) externals \<Rightarrow> bytes \<Rightarrow> nat \<Rightarrow> nat \<Rightarrow> bytes list \<Rightarrow> bytes option" where
  "merkle_root_from_proof X leaf_value index leaf_count path =
     (if leaf_count = 0 \<or> index \<ge> leaf_count then None
      else proof_loop X (merkle_leaf_hash X leaf_value) index (leaf_count - 1) path)"

section \<open>Revocation proofs\<close>

definition parse_hex32 :: "string \<Rightarrow> bytes option" where
  "parse_hex32 s = hex32 s"

datatype proof_verdict = NotRevoked | Revoked | Unproven

definition MAX_REVOCATION_PATH :: nat where
  "MAX_REVOCATION_PATH = 64"

definition parse_hex32_path :: "canon_value option \<Rightarrow> bytes list option" where
  "parse_hex32_path v =
     Option.bind v (\<lambda>v. Option.bind (as_array v) (\<lambda>arr.
       if length arr > MAX_REVOCATION_PATH then None
       else those (map (\<lambda>e. Option.bind (as_str e) parse_hex32) arr)))"

definition int_in :: "canon_value \<Rightarrow> string \<Rightarrow> int option" where
  "int_in v key = Option.bind (get v key) as_int"

text \<open>\<open>i as usize\<close> of a nonnegative \<open>i64\<close>; \<open>checked_add\<close> fails outside the \<open>i64\<close> range.\<close>

definition check_revocation_proof :: "('sk, 'vk) externals \<Rightarrow> canon_value \<Rightarrow> string \<Rightarrow> bytes \<Rightarrow> nat \<Rightarrow> proof_verdict" where
  "check_revocation_proof X pr grant_id root leaf_count =
     (let q = revocation_leaf X grant_id;
          kind = (case field_str pr ''type'' of Some s \<Rightarrow> s | None \<Rightarrow> [])
      in if kind = ''membership'' then
           (case (int_in pr ''index'', parse_hex32_path (get pr ''path'')) of
              (Some i, Some p) \<Rightarrow>
                if i \<ge> 0 \<and> merkle_root_from_proof X q (nat i) leaf_count p = Some root then Revoked else Unproven
            | _ \<Rightarrow> Unproven)
         else if kind = ''nonmembership'' then
           (case (Option.bind (field_str pr ''lo'') parse_hex32, Option.bind (field_str pr ''hi'') parse_hex32,
                  int_in pr ''lo_index'', int_in pr ''hi_index'', parse_hex32_path (get pr ''lo_path''), parse_hex32_path (get pr ''hi_path'')) of
              (Some lo, Some hi, Some li, Some hi_i, Some lo_path, Some hi_path) \<Rightarrow>
                if \<not> (li \<ge> 0 \<and> hi_i \<ge> 0) then Unproven
                else if \<not> (in_i64 (li + 1) \<and> li + 1 = hi_i) then Unproven
                else if \<not> (lo < q \<and> q < hi) then Unproven
                else if merkle_root_from_proof X lo (nat li) leaf_count lo_path \<noteq> Some root
                     \<or> merkle_root_from_proof X hi (nat hi_i) leaf_count hi_path \<noteq> Some root then Unproven
                else NotRevoked
            | _ \<Rightarrow> Unproven)
         else Unproven)"

section \<open>Facts about the frames\<close>

lemma lp4_eq [simp]: "lp4 pre b = pre @ lp b"
  using to_be_bytes_mod [of 4 "length b"] by (simp add: lp4_def lp_def)

lemma tag_fits: "lp_fits (as_bytes ''averin.broker.grant_head.v1'')" "lp_fits (as_bytes ''averin.broker.revocation.leaf.v1'')"
  by (simp_all add: MAX_LP_LEN_def)

lemma revocation_leaf_preimage_inject:
  "lp_fits (as_bytes g) \<Longrightarrow> lp_fits (as_bytes h) \<Longrightarrow> revocation_leaf_preimage g = revocation_leaf_preimage h \<longleftrightarrow> g = h"
  using lp_frame.enc_split [of "as_bytes g" "as_bytes h" "[]" "[]"] by (auto simp: revocation_leaf_preimage_def)

lemma sha256_length: "sha256_ok X \<Longrightarrow> length (sha256 X d) = 32"
  by (simp add: sha256_ok_def)

section \<open>The hash chain determines the log\<close>

text \<open>The byte strings hashed for a log, last first.\<close>

fun chain :: "('sk, 'vk) externals \<Rightarrow> (int \<times> string) list \<Rightarrow> bytes" where
  "chain X [] = grant_head_seed_preimage"
| "chain X ((seq, ch) # earlier) = grant_head_step_preimage (sha256 X (chain X earlier)) seq ch"

fun chain_preimages :: "('sk, 'vk) externals \<Rightarrow> (int \<times> string) list \<Rightarrow> bytes list" where
  "chain_preimages X [] = [chain X []]"
| "chain_preimages X (g # earlier) = chain X (g # earlier) # chain_preimages X earlier"

lemma grant_head_root_chain: "grant_head_root X grants = ''sha256:'' @ hex_lower (sha256 X (chain X (rev grants)))"
proof -
  have "fold (\<lambda>(seq, ch) acc. sha256 X (grant_head_step_preimage acc seq ch)) grants (sha256 X (chain X earlier))
      = sha256 X (chain X (rev grants @ earlier))" for earlier
    by (induction grants arbitrary: earlier) (auto simp flip: chain.simps(2))
  from this [of "[]"] show ?thesis by (simp add: grant_head_root_def)
qed

lemma step_preimage_inject:
  assumes "length a = 32" "length b = 32" "in_i64 s" "in_i64 t" "lp_fits (as_bytes c)" "lp_fits (as_bytes d)"
    and "grant_head_step_preimage a s c = grant_head_step_preimage b t d"
  shows "a = b \<and> s = t \<and> c = d"
proof -
  have "a @ be8 (i64_as_u64 s) @ lp (as_bytes c) = b @ be8 (i64_as_u64 t) @ lp (as_bytes d)"
    using assms(7) by (simp add: grant_head_step_preimage_def push_be8_def)
  then have ab: "a = b" and "be8 (i64_as_u64 s) @ lp (as_bytes c) = be8 (i64_as_u64 t) @ lp (as_bytes d)"
    using assms(1,2) by (simp_all add: append_eq_append_conv)
  then have "i64_as_u64 s = i64_as_u64 t" "lp (as_bytes c) = lp (as_bytes d)" using be8_frame.enc_split by blast+
  then show ?thesis
    using ab assms(3-6) lp_frame.enc_split [of "as_bytes c" "as_bytes d" "[]" "[]"] i64_as_u64_inject by auto
qed

definition log_ok :: "(int \<times> string) list \<Rightarrow> bool" where
  "log_ok grants \<longleftrightarrow> list_all (\<lambda>(seq, ch). in_i64 seq \<and> lp_fits (as_bytes ch)) grants"

lemma seed_not_step: "grant_head_seed_preimage \<noteq> grant_head_step_preimage a s c"
  by (simp add: grant_head_step_preimage_def push_be8_def)

lemma chain_hashed: "chain X gs \<in> set (chain_preimages X gs)"
  by (cases gs) simp_all

lemma chain_determines:
  assumes "sha256_ok X" "log_ok gs" "log_ok hs" "sha256 X (chain X gs) = sha256 X (chain X hs)"
  shows "gs = hs \<or> (\<exists>a\<in>set (chain_preimages X gs). \<exists>b\<in>set (chain_preimages X hs). collision X a b)"
  using assms(2-4)
proof (induction gs arbitrary: hs)
  case Nil
  show ?case
  proof (cases "chain X [] = chain X hs")
    case True
    then show ?thesis using seed_not_step by (cases hs) auto
  next
    case False
    then have "collision X (chain X []) (chain X hs)" using Nil(3) unfolding collision_def by blast
    then show ?thesis using chain_hashed by blast
  qed
next
  case (Cons g gs)
  obtain s c where g: "g = (s, c)" by fastforce
  show ?case
  proof (cases "chain X (g # gs) = chain X hs")
    case True
    then obtain t d hs' where h: "hs = (t, d) # hs'" using seed_not_step [symmetric] g by (cases hs) auto
    then have "sha256 X (chain X gs) = sha256 X (chain X hs') \<and> s = t \<and> c = d"
      using True Cons.prems(1,2) assms(1) unfolding g
      by (intro step_preimage_inject) (simp_all add: log_ok_def sha256_length)
    then show ?thesis using Cons.IH [of hs'] Cons.prems(1,2) h g by (auto simp: log_ok_def)
  next
    case False
    then have "collision X (chain X (g # gs)) (chain X hs)" using Cons.prems(3) unfolding collision_def by blast
    then show ?thesis using chain_hashed by blast
  qed
qed

text \<open>C26: The root of a broker's grant log determines the log, its sequence numbers and content hashes in order: a
  dropped, renumbered or forked grant changes the root, unless two of the byte strings that the two chains hash are a
  SHA-256 collision.\<close>

theorem grant_head_binding:
  assumes "sha256_ok X" "log_ok gs" "log_ok hs" "grant_head_root X gs = grant_head_root X hs"
  shows "gs = hs \<or> (\<exists>a\<in>set (chain_preimages X (rev gs)). \<exists>b\<in>set (chain_preimages X (rev hs)). collision X a b)"
proof -
  have "sha256 X (chain X (rev gs)) = sha256 X (chain X (rev hs))"
    using assms(4) unfolding grant_head_root_chain by simp
  moreover have "log_ok (rev gs)" "log_ok (rev hs)" using assms(2,3) by (simp_all add: log_ok_def list_all_iff)
  ultimately have "rev gs = rev hs \<or> (\<exists>a\<in>set (chain_preimages X (rev gs)). \<exists>b\<in>set (chain_preimages X (rev hs)). collision X a b)"
    using chain_determines [OF assms(1)] by blast
  then show ?thesis by simp
qed

section \<open>Audit paths\<close>

text \<open>The node preimages hashed by the producer, and those hashed along an audit path.\<close>

fun level_preimages :: "bytes list \<Rightarrow> bytes list" where
  "level_preimages (l # r # level) = merkle_node_preimage l r # level_preimages level"
| "level_preimages _ = []"

function tree_preimages :: "('sk, 'vk) externals \<Rightarrow> bytes list \<Rightarrow> bytes list" where
  "tree_preimages X level =
     (if length level > 1 then level_preimages level @ tree_preimages X (next_level X level) else [])"
  by pat_completeness auto
termination by (relation "measure (\<lambda>(X, level). length level)") auto

function path_preimages :: "('sk, 'vk) externals \<Rightarrow> bytes \<Rightarrow> nat \<Rightarrow> nat \<Rightarrow> bytes list \<Rightarrow> bytes list" where
  "path_preimages X hash idx lst path =
     (if lst = 0 \<or> path = [] \<and> (idx mod 2 = 1 \<or> idx < lst) then []
      else if idx mod 2 = 1 then
        merkle_node_preimage (hd path) hash # path_preimages X (merkle_node_hash X (hd path) hash) (idx div 2) (lst div 2) (tl path)
      else if idx < lst then
        merkle_node_preimage hash (hd path) # path_preimages X (merkle_node_hash X hash (hd path)) (idx div 2) (lst div 2) (tl path)
      else path_preimages X hash (idx div 2) (lst div 2) path)"
  by pat_completeness auto
termination by (relation "measure (\<lambda>(X, hash, idx, lst, path). lst)") auto

declare tree_preimages.simps [simp del] path_preimages.simps [simp del]

lemma nth_next_level:
  "i < length level \<Longrightarrow> next_level X level ! (i div 2) =
     (if i mod 2 = 1 then merkle_node_hash X (level ! (i - 1)) (level ! i)
      else if Suc i < length level then merkle_node_hash X (level ! i) (level ! Suc i)
      else level ! i)"
proof (induction X level arbitrary: i rule: next_level.induct)
  case (1 X l r level)
  consider "i = 0" | "i = 1" | j where "i = Suc (Suc j)" by (metis One_nat_def not0_implies_Suc)
  then show ?case
  proof cases
    case (3 j)
    then have "j < length level" using 1(2) by simp
    from 1(1) [OF this] 3 show ?thesis by (cases j) auto
  qed simp_all
qed auto

lemma nth_level_preimages:
  "i < length level \<Longrightarrow> i mod 2 = 1 \<Longrightarrow> merkle_node_preimage (level ! (i - 1)) (level ! i) \<in> set (level_preimages level)"
proof (induction level arbitrary: i rule: level_preimages.induct)
  case (1 l r level)
  consider "i = 0" | "i = 1" | j where "i = Suc (Suc j)" by (metis One_nat_def not0_implies_Suc)
  then show ?case
  proof cases
    case j: (3 j)
    then have "j < length level" "j mod 2 = 1" using 1(2,3) by simp_all
    then have "j \<ge> 1" "merkle_node_preimage (level ! (j - 1)) (level ! j) \<in> set (level_preimages level)" using 1(1) by (auto intro: Suc_leI)
    then show ?thesis using j by (cases j) auto
  qed (use 1(3) in simp_all)
qed (auto simp: less_Suc_eq)

lemma node_preimage_inject:
  "length l = 32 \<Longrightarrow> length l' = 32 \<Longrightarrow> merkle_node_preimage l r = merkle_node_preimage l' r' \<longleftrightarrow> l = l' \<and> r = r'"
  by (simp add: merkle_node_preimage_def append_eq_append_conv)

abbreviation digests :: "bytes list \<Rightarrow> bool" where
  "digests ds \<equiv> list_all (\<lambda>d. length d = 32) ds"

lemma digests_next_level: "sha256_ok X \<Longrightarrow> digests level \<Longrightarrow> digests (next_level X level)"
  by (induction X level rule: next_level.induct) (auto simp: merkle_node_hash_def sha256_length)

text \<open>Equal node hashes have equal children, or their preimages collide.\<close>

lemma node_hash_inject:
  assumes "length l = 32" "length l' = 32" "merkle_node_hash X l r = merkle_node_hash X l' r'"
  shows "l = l' \<and> r = r' \<or> collision X (merkle_node_preimage l r) (merkle_node_preimage l' r')"
  using assms node_preimage_inject [OF assms(1,2), of r r'] by (auto simp: merkle_node_hash_def collision_def)

lemma tree_preimages_Suc:
  "length level = Suc lst \<Longrightarrow> lst > 0 \<Longrightarrow> tree_preimages X level = level_preimages level @ tree_preimages X (next_level X level)"
  by (simp add: tree_preimages.simps [of X level])

text \<open>One level up: a node hash found at its place in the next level comes from the two nodes below it.\<close>

lemma audit_step:
  assumes "digests level" "length l = 32" "j < length level" "j mod 2 = 1"
    and "merkle_node_hash X l r = next_level X level ! (j div 2)"
  shows "l = level ! (j - 1) \<and> r = level ! j \<or> (\<exists>b\<in>set (tree_preimages X level). collision X (merkle_node_preimage l r) b)"
proof -
  have j: "0 < j" using assms(4) by (cases j) simp_all
  have "length (level ! (j - 1)) = 32" using assms(1,3) by (simp add: list_all_length)
  moreover have "merkle_node_hash X l r = merkle_node_hash X (level ! (j - 1)) (level ! j)"
    using assms(5) nth_next_level [OF assms(3), of X] assms(4) by simp
  moreover have "merkle_node_preimage (level ! (j - 1)) (level ! j) \<in> set (tree_preimages X level)"
    using nth_level_preimages [OF assms(3,4)] tree_preimages_Suc [of level "length level - 1" X] assms(3) j by simp
  ultimately show ?thesis using node_hash_inject assms(2) by blast
qed

abbreviation path_collision :: "('sk, 'vk) externals \<Rightarrow> bytes list \<Rightarrow> bytes list \<Rightarrow> bool" where
  "path_collision X ps qs \<equiv> (\<exists>a\<in>set ps. \<exists>b\<in>set qs. collision X a b)"

lemma proof_loop_sound:
  assumes X: "sha256_ok X"
  shows "length level = Suc lst \<Longrightarrow> digests level \<Longrightarrow> length hash = 32 \<Longrightarrow> digests path \<Longrightarrow> idx \<le> lst \<Longrightarrow>
    proof_loop X hash idx lst path = Some (fold_levels X level) \<Longrightarrow>
    hash = level ! idx \<or> path_collision X (path_preimages X hash idx lst path) (tree_preimages X level)"
proof (induction lst arbitrary: level hash idx path rule: less_induct)
  case (less lst)
  show ?case
  proof (cases "lst = 0")
    case True
    with less.prems show ?thesis by (simp add: proof_loop.simps [of X hash 0 0 path] fold_levels.simps [of X level] split: if_splits)
  next
    case False
    let ?next = "next_level X level" and ?T = "tree_preimages X level" and ?P = "path_preimages X hash idx lst path"
    have up: "length ?next = Suc (lst div 2)" "digests ?next" "idx div 2 \<le> lst div 2" "fold_levels X level = fold_levels X ?next"
      using less.prems False digests_next_level [OF X] fold_levels.simps [of X level] by (simp_all add: div_le_mono)
    have IH: "h = ?next ! (idx div 2) \<or> path_collision X (path_preimages X h (idx div 2) (lst div 2) ps) ?T"
      if "length h = 32" "digests ps" "proof_loop X h (idx div 2) (lst div 2) ps = Some (fold_levels X level)" for h ps
      using less.IH [of "lst div 2" ?next h ps "idx div 2"] that up False tree_preimages_Suc [OF less.prems(1), of X] by auto
    note step = proof_loop.simps [of X hash idx lst path] path_preimages.simps [of X hash idx lst path]
    have n32: "length (merkle_node_hash X l r) = 32" for l r using X by (simp add: merkle_node_hash_def sha256_length)
    consider (right) "idx mod 2 = 1" | (left) "idx mod 2 = 0" "idx < lst" | (promoted) "idx mod 2 = 0" "idx = lst"
      using less.prems(5) by linarith
    then show ?thesis
    proof cases
      case right
      then obtain sib ps where path: "path = sib # ps" using less.prems(6) False step(1) by (cases path) auto
      have sub: "set ?P = insert (merkle_node_preimage sib hash) (set (path_preimages X (merkle_node_hash X sib hash) (idx div 2) (lst div 2) ps))"
        unfolding step(2) using right False path by simp
      have "merkle_node_hash X sib hash = ?next ! (idx div 2) \<or> path_collision X ?P ?T"
        using IH [OF n32, of ps sib hash] less.prems(4,6) right False path step(1) unfolding sub by auto
      then show ?thesis
        using audit_step [OF less.prems(2), of sib idx X hash] less.prems(1,4,5) right path unfolding sub by auto
    next
      case left
      then obtain sib ps where path: "path = sib # ps" using less.prems(6) False step(1) by (cases path) auto
      have sub: "set ?P = insert (merkle_node_preimage hash sib) (set (path_preimages X (merkle_node_hash X hash sib) (idx div 2) (lst div 2) ps))"
        unfolding step(2) using left False path by simp
      have "merkle_node_hash X hash sib = ?next ! (Suc idx div 2) \<or> path_collision X ?P ?T"
        using IH [OF n32, of ps hash sib] less.prems(4,6) left False path step(1) unfolding sub by auto
      then show ?thesis
        using audit_step [OF less.prems(2,3), of "Suc idx" X sib] less.prems(1,5) left unfolding sub by (auto simp: mod_Suc)
    next
      case promoted
      have "?next ! (idx div 2) = level ! idx" using promoted less.prems(1) by (subst nth_next_level) simp_all
      then show ?thesis using IH [of hash path] less.prems(3,4,6) promoted False step by simp
    qed
  qed
qed

text \<open>All byte strings hashed for a tree over leaf values, and for an audit path of one of them.\<close>

definition merkle_preimages :: "('sk, 'vk) externals \<Rightarrow> bytes list \<Rightarrow> bytes list" where
  "merkle_preimages X leaves = map merkle_leaf_preimage leaves @ tree_preimages X (map (merkle_leaf_hash X) leaves)"

definition audit_preimages :: "('sk, 'vk) externals \<Rightarrow> bytes \<Rightarrow> nat \<Rightarrow> nat \<Rightarrow> bytes list \<Rightarrow> bytes list" where
  "audit_preimages X v i n path = merkle_leaf_preimage v # path_preimages X (merkle_leaf_hash X v) i (n - 1) path"

lemma audit_sound:
  assumes X: "sha256_ok X" and path: "digests path"
    and root: "merkle_root_from_proof X v i (length leaves) path = Some (fold_levels X (map (merkle_leaf_hash X) leaves))"
  shows "i < length leaves \<and> (v = leaves ! i \<or> path_collision X (audit_preimages X v i (length leaves) path) (merkle_preimages X leaves))"
proof -
  let ?level = "map (merkle_leaf_hash X) leaves"
  have i: "i < length leaves" and loop: "proof_loop X (merkle_leaf_hash X v) i (length leaves - 1) path = Some (fold_levels X ?level)"
    using root by (auto simp: merkle_root_from_proof_def split: if_splits)
  have l32: "digests ?level" "length (merkle_leaf_hash X v) = 32" using X by (simp_all add: list_all_length merkle_leaf_hash_def sha256_length)
  have "merkle_leaf_hash X v = ?level ! i \<or> path_collision X (path_preimages X (merkle_leaf_hash X v) i (length leaves - 1) path) (tree_preimages X ?level)"
    by (rule proof_loop_sound [OF X _ l32 path _ loop]) (use i in simp_all)
  moreover have "v = leaves ! i \<or> collision X (merkle_leaf_preimage v) (merkle_leaf_preimage (leaves ! i))"
    if "merkle_leaf_hash X v = ?level ! i"
    using that i by (auto simp: merkle_leaf_hash_def collision_def merkle_leaf_preimage_def)
  ultimately show ?thesis using i by (auto simp: merkle_preimages_def audit_preimages_def)
qed

section \<open>Proofs against the root of a list\<close>

lemma sentinel_bounds: "length d = n \<Longrightarrow> replicate n (0 :: u8) \<le> d \<and> d \<le> replicate n 0xFF"
proof (induction n arbitrary: d)
  case (Suc n)
  then obtain b ds where d: "d = b # ds" "length ds = n" by (cases d) auto
  have "b \<le> 0xFF" using unat_u8_less [of b] by (simp add: word_le_nat_alt del: unat_u8_less)
  moreover have "0 \<le> b" by simp
  ultimately show ?case using Suc.IH [OF d(2)] by (auto simp: d order.order_iff_strict)
qed simp

lemma digests_leaves: "sha256_ok X \<Longrightarrow> digests (map (revocation_leaf X) revoked)"
  by (simp add: list_all_iff revocation_leaf_def sha256_length)

lemma sorted_leaves: "sha256_ok X \<Longrightarrow> sorted (revocation_leaves X revoked)"
  using digests_leaves [of X revoked] sentinel_bounds [of _ 32]
  by (auto simp: revocation_leaves_def sorted_append list_all_iff)

lemma parse_hex32_length: "parse_hex32 s = Some d \<Longrightarrow> length d = 32"
  by (simp add: parse_hex32_def hex32_iff)

lemma parse_hex32_path_digests: "parse_hex32_path v = Some p \<Longrightarrow> digests p"
proof -
  assume "parse_hex32_path v = Some p"
  then obtain arr where "map (\<lambda>e. Option.bind (as_str e) parse_hex32) arr = map Some p"
    by (auto simp: parse_hex32_path_def bind_eq_Some_conv those_eq_Some split: if_splits)
  then have s: "set (map Some p) = set (map (\<lambda>e. Option.bind (as_str e) parse_hex32) arr)" by simp
  have "length d = 32" if "d \<in> set p" for d
  proof -
    have "Some d \<in> set (map (\<lambda>e. Option.bind (as_str e) parse_hex32) arr)" using that unfolding s [symmetric] by simp
    then obtain e where "Option.bind (as_str e) parse_hex32 = Some d" by fastforce
    then show ?thesis using parse_hex32_length by (auto simp: bind_eq_Some_conv)
  qed
  then show ?thesis by (simp add: list_all_iff)
qed

lemma check_revocation_proof_cases:
  "check_revocation_proof X pr g root n = Revoked \<longleftrightarrow>
     field_str pr ''type'' = Some ''membership''
     \<and> (\<exists>i p. int_in pr ''index'' = Some i \<and> i \<ge> 0 \<and> parse_hex32_path (get pr ''path'') = Some p
          \<and> merkle_root_from_proof X (revocation_leaf X g) (nat i) n p = Some root)"
  "check_revocation_proof X pr g root n = NotRevoked \<longleftrightarrow>
     field_str pr ''type'' = Some ''nonmembership''
     \<and> (\<exists>lo hi i p q. Option.bind (field_str pr ''lo'') parse_hex32 = Some lo \<and> Option.bind (field_str pr ''hi'') parse_hex32 = Some hi
          \<and> int_in pr ''lo_index'' = Some i \<and> int_in pr ''hi_index'' = Some (i + 1) \<and> i \<ge> 0 \<and> in_i64 (i + 1)
          \<and> parse_hex32_path (get pr ''lo_path'') = Some p \<and> parse_hex32_path (get pr ''hi_path'') = Some q
          \<and> lo < revocation_leaf X g \<and> revocation_leaf X g < hi
          \<and> merkle_root_from_proof X lo (nat i) n p = Some root \<and> merkle_root_from_proof X hi (nat (i + 1)) n q = Some root)"
  unfolding check_revocation_proof_def Let_def
  by (auto simp del: field_str_Some split: option.splits if_splits)

text \<open>The byte strings hashed when a proof is checked, and when the tree of a list is built.\<close>

definition audit_of :: "('sk, 'vk) externals \<Rightarrow> bytes option \<Rightarrow> int option \<Rightarrow> nat \<Rightarrow> bytes list option \<Rightarrow> bytes list" where
  "audit_of X v i n path =
     (case (v, i, path) of (Some v, Some i, Some p) \<Rightarrow> audit_preimages X v (nat i) n p | _ \<Rightarrow> [])"

definition checked_preimages :: "('sk, 'vk) externals \<Rightarrow> canon_value \<Rightarrow> string \<Rightarrow> nat \<Rightarrow> bytes list" where
  "checked_preimages X pr g n =
     revocation_leaf_preimage g
     # audit_of X (Some (revocation_leaf X g)) (int_in pr ''index'') n (parse_hex32_path (get pr ''path''))
     @ audit_of X (Option.bind (field_str pr ''lo'') parse_hex32) (int_in pr ''lo_index'') n (parse_hex32_path (get pr ''lo_path''))
     @ audit_of X (Option.bind (field_str pr ''hi'') parse_hex32) (int_in pr ''hi_index'') n (parse_hex32_path (get pr ''hi_path''))"

definition list_preimages :: "('sk, 'vk) externals \<Rightarrow> string list \<Rightarrow> bytes list" where
  "list_preimages X revoked = map revocation_leaf_preimage revoked @ merkle_preimages X (revocation_leaves X revoked)"

text \<open>A value strictly between two neighbours of a sorted list is not in it.\<close>

lemma bracketed_absent:
  assumes "sorted xs" "Suc i < length xs" "xs ! i < x" "x < xs ! Suc i"
  shows "x \<notin> set xs"
proof
  assume "x \<in> set xs"
  then obtain j where j: "j < length xs" "xs ! j = x" by (auto simp: in_set_conv_nth)
  consider "j \<le> i" | "Suc i \<le> j" by linarith
  then show False
    using sorted_nth_mono [OF assms(1), of j i] sorted_nth_mono [OF assms(1), of "Suc i" j] assms(2-4) j by cases auto
qed

lemma revoked_leaf_present:
  assumes "revocation_leaf X g \<in> set (revocation_leaves X revoked)" "list_all (\<lambda>h. lp_fits (as_bytes h)) (g # revoked)"
  shows "g \<in> set revoked \<or> revocation_leaf X g \<in> {replicate 32 0, replicate 32 0xFF}
    \<or> (\<exists>h\<in>set revoked. collision X (revocation_leaf_preimage g) (revocation_leaf_preimage h))"
proof -
  consider "revocation_leaf X g \<in> {replicate 32 0, replicate 32 0xFF}" | h where "h \<in> set revoked" "revocation_leaf X g = revocation_leaf X h"
    using assms(1) by (auto simp: revocation_leaves_def)
  then show ?thesis
  proof cases
    case (2 h)
    then show ?thesis
      using revocation_leaf_preimage_inject [of g h] assms(2) by (auto simp: revocation_leaf_def collision_def list_all_iff)
  qed blast
qed

text \<open>C25: Against the root of the tree built from a revocation list, with its leaf count, an accepted proof tells the truth
  about the list: a non-membership proof is accepted only for a grant that is not listed, a membership proof only for a
  listed grant (or a grant whose leaf is one of the two sentinel values), unless a byte string hashed by the check and one
  hashed for the tree are a SHA-256 collision.\<close>

theorem revocation_proof_sound:
  assumes "sha256_ok X" "list_all (\<lambda>h. lp_fits (as_bytes h)) (g # revoked)"
    and "revocation_merkle_root X revoked = ''sha256:'' @ hex_lower root" "n = length revoked + 2"
  shows "path_collision X (checked_preimages X pr g n) (list_preimages X revoked) \<or>
    (case check_revocation_proof X pr g root n of
       NotRevoked \<Rightarrow> g \<notin> set revoked
     | Revoked \<Rightarrow> g \<in> set revoked \<or> revocation_leaf X g \<in> {replicate 32 0, replicate 32 0xFF}
     | Unproven \<Rightarrow> True)"
proof -
  let ?leaves = "revocation_leaves X revoked" and ?q = "revocation_leaf X g"
  have root: "root = fold_levels X (map (merkle_leaf_hash X) ?leaves)" using assms(3) by (simp add: revocation_merkle_root_def)
  have n: "n = length ?leaves" using assms(4) by (simp add: revocation_leaves_def)
  note sound = audit_sound [OF assms(1) parse_hex32_path_digests, of _ _ _ _ ?leaves, folded root n]
  show ?thesis
  proof (cases "check_revocation_proof X pr g root n")
    case NotRevoked
    then obtain lo hi i p q where f: "Option.bind (field_str pr ''lo'') parse_hex32 = Some lo"
      "Option.bind (field_str pr ''hi'') parse_hex32 = Some hi" "int_in pr ''lo_index'' = Some i" "int_in pr ''hi_index'' = Some (i + 1)"
      "i \<ge> 0" "parse_hex32_path (get pr ''lo_path'') = Some p" "parse_hex32_path (get pr ''hi_path'') = Some q" "lo < ?q" "?q < hi"
      "merkle_root_from_proof X lo (nat i) n p = Some root" "merkle_root_from_proof X hi (nat (i + 1)) n q = Some root"
      unfolding check_revocation_proof_cases by blast
    have *: "nat (i + 1) < n" "lo = ?leaves ! nat i \<or> path_collision X (audit_preimages X lo (nat i) n p) (merkle_preimages X ?leaves)"
      "hi = ?leaves ! nat (i + 1) \<or> path_collision X (audit_preimages X hi (nat (i + 1)) n q) (merkle_preimages X ?leaves)"
      using sound [OF f(6,10)] sound [OF f(7,11)] by blast+
    have "g \<notin> set revoked" if "lo = ?leaves ! nat i" "hi = ?leaves ! nat (i + 1)"
      using bracketed_absent [OF sorted_leaves [OF assms(1)], of "nat i" revoked ?q] that f(5,8,9) *(1) n
      by (auto simp: nat_add_distrib revocation_leaves_def)
    then show ?thesis
      using *(2,3) f(1-4,6,7) NotRevoked by (auto simp: checked_preimages_def list_preimages_def audit_of_def)
  next
    case Revoked
    then obtain i p where f: "int_in pr ''index'' = Some i" "parse_hex32_path (get pr ''path'') = Some p"
      "merkle_root_from_proof X ?q (nat i) n p = Some root"
      unfolding check_revocation_proof_cases by blast
    have "?q \<in> set ?leaves \<or> path_collision X (audit_preimages X ?q (nat i) n p) (merkle_preimages X ?leaves)"
      using sound [OF f(2,3)] n by auto
    then show ?thesis
      using revoked_leaf_present [OF _ assms(2)] f(1,2) Revoked by (fastforce simp: checked_preimages_def list_preimages_def audit_of_def)
  qed simp
qed

section \<open>Concrete instances\<close>

lemma demo_grant_heads: "grant_head_root demo [(1, ''a'')] = grant_head_root demo [(2, ''b'')]"
proof -
  have seed: "length grant_head_seed_preimage = 31" by (simp add: grant_head_seed_preimage_def lp_def)
  have "sha256 demo (grant_head_step_preimage (sha256 demo grant_head_seed_preimage) s c)
      = grant_head_seed_preimage @ take 1 (sha256 demo grant_head_seed_preimage)" for s c
    using seed by (simp add: grant_head_step_preimage_def push_be8_def demo_def)
  then show ?thesis by (simp add: grant_head_root_def)
qed

theorem grant_head_binding_witness:
  "\<exists>a\<in>set (chain_preimages demo [(1, ''a'')]). \<exists>b\<in>set (chain_preimages demo [(2, ''b'')]). collision demo a b"
  using grant_head_binding [OF demo_ok(1) _ _ demo_grant_heads] by (simp add: log_ok_def in_i64_def MAX_LP_LEN_def)

definition demo_membership :: canon_value where
  "demo_membership = Object [(''type'', Str ''membership''), (''index'', CInt 1),
     (''path'', Array [Str (hex_lower (merkle_leaf_hash demo (replicate 32 0))), Str (hex_lower (merkle_leaf_hash demo (replicate 32 0xFF)))])]"

definition demo_root :: bytes where
  "demo_root = fold_levels demo (map (merkle_leaf_hash demo) (revocation_leaves demo [''r'']))"

lemma demo_revoked: "check_revocation_proof demo demo_membership ''r'' demo_root 3 = Revoked"
proof -
  let ?lo = "merkle_leaf_hash demo (replicate 32 0)" and ?hi = "merkle_leaf_hash demo (replicate 32 0xFF)"
    and ?q = "merkle_leaf_hash demo (revocation_leaf demo ''r'')"
  have "length (merkle_leaf_hash demo d) = 32" for d using demo_ok(1) by (simp add: merkle_leaf_hash_def sha256_length)
  then have "hex32 (hex_lower (merkle_leaf_hash demo d)) = Some (merkle_leaf_hash demo d)" for d by (simp add: hex32_iff)
  then have p: "parse_hex32_path (get demo_membership ''path'') = Some [?lo, ?hi]"
    by (simp add: demo_membership_def get_Object parse_hex32_path_def as_array_def as_str_def parse_hex32_def MAX_REVOCATION_PATH_def)
  have "demo_root = merkle_node_hash demo (merkle_node_hash demo ?lo ?q) ?hi"
    by (simp add: demo_root_def revocation_leaves_def fold_levels.simps)
  then have "merkle_root_from_proof demo (revocation_leaf demo ''r'') 1 3 [?lo, ?hi] = Some demo_root"
    by (simp add: merkle_root_from_proof_def proof_loop.simps)
  moreover have "field_str demo_membership ''type'' = Some ''membership''" "int_in demo_membership ''index'' = Some 1"
    by (simp_all add: demo_membership_def int_in_def get_Object)
  ultimately show ?thesis using p unfolding check_revocation_proof_cases by auto
qed

theorem revocation_proof_sound_witness:
  "revocation_merkle_root demo [''r''] = ''sha256:'' @ hex_lower demo_root
   \<and> check_revocation_proof demo demo_membership ''r'' demo_root 3 = Revoked
   \<and> (path_collision demo (checked_preimages demo demo_membership ''r'' 3) (list_preimages demo [''r''])
      \<or> ''r'' \<in> set [''r''] \<or> revocation_leaf demo ''r'' \<in> {replicate 32 0, replicate 32 0xFF})"
proof -
  have r: "revocation_merkle_root demo [''r''] = ''sha256:'' @ hex_lower demo_root"
    by (simp add: revocation_merkle_root_def demo_root_def)
  show ?thesis
    using revocation_proof_sound [OF demo_ok(1) _ r, where n = 3 and g = "''r''" and pr = demo_membership] r demo_revoked
    by (simp add: MAX_LP_LEN_def)
qed

end
