(* ===== verification/Timestamps.thy ===== *)
theory Timestamps
  imports Averin_Base
begin

text \<open>
  Canonical timestamps (\<open>canonical_ts_millis\<close> of \<open>core/src/verify/temporal.rs\<close>): the shape, the calendar
  check and the day count. The verifier compares such times both as texts and as milliseconds; the
  result is that the two orders agree.
\<close>

section \<open>Timestamps\<close>

definition is_ascii_digit :: "u8 \<Rightarrow> bool" where
  "is_ascii_digit c \<longleftrightarrow> 0x30 \<le> c \<and> c \<le> 0x39"

fun num_loop :: "bytes \<Rightarrow> int \<Rightarrow> int option" where
  "num_loop [] n = Some n"
| "num_loop (c # cs) n = (if \<not> is_ascii_digit c then None else num_loop cs (n * 10 + uint (c - 0x30)))"

definition num :: "bytes \<Rightarrow> nat \<Rightarrow> nat \<Rightarrow> int option" where
  "num b i j = num_loop (take (j - i) (drop i b)) 0"

definition days_in_month :: "int \<Rightarrow> int \<Rightarrow> int option" where
  "days_in_month year month =
     (let leap = (year mod 4 = 0 \<and> year mod 100 \<noteq> 0) \<or> year mod 400 = 0
      in if month \<in> {1, 3, 5, 7, 8, 10, 12} then Some 31
         else if month \<in> {4, 6, 9, 11} then Some 30
         else if month = 2 then Some (if leap then 29 else 28)
         else None)"

definition days_from_civil :: "int \<Rightarrow> int \<Rightarrow> int \<Rightarrow> int" where
  "days_from_civil year month day =
     (let y = (if month \<le> 2 then year - 1 else year);
          era = y div 400;
          yoe = y - era * 400;
          mp = (month + 9) mod 12;
          doy = (153 * mp + 2) div 5 + day - 1;
          doe = yoe * 365 + yoe div 4 - yoe div 100 + doy
      in era * 146097 + doe - 719468)"

definition canonical_ts_millis :: "string \<Rightarrow> int option" where
  "canonical_ts_millis s =
     (let b = as_bytes s
      in if length b \<noteq> 24 \<or> b ! 4 \<noteq> 0x2D \<or> b ! 7 \<noteq> 0x2D \<or> b ! 10 \<noteq> 0x54 \<or> b ! 13 \<noteq> 0x3A \<or> b ! 16 \<noteq> 0x3A
            \<or> b ! 19 \<noteq> 0x2E \<or> b ! 23 \<noteq> 0x5A then None
         else
           Option.bind (num b 0 4) (\<lambda>year. Option.bind (num b 5 7) (\<lambda>month. Option.bind (num b 8 10) (\<lambda>day.
           Option.bind (num b 11 13) (\<lambda>hour. Option.bind (num b 14 16) (\<lambda>min. Option.bind (num b 17 19) (\<lambda>sec.
           Option.bind (num b 20 23) (\<lambda>ms.
           Option.bind (days_in_month year month) (\<lambda>dim.
           if day < 1 \<or> day > dim \<or> hour > 23 \<or> min > 59 \<or> sec > 59 then None
           else
             let days = days_from_civil year month day
             in Some ((((days * 24 + hour) * 60 + min) * 60 + sec) * 1000 + ms))))))))))"

section \<open>The day count\<close>

definition leap :: "int \<Rightarrow> bool" where
  "leap y \<longleftrightarrow> (y mod 4 = 0 \<and> y mod 100 \<noteq> 0) \<or> y mod 400 = 0"

text \<open>Days before the first of March of a year, up to a constant.\<close>

definition year_days :: "int \<Rightarrow> int" where
  "year_days y = 365 * y + y div 4 - y div 100 + y div 400"

definition month_days :: "int \<Rightarrow> int" where
  "month_days mp = (153 * mp + 2) div 5"

lemma div_succ:
  assumes "(k :: int) > 0"
  shows "(y + 1) div k = y div k + (if (y + 1) mod k = 0 then 1 else 0)"
proof -
  define q where "q = y div k"
  define r where "r = y mod k"
  have r: "0 \<le> r" "r < k" and y: "y = k * q + r" using assms by (simp_all add: q_def r_def)
  show ?thesis
  proof (cases "r + 1 = k")
    case True
    then have "y + 1 = k * (q + 1)" unfolding y by (simp add: algebra_simps)
    then show ?thesis using assms by (simp add: q_def [symmetric])
  next
    case False
    then have "(y + 1) div k = q" "(y + 1) mod k = r + 1"
      using int_div_pos_eq [of "y + 1" k q "r + 1"] int_mod_pos_eq [of "y + 1" k q "r + 1"] r y by simp_all
    then show ?thesis using r by (simp add: q_def [symmetric])
  qed
qed

lemma year_days_step: "year_days (y + 1) = year_days y + 365 + (if leap (y + 1) then 1 else 0)"
proof -
  have "(y + 1) mod 100 = 0 \<Longrightarrow> (y + 1) mod 4 = 0" "(y + 1) mod 400 = 0 \<Longrightarrow> (y + 1) mod 100 = 0"
    by (auto simp: mod_eq_0_iff_dvd elim: dvd_trans [rotated])
  then show ?thesis unfolding year_days_def leap_def div_succ [of 4, simplified] div_succ [of 100, simplified] div_succ [of 400, simplified] by auto
qed

lemma year_days_mono: "y \<le> z \<Longrightarrow> year_days y \<le> year_days z"
  by (induction z rule: int_ge_induct) (simp_all add: year_days_step)

lemma days_from_civil_eq:
  "days_from_civil year month day =
     year_days (if month \<le> 2 then year - 1 else year) + month_days ((month + 9) mod 12) + day - 719469"
proof -
  have e: "e * 146097 + ((y - e * 400) * 365 + (y - e * 400) div 4 - (y - e * 400) div 100) = year_days y" if "e = y div 400" for e y :: int
  proof -
    have "y div 4 = 100 * e + (y - e * 400) div 4" "y div 100 = 4 * e + (y - e * 400) div 100"
      using div_mult_self2 [of 4 "y - e * 400" "100 * e"] div_mult_self2 [of 100 "y - e * 400" "4 * e"] by (simp_all add: algebra_simps)
    then show ?thesis unfolding year_days_def that [symmetric] by simp
  qed
  show ?thesis unfolding days_from_civil_def Let_def month_days_def by (simp add: e [OF refl, symmetric])
qed

text \<open>A date of the calendar, and its place in the year that starts in March.\<close>

definition is_date :: "int \<Rightarrow> int \<Rightarrow> int \<Rightarrow> bool" where
  "is_date y m d \<longleftrightarrow> (\<exists>dim. days_in_month y m = Some dim \<and> 1 \<le> d \<and> d \<le> dim)"

lemma is_date_month:
  assumes "is_date y m d"
  shows "m \<in> {1, 2, 3, 4, 5, 6, 7, 8, 9, 10, 11, 12}" "1 \<le> d" "d \<le> 31" "m \<in> {4, 6, 9, 11} \<Longrightarrow> d \<le> 30"
    "m = 2 \<Longrightarrow> d \<le> 28 + (if leap y then 1 else 0)"
  using assms by (auto simp: is_date_def days_in_month_def leap_def Let_def split: if_splits)

lemma march_month:
  assumes "m \<in> {1, 2, 3, 4, 5, 6, 7, 8, 9, 10, 11, 12 :: int}"
  shows "(m + 9) mod 12 = (if m \<le> 2 then m + 9 else m - 3)" "0 \<le> month_days ((m + 9) mod 12)"
  using assms by (auto simp: month_days_def)

lemma march_year_end:
  assumes "is_date y m d"
  shows "month_days ((m + 9) mod 12) + d \<le> 365 + (if leap ((if m \<le> 2 then y - 1 else y) + 1) then 1 else 0)"
  using is_date_month [OF assms] by (auto simp: month_days_def)

lemma march_month_less:
  assumes "is_date y m d" "is_date y' m' d'" "(m + 9) mod 12 < (m' + 9) mod 12"
  shows "month_days ((m + 9) mod 12) + d < month_days ((m' + 9) mod 12) + d'"
proof -
  let ?p = "(m + 9) mod 12" and ?p' = "(m' + 9) mod 12"
  have "month_days ?p + d \<le> month_days (?p + 1)" if "?p \<noteq> 11"
    using is_date_month [OF assms(1)] that by (auto simp: month_days_def)
  moreover have "?p' \<le> 11" using march_month(1) [OF is_date_month(1) [OF assms(2)]] is_date_month(1) [OF assms(2)] by (auto split: if_splits)
  moreover have "month_days (?p + 1) \<le> month_days ?p'" using assms(3) unfolding month_days_def by (intro zdiv_mono1) simp_all
  ultimately show ?thesis using is_date_month(2) [OF assms(2)] assms(3) by linarith
qed

lemma days_less:
  assumes "is_date y m d" "is_date y' m' d'" "y < y' \<or> y = y' \<and> (m < m' \<or> m = m' \<and> d < d')"
  shows "days_from_civil y m d < days_from_civil y' m' d'"
proof -
  define z z' p p' where "z = (if m \<le> 2 then y - 1 else y)" and "z' = (if m' \<le> 2 then y' - 1 else y')"
    and "p = (m + 9) mod 12" and "p' = (m' + 9) mod 12"
  note defs = z_def z'_def p_def p'_def
  note m = is_date_month(1) [OF assms(1)] and m' = is_date_month(1) [OF assms(2)]
  have "12 * z + p = 12 * y + m - 3" "12 * z' + p' = 12 * y' + m' - 3"
    unfolding defs march_month(1) [OF m] march_month(1) [OF m'] by simp_all
  moreover have "0 \<le> p" "p < 12" "0 \<le> p'" "p' < 12" "1 \<le> m" "m \<le> 12" "1 \<le> m'" "m' \<le> 12" using m m' by (auto simp: defs)
  ultimately consider "z < z'" | "z = z'" "p < p'" | "z = z'" "p = p'" "d < d'"
    using assms(3) by linarith
  then have "year_days z + month_days p + d < year_days z' + month_days p' + d'"
  proof cases
    case 1
    have "year_days z + month_days p + d \<le> year_days (z + 1)"
      using march_year_end [OF assms(1)] unfolding year_days_step z_def p_def by simp
    also have "\<dots> \<le> year_days z'" using 1 by (intro year_days_mono) simp
    finally show ?thesis using march_month(2) [OF m'] is_date_month(2) [OF assms(2)] unfolding p'_def by linarith
  next
    case 2
    then show ?thesis using march_month_less [OF assms(1,2)] unfolding p_def p'_def by simp
  qed simp
  then show ?thesis unfolding days_from_civil_eq defs by simp
qed

lemma days_compare:
  assumes "is_date y m d" "is_date y' m' d'"
  shows "days_from_civil y m d < days_from_civil y' m' d' \<longleftrightarrow> y < y' \<or> y = y' \<and> (m < m' \<or> m = m' \<and> d < d')"
    "days_from_civil y m d = days_from_civil y' m' d' \<longleftrightarrow> y = y' \<and> m = m' \<and> d = d'"
  using days_less [OF assms] days_less [OF assms(2,1)] by (metis less_irrefl linorder_neqE not_less_iff_gr_or_eq)+

section \<open>Texts and numbers\<close>

lemma radix_less:
  assumes "0 \<le> r" "r < k" "0 \<le> r'" "r' < (k :: int)"
  shows "q * k + r < q' * k + r' \<longleftrightarrow> q < q' \<or> q = q' \<and> r < r'"
proof -
  have "q * k + r < q' * k + r'" if "q < q'" "0 \<le> r'" "r < k" for q q' r r'
  proof -
    have "(q + 1) * k \<le> q' * k" using that(1) assms(1,2) by (intro mult_right_mono) simp_all
    then show ?thesis using that by (simp add: algebra_simps)
  qed
  from this [of q q' r' r] this [of q' q r r'] assms show ?thesis by (cases q q' rule: linorder_cases) auto
qed

lemma radix_eq:
  assumes "0 \<le> r" "r < k" "0 \<le> r'" "r' < (k :: int)"
  shows "q * k + r = q' * k + r' \<longleftrightarrow> q = q' \<and> r = r'"
  using radix_less [OF assms, of q q'] radix_less [OF assms(3,4,1,2), of q' q] by (metis less_irrefl linorder_neqE)

lemma digit_value:
  assumes "is_ascii_digit c"
  shows "0 \<le> uint (c - 0x30)" "uint (c - 0x30) < 10" "uint (c - 0x30) = uint c - 48"
proof -
  have c: "48 \<le> uint c" "uint c \<le> 57" using assms by (simp_all add: is_ascii_digit_def word_le_def)
  then show "uint (c - 0x30) = uint c - 48" by (simp add: uint_word_ariths)
  with c show "0 \<le> uint (c - 0x30)" "uint (c - 0x30) < 10" by simp_all
qed

text \<open>Digit strings of one length are ordered as the numbers they spell.\<close>

lemma num_loop_compare:
  assumes "length cs = length ds" "num_loop cs m = Some a" "num_loop ds n = Some b"
  shows "a < b \<longleftrightarrow> m < n \<or> m = n \<and> cs < ds" "a = b \<longleftrightarrow> m = n \<and> cs = ds"
proof -
  have "(a < b \<longleftrightarrow> m < n \<or> m = n \<and> cs < ds) \<and> (a = b \<longleftrightarrow> m = n \<and> cs = ds)"
    using assms
  proof (induction cs ds arbitrary: m n rule: list_induct2)
    case (Cons c cs d ds)
    then have c: "is_ascii_digit c" "is_ascii_digit d" by (auto split: if_splits)
    note v = digit_value [OF c(1)] digit_value [OF c(2)]
    have "m * 10 + uint (c - 0x30) < n * 10 + uint (d - 0x30) \<longleftrightarrow> m < n \<or> m = n \<and> c < d"
      using radix_less [OF v(1,2,4,5), of m n] v(3,6) by (simp add: word_less_def)
    moreover have "m * 10 + uint (c - 0x30) = n * 10 + uint (d - 0x30) \<longleftrightarrow> m = n \<and> c = d"
      using v unfolding word_uint_eq_iff [of c d] by presburger
    ultimately show ?case using Cons.IH [of "m * 10 + uint (c - 0x30)" "n * 10 + uint (d - 0x30)"] Cons.prems c by auto
  qed simp
  then show "a < b \<longleftrightarrow> m < n \<or> m = n \<and> cs < ds" "a = b \<longleftrightarrow> m = n \<and> cs = ds" by blast+
qed

lemma num_loop_bounds: "num_loop cs m = Some a \<Longrightarrow> 0 \<le> m \<Longrightarrow> 0 \<le> a \<and> a < (m + 1) * 10 ^ length cs"
proof (induction cs arbitrary: m)
  case (Cons c cs)
  then have c: "is_ascii_digit c" and rest: "num_loop cs (m * 10 + uint (c - 0x30)) = Some a" by (auto split: if_splits)
  note v = digit_value [OF c]
  have "0 \<le> a \<and> a < (m * 10 + uint (c - 0x30) + 1) * 10 ^ length cs" using Cons.IH [OF rest] Cons.prems(2) v(1) by simp
  moreover have "(m * 10 + uint (c - 0x30) + 1) * 10 ^ length cs \<le> (m + 1) * 10 * 10 ^ length cs"
    using v(2) by (intro mult_right_mono) simp_all
  ultimately have "0 \<le> a \<and> a < (m + 1) * 10 * 10 ^ length cs" by linarith
  then show ?case by (simp add: algebra_simps)
qed simp

lemma append_less:
  "length u = length u' \<Longrightarrow> u @ v < u' @ v' \<longleftrightarrow> u < u' \<or> u = u' \<and> v < (v' :: 'a :: linorder list)"
  by (induction u u' rule: list_induct2) auto

lemma field_less:
  assumes "length b = length c" "i \<le> j" "j \<le> length b" "num b i j = Some x" "num c i j = Some y"
  shows "drop i b < drop i c \<longleftrightarrow> x < y \<or> x = y \<and> drop j b < drop j c"
proof -
  let ?u = "take (j - i) (drop i b)" and ?v = "take (j - i) (drop i c)"
  have split: "drop i b = ?u @ drop j b" "drop i c = ?v @ drop j c"
    using assms(2) append_take_drop_id [of "j - i" "drop i b"] append_take_drop_id [of "j - i" "drop i c"] by simp_all
  have len: "length ?u = length ?v" using assms(1) by simp
  have "?u @ drop j b < ?v @ drop j c \<longleftrightarrow> ?u < ?v \<or> ?u = ?v \<and> drop j b < drop j c" using len by (rule append_less)
  moreover have "x < y \<longleftrightarrow> ?u < ?v" "x = y \<longleftrightarrow> ?u = ?v"
    using num_loop_compare [OF len, of 0 x 0 y] assms(4,5) unfolding num_def by simp_all
  ultimately show ?thesis using arg_cong2 [of _ _ _ _ "(<)", OF split] by simp
qed

lemma separator_less:
  assumes "length b = length c" "i < length b" "b ! i = c ! i"
  shows "drop i b < drop i c \<longleftrightarrow> drop (Suc i) b < drop (Suc i) (c :: bytes)"
  using Cons_nth_drop_Suc [of i b] Cons_nth_drop_Suc [of i c] assms by (metis Cons_less_Cons less_irrefl)

lemma as_bytes_less: "as_bytes s < as_bytes t \<longleftrightarrow> s < t"
proof (induction s arbitrary: t)
  case (Cons c s)
  have "byte_of c < byte_of d \<longleftrightarrow> c < d" for d by (simp add: word_less_nat_alt unat_byte_of less_char_def)
  with Cons show ?case by (cases t) auto
next
  case Nil
  then show ?case by (cases t) auto
qed

section \<open>The two orders agree\<close>

record time_fields =
  t_year :: int
  t_month :: int
  t_day :: int
  t_hour :: int
  t_min :: int
  t_sec :: int
  t_ms :: int

definition spells :: "string \<Rightarrow> time_fields \<Rightarrow> bool" where
  "spells s f \<longleftrightarrow>
     (let b = as_bytes s
      in length b = 24 \<and> b ! 4 = 0x2D \<and> b ! 7 = 0x2D \<and> b ! 10 = 0x54 \<and> b ! 13 = 0x3A \<and> b ! 16 = 0x3A \<and> b ! 19 = 0x2E \<and> b ! 23 = 0x5A
         \<and> num b 0 4 = Some (t_year f) \<and> num b 5 7 = Some (t_month f) \<and> num b 8 10 = Some (t_day f) \<and> num b 11 13 = Some (t_hour f)
         \<and> num b 14 16 = Some (t_min f) \<and> num b 17 19 = Some (t_sec f) \<and> num b 20 23 = Some (t_ms f))"

definition in_range :: "time_fields \<Rightarrow> bool" where
  "in_range f \<longleftrightarrow> is_date (t_year f) (t_month f) (t_day f) \<and> 0 \<le> t_hour f \<and> t_hour f < 24 \<and> 0 \<le> t_min f \<and> t_min f < 60
     \<and> 0 \<le> t_sec f \<and> t_sec f < 60 \<and> 0 \<le> t_ms f \<and> t_ms f < 1000"

definition millis :: "time_fields \<Rightarrow> int" where
  "millis f = (((days_from_civil (t_year f) (t_month f) (t_day f) * 24 + t_hour f) * 60 + t_min f) * 60 + t_sec f) * 1000 + t_ms f"

lemma num_bounds: "num b i j = Some a \<Longrightarrow> 0 \<le> a \<and> a < 10 ^ (j - i)"
  using num_loop_bounds [of "take (j - i) (drop i b)" 0 a]
  by (auto simp: num_def intro: less_le_trans [OF _ power_increasing])

lemma canonical_ts_millis_Some:
  assumes "canonical_ts_millis s = Some a"
  obtains f where "spells s f" "in_range f" "a = millis f"
proof -
  obtain y m d h mi se ms dim where b: "length (as_bytes s) = 24" "as_bytes s ! 4 = 0x2D" "as_bytes s ! 7 = 0x2D" "as_bytes s ! 10 = 0x54"
      "as_bytes s ! 13 = 0x3A" "as_bytes s ! 16 = 0x3A" "as_bytes s ! 19 = 0x2E" "as_bytes s ! 23 = 0x5A"
    and n: "num (as_bytes s) 0 4 = Some y" "num (as_bytes s) 5 7 = Some m" "num (as_bytes s) 8 10 = Some d" "num (as_bytes s) 11 13 = Some h"
      "num (as_bytes s) 14 16 = Some mi" "num (as_bytes s) 17 19 = Some se" "num (as_bytes s) 20 23 = Some ms"
    and r: "days_in_month y m = Some dim" "\<not> (d < 1 \<or> d > dim \<or> h > 23 \<or> mi > 59 \<or> se > 59)"
    and a: "a = (((days_from_civil y m d * 24 + h) * 60 + mi) * 60 + se) * 1000 + ms"
    using assms unfolding canonical_ts_millis_def Let_def bind_eq_Some_conv by (auto simp: bind_eq_Some_conv split: if_splits)
  let ?f = "\<lparr> t_year = y, t_month = m, t_day = d, t_hour = h, t_min = mi, t_sec = se, t_ms = ms \<rparr>"
  have "spells s ?f" using b n by (simp add: spells_def)
  moreover have "in_range ?f"
    using r num_bounds [OF n(4)] num_bounds [OF n(5)] num_bounds [OF n(6)] num_bounds [OF n(7)] by (auto simp: in_range_def is_date_def)
  moreover have "a = millis ?f" by (simp add: a millis_def)
  ultimately show thesis by (rule that)
qed

definition fields_less :: "time_fields \<Rightarrow> time_fields \<Rightarrow> bool" where
  "fields_less f g \<longleftrightarrow>
     t_year f < t_year g \<or> t_year f = t_year g \<and> (t_month f < t_month g \<or> t_month f = t_month g \<and> (t_day f < t_day g \<or> t_day f = t_day g
     \<and> (t_hour f < t_hour g \<or> t_hour f = t_hour g \<and> (t_min f < t_min g \<or> t_min f = t_min g \<and> (t_sec f < t_sec g \<or> t_sec f = t_sec g
     \<and> t_ms f < t_ms g)))))"

lemma millis_less:
  assumes "in_range f" "in_range g"
  shows "millis f < millis g \<longleftrightarrow> fields_less f g"
proof -
  note r = assms [unfolded in_range_def]
  let ?D = "\<lambda>f. days_from_civil (t_year f) (t_month f) (t_day f)"
  let ?H = "\<lambda>f. ?D f * 24 + t_hour f" and ?M = "\<lambda>f. (?D f * 24 + t_hour f) * 60 + t_min f"
    and ?S = "\<lambda>f. ((?D f * 24 + t_hour f) * 60 + t_min f) * 60 + t_sec f"
  have d: "?D f < ?D g \<longleftrightarrow> t_year f < t_year g \<or> t_year f = t_year g \<and> (t_month f < t_month g \<or> t_month f = t_month g \<and> t_day f < t_day g)"
    "?D f = ?D g \<longleftrightarrow> t_year f = t_year g \<and> t_month f = t_month g \<and> t_day f = t_day g" using days_compare r by blast+
  have h: "?H f < ?H g \<longleftrightarrow> ?D f < ?D g \<or> ?D f = ?D g \<and> t_hour f < t_hour g" "?H f = ?H g \<longleftrightarrow> ?D f = ?D g \<and> t_hour f = t_hour g"
    using radix_less [of _ 24] radix_eq [of _ 24] r by blast+
  have m: "?M f < ?M g \<longleftrightarrow> ?H f < ?H g \<or> ?H f = ?H g \<and> t_min f < t_min g" "?M f = ?M g \<longleftrightarrow> ?H f = ?H g \<and> t_min f = t_min g"
    using radix_less [of _ 60] radix_eq [of _ 60] r by blast+
  have s: "?S f < ?S g \<longleftrightarrow> ?M f < ?M g \<or> ?M f = ?M g \<and> t_sec f < t_sec g" "?S f = ?S g \<longleftrightarrow> ?M f = ?M g \<and> t_sec f = t_sec g"
    using radix_less [of _ 60] radix_eq [of _ 60] r by blast+
  have "millis f < millis g \<longleftrightarrow> ?S f < ?S g \<or> ?S f = ?S g \<and> t_ms f < t_ms g"
    unfolding millis_def using radix_less [of _ 1000] r by blast
  then show ?thesis unfolding s m h d fields_less_def by blast
qed

lemma spells_less:
  assumes "spells s f" "spells t g"
  shows "s < t \<longleftrightarrow> fields_less f g"
proof -
  let ?b = "as_bytes s" and ?c = "as_bytes t"
  have len: "length ?b = 24" "length ?c = 24" using assms by (simp_all only: spells_def Let_def)
  then have eq: "length ?b = length ?c" by simp
  note f = assms [unfolded spells_def Let_def]
  note fld = field_less [OF eq, unfolded len] and sep = separator_less [OF eq, unfolded len]
  have "drop 23 ?b < drop 23 ?c \<longleftrightarrow> False" using sep [of 23] f by (simp add: len)
  moreover have "drop 20 ?b < drop 20 ?c \<longleftrightarrow> t_ms f < t_ms g \<or> t_ms f = t_ms g \<and> drop 23 ?b < drop 23 ?c" using fld [of 20 23] f by simp
  moreover have "drop 17 ?b < drop 17 ?c \<longleftrightarrow> t_sec f < t_sec g \<or> t_sec f = t_sec g \<and> drop 20 ?b < drop 20 ?c" using fld [of 17 19] sep [of 19] f by simp
  moreover have "drop 14 ?b < drop 14 ?c \<longleftrightarrow> t_min f < t_min g \<or> t_min f = t_min g \<and> drop 17 ?b < drop 17 ?c" using fld [of 14 16] sep [of 16] f by simp
  moreover have "drop 11 ?b < drop 11 ?c \<longleftrightarrow> t_hour f < t_hour g \<or> t_hour f = t_hour g \<and> drop 14 ?b < drop 14 ?c" using fld [of 11 13] sep [of 13] f by simp
  moreover have "drop 8 ?b < drop 8 ?c \<longleftrightarrow> t_day f < t_day g \<or> t_day f = t_day g \<and> drop 11 ?b < drop 11 ?c" using fld [of 8 10] sep [of 10] f by simp
  moreover have "drop 5 ?b < drop 5 ?c \<longleftrightarrow> t_month f < t_month g \<or> t_month f = t_month g \<and> drop 8 ?b < drop 8 ?c" using fld [of 5 7] sep [of 7] f by simp
  moreover have "drop 0 ?b < drop 0 ?c \<longleftrightarrow> t_year f < t_year g \<or> t_year f = t_year g \<and> drop 5 ?b < drop 5 ?c" using fld [of 0 4] sep [of 4] f by simp
  ultimately have "?b < ?c \<longleftrightarrow> fields_less f g" unfolding drop_0 fields_less_def by argo
  then show ?thesis unfolding as_bytes_less .
qed

text \<open>C24: Two canonical timestamps are ordered as texts exactly as they are in time: the day count, leap years and month
  lengths included, the milliseconds since the epoch compare like the strings, and distinct texts are distinct times.\<close>

theorem timestamp_order:
  assumes "canonical_ts_millis s = Some a" "canonical_ts_millis t = Some b"
  shows "(a < b \<longleftrightarrow> s < t) \<and> (a = b \<longleftrightarrow> s = t)"
proof -
  obtain f g where f: "spells s f" "in_range f" "a = millis f" and g: "spells t g" "in_range g" "b = millis g"
    using canonical_ts_millis_Some assms by metis
  have "a < b \<longleftrightarrow> s < t" "b < a \<longleftrightarrow> t < s"
    using millis_less spells_less f g by simp_all
  then show ?thesis by (metis linorder_neqE less_irrefl)
qed

theorem timestamp_order_witness:
  "canonical_ts_millis ''2024-02-29T23:59:59.999Z'' = Some 1709251199999 \<and> canonical_ts_millis ''2024-03-01T00:00:00.000Z'' = Some 1709251200000
   \<and> ''2024-02-29T23:59:59.999Z'' < ''2024-03-01T00:00:00.000Z''"
proof -
  have "canonical_ts_millis ''2024-02-29T23:59:59.999Z'' = Some 1709251199999" "canonical_ts_millis ''2024-03-01T00:00:00.000Z'' = Some 1709251200000"
    by code_simp+
  then show ?thesis using timestamp_order by fastforce
qed

end
