(* ===== verification/Temporal.thy ===== *)
theory Temporal
  imports Merkle Btree Timestamps "HOL-Library.Product_Lexorder"
begin

text \<open>
  \<open>core/src/verify/temporal.rs\<close>: the order of an authorization against a revocation. The caller's
  policy, canonical timestamps, the signed snapshot and entries of a versioned revocation list, the
  versioned Merkle tree whose leaves commit each grant's mode and cutoff, the accumulation of one
  grant's revocation over the artifacts, and the classification of a receipt. Error texts are
  constructors of one datatype per parser.

  The results: timestamps are ordered as their texts, versioned proofs are sound for the entries of
  the tree, and a receipt is classified as before a revocation only if no source contradicts it.
\<close>

definition AUTHORIZATION_ORDER_FORMAT :: string where
  "AUTHORIZATION_ORDER_FORMAT = ''averin.authorization_order.v1''"

section \<open>The policy\<close>

record db_serialized_policy =
  evaluation_time :: string
  evaluation_ms :: int
  max_snapshot_age_seconds :: int
  min_authorization_watermark :: int

datatype temporal_error =
    TmEvaluationTime | TmAge | TmWatermark | TmNotObject | TmUnknownField string | TmStrictFields | TmEvaluationMissing
  | TmAgeMissing | TmWatermarkType | TmPolicyUnsupported | TmPolicyMissing

definition db_serialized_policy_new :: "string \<Rightarrow> int \<Rightarrow> int \<Rightarrow> (db_serialized_policy, temporal_error) result" where
  "db_serialized_policy_new time max_age min_watermark =
     bind_result (ok_or (canonical_ts_millis time) TmEvaluationTime) (\<lambda>ms.
     if \<not> (1 \<le> max_age \<and> max_age \<le> 366 * 24 * 3600) then Err TmAge
     else if min_watermark < 0 then Err TmWatermark
     else Ok \<lparr> evaluation_time = time, evaluation_ms = ms, max_snapshot_age_seconds = max_age,
               min_authorization_watermark = min_watermark \<rparr>)"

datatype temporal_policy = Strict | DbSerializedV1 db_serialized_policy

fun temporal_policy_as_str :: "temporal_policy \<Rightarrow> string" where
  "temporal_policy_as_str Strict = ''strict''"
| "temporal_policy_as_str (DbSerializedV1 _) = ''db_serialized_v1''"

fun check_temporal_keys :: "(string \<times> canon_value) list \<Rightarrow> (unit, temporal_error) result" where
  "check_temporal_keys [] = Ok ()"
| "check_temporal_keys ((key, _) # ms) =
     (if key \<notin> set [''policy'', ''evaluation_time'', ''max_snapshot_age_seconds'', ''min_authorization_watermark'']
      then Err (TmUnknownField key) else check_temporal_keys ms)"

definition temporal_policy_parse :: "canon_value \<Rightarrow> (temporal_policy, temporal_error) result" where
  "temporal_policy_parse opts =
     (case get opts ''revocation_temporal'' of
        None \<Rightarrow> Ok Strict
      | Some raw \<Rightarrow>
          bind_result (ok_or (as_object raw) TmNotObject) (\<lambda>members.
          bind_result (check_temporal_keys members) (\<lambda>_.
          (case get raw ''policy'' of
             None \<Rightarrow> Err TmPolicyMissing
           | Some v \<Rightarrow>
               if v = Str ''strict'' then (if length members \<noteq> 1 then Err TmStrictFields else Ok Strict)
               else if v = Str ''db_serialized_v1'' then
                 bind_result (ok_or (field_str raw ''evaluation_time'') TmEvaluationMissing) (\<lambda>eval.
                 bind_result (ok_or (Option.bind (get raw ''max_snapshot_age_seconds'') as_int) TmAgeMissing) (\<lambda>age.
                 bind_result (case get raw ''min_authorization_watermark'' of
                                None \<Rightarrow> Ok 0 | Some w \<Rightarrow> ok_or (as_int w) TmWatermarkType) (\<lambda>min.
                 map_ok DbSerializedV1 (db_serialized_policy_new eval age min))))
               else Err TmPolicyUnsupported))))"

section \<open>Revocation states and snapshots\<close>

datatype rev_state = Total | Prospective int

fun combine :: "rev_state \<Rightarrow> rev_state \<Rightarrow> rev_state" where
  "combine (Prospective a) (Prospective b) = Prospective (min a b)"
| "combine _ _ = Total"

fun mode :: "rev_state \<Rightarrow> string" where
  "mode Total = ''total''"
| "mode (Prospective _) = ''prospective''"

fun cutoff :: "rev_state \<Rightarrow> int" where
  "cutoff Total = 0"
| "cutoff (Prospective c) = c"

record snapshot =
  snap_project_id :: string
  snap_boundary_time :: string
  snap_boundary_ms :: int
  snap_watermark :: int

datatype snapshot_error =
  SnNoProject | SnNoSnapshot | SnNotObject | SnFields | SnNoBoundary | SnBoundaryTime | SnWatermark

definition parse_snapshot :: "canon_value \<Rightarrow> (snapshot, snapshot_error) result" where
  "parse_snapshot artifact =
     bind_result (ok_or (Option.bind (field_str artifact ''project_id'') (\<lambda>p. if p \<noteq> [] then Some p else None)) SnNoProject) (\<lambda>project_id.
     bind_result (ok_or (get artifact ''snapshot'') SnNoSnapshot) (\<lambda>snap.
     bind_result (ok_or (as_object snap) SnNotObject) (\<lambda>members.
     if length members \<noteq> 2 then Err SnFields
     else
       bind_result (ok_or (field_str snap ''boundary_time'') SnNoBoundary) (\<lambda>boundary_time.
       bind_result (ok_or (canonical_ts_millis boundary_time) SnBoundaryTime) (\<lambda>boundary_ms.
       bind_result (case get snap ''authorization_high_watermark'' of
                      Some (CInt n) \<Rightarrow> if n \<ge> 0 then Ok n else Err SnWatermark
                    | _ \<Rightarrow> Err SnWatermark) (\<lambda>watermark.
       Ok \<lparr> snap_project_id = project_id, snap_boundary_time = boundary_time, snap_boundary_ms = boundary_ms,
            snap_watermark = watermark \<rparr>))))))"

record v2_entries =
  v2_states :: "(string \<times> rev_state) list"
  v2_ids :: "string list"
  v2_well_formed :: bool

definition parse_state :: "canon_value \<Rightarrow> int option \<Rightarrow> rev_state option" where
  "parse_state e watermark =
     Option.bind (as_object e) (\<lambda>members.
     Option.bind (field_str e ''mode'') (\<lambda>m.
     if m = ''total'' \<and> length members = 2 then Some Total
     else if m = ''prospective'' \<and> length members = 3 then
       (case get e ''cutoff_order'' of
          Some (CInt c) \<Rightarrow>
            if c \<ge> 1 \<and> (case watermark of None \<Rightarrow> True | Some w \<Rightarrow> c \<le> w) then Some (Prospective c) else None
        | _ \<Rightarrow> None)
     else None))"

definition v2_entry :: "int option \<Rightarrow> canon_value \<Rightarrow> v2_entries \<times> string option \<Rightarrow> v2_entries \<times> string option" where
  "v2_entry watermark e = (\<lambda>(out, previous).
     (let gid = field_str e ''grant_id'';
          out = (case gid of Some g \<Rightarrow> out\<lparr>v2_ids := bs_insert g (v2_ids out)\<rparr> | None \<Rightarrow> out)
      in case (gid, parse_state e watermark) of
           (Some g, Some st) \<Rightarrow>
             if g \<noteq> [] then
               let out = (if (case previous of Some p \<Rightarrow> p \<ge> g | None \<Rightarrow> False) then out\<lparr>v2_well_formed := False\<rparr> else out);
                   merged = (case map_of (v2_states out) g of Some prior \<Rightarrow> combine prior st | None \<Rightarrow> st)
               in (out\<lparr>v2_states := bt_insert g merged (v2_states out)\<rparr>, Some g)
             else (out\<lparr>v2_well_formed := False\<rparr>, previous)
         | (Some g, None) \<Rightarrow> (out\<lparr>v2_well_formed := False, v2_states := bt_insert g Total (v2_states out)\<rparr>, previous)
         | _ \<Rightarrow> (out\<lparr>v2_well_formed := False\<rparr>, previous)))"

definition parse_v2_entries :: "canon_value \<Rightarrow> int option \<Rightarrow> v2_entries" where
  "parse_v2_entries lst watermark =
     (case Option.bind (get lst ''revocations'') as_array of
        None \<Rightarrow> \<lparr> v2_states = [], v2_ids = [], v2_well_formed = False \<rparr>
      | Some arr \<Rightarrow> fst (fold (v2_entry watermark) arr (\<lparr> v2_states = [], v2_ids = [], v2_well_formed = True \<rparr>, None)))"

section \<open>The versioned tree\<close>

definition revocation_key_v2_preimage :: "string \<Rightarrow> bytes" where
  "revocation_key_v2_preimage grant_id = lp4 (lp4 [] (as_bytes ''averin.broker.revocation.key.v2'')) (as_bytes grant_id)"

definition revocation_key_v2 :: "('sk, 'vk) externals \<Rightarrow> string \<Rightarrow> bytes" where
  "revocation_key_v2 X grant_id = sha256 X (revocation_key_v2_preimage grant_id)"

definition revocation_state_v2_preimage :: "string \<Rightarrow> int \<Rightarrow> bytes" where
  "revocation_state_v2_preimage m c =
     lp4 (lp4 [] (as_bytes ''averin.broker.revocation.state.v2'')) (as_bytes m) @ be8 (i64_as_u64 c)"

definition revocation_state_digest_v2 :: "('sk, 'vk) externals \<Rightarrow> string \<Rightarrow> int \<Rightarrow> bytes" where
  "revocation_state_digest_v2 X m c = sha256 X (revocation_state_v2_preimage m c)"

definition revocation_entry_v2_preimage :: "bytes \<Rightarrow> bytes \<Rightarrow> bytes" where
  "revocation_entry_v2_preimage key state_digest = lp4 [] (as_bytes ''averin.broker.revocation.entry.v2'') @ key @ state_digest"

definition revocation_entry_v2 :: "('sk, 'vk) externals \<Rightarrow> bytes \<Rightarrow> bytes \<Rightarrow> bytes" where
  "revocation_entry_v2 X key state_digest = sha256 X (revocation_entry_v2_preimage key state_digest)"

definition revocation_pairs_v2 :: "('sk, 'vk) externals \<Rightarrow> (string \<times> rev_state) list \<Rightarrow> (bytes \<times> bytes) list" where
  "revocation_pairs_v2 X entries =
     (let sentinel = revocation_state_digest_v2 X ''sentinel'' 0
      in [(replicate 32 0, sentinel)]
         @ sort (map (\<lambda>(g, st). (revocation_key_v2 X g, revocation_state_digest_v2 X (mode st) (cutoff st))) entries)
         @ [(replicate 32 0xFF, sentinel)])"

definition revocation_leaves_v2 :: "('sk, 'vk) externals \<Rightarrow> (string \<times> rev_state) list \<Rightarrow> bytes list" where
  "revocation_leaves_v2 X entries = map (\<lambda>(k, s). revocation_entry_v2 X k s) (revocation_pairs_v2 X entries)"

definition revocation_merkle_root_v2 :: "('sk, 'vk) externals \<Rightarrow> (string \<times> rev_state) list \<Rightarrow> string" where
  "revocation_merkle_root_v2 X entries =
     ''sha256:'' @ hex_lower (fold_levels X (map (merkle_leaf_hash X) (revocation_leaves_v2 X entries)))"

datatype proof_v2 = V2NotRevoked | V2Revoked rev_state | V2Unproven

definition parse_state_fields :: "canon_value \<Rightarrow> int \<Rightarrow> rev_state option" where
  "parse_state_fields pr watermark =
     Option.bind (field_str pr ''mode'') (\<lambda>m.
     if m = ''total'' \<and> get pr ''cutoff_order'' = None then Some Total
     else if m = ''prospective'' then
       (case get pr ''cutoff_order'' of
          Some (CInt c) \<Rightarrow> if c \<ge> 1 \<and> c \<le> watermark then Some (Prospective c) else None
        | _ \<Rightarrow> None)
     else None)"

definition nonneg_in :: "canon_value \<Rightarrow> string \<Rightarrow> int option" where
  "nonneg_in pr k = Option.bind (int_in pr k) (\<lambda>i. if i \<ge> 0 then Some i else None)"

definition proof_side :: "canon_value \<Rightarrow> string \<Rightarrow> (bytes \<times> bytes) option" where
  "proof_side pr k =
     Option.bind (get pr k) (\<lambda>obj.
     Option.bind (as_object obj) (\<lambda>members.
     if length members \<noteq> 2 then None
     else Option.bind (Option.bind (field_str obj ''key'') parse_hex32) (\<lambda>key.
          Option.bind (Option.bind (field_str obj ''state_digest'') parse_hex32) (\<lambda>st. Some (key, st)))))"

definition check_revocation_proof_v2 :: "('sk, 'vk) externals \<Rightarrow> canon_value \<Rightarrow> string \<Rightarrow> bytes \<Rightarrow> nat \<Rightarrow> int \<Rightarrow> proof_v2" where
  "check_revocation_proof_v2 X pr grant_id root leaf_count watermark =
     (let q = revocation_key_v2 X grant_id;
          kind = (case field_str pr ''type'' of Some s \<Rightarrow> s | None \<Rightarrow> [])
      in if kind = ''membership'' then
           (case (parse_state_fields pr watermark, nonneg_in pr ''index'', parse_hex32_path (get pr ''path'')) of
              (Some state, Some i, Some p) \<Rightarrow>
                let leaf = revocation_entry_v2 X q (revocation_state_digest_v2 X (mode state) (cutoff state))
                in if merkle_root_from_proof X leaf (nat i) leaf_count p = Some root then V2Revoked state else V2Unproven
            | _ \<Rightarrow> V2Unproven)
         else if kind = ''nonmembership'' then
           (case (proof_side pr ''lo'', proof_side pr ''hi'', nonneg_in pr ''lo_index'', nonneg_in pr ''hi_index'',
                  parse_hex32_path (get pr ''lo_path''), parse_hex32_path (get pr ''hi_path'')) of
              (Some (lo_key, lo_state), Some (hi_key, hi_state), Some li, Some hi_i, Some lo_path, Some hi_path) \<Rightarrow>
                if \<not> (in_i64 (li + 1) \<and> li + 1 = hi_i) \<or> \<not> (lo_key < q \<and> q < hi_key) then V2Unproven
                else if merkle_root_from_proof X (revocation_entry_v2 X lo_key lo_state) (nat li) leaf_count lo_path \<noteq> Some root
                     \<or> merkle_root_from_proof X (revocation_entry_v2 X hi_key hi_state) (nat hi_i) leaf_count hi_path \<noteq> Some root
                then V2Unproven
                else V2NotRevoked
            | _ \<Rightarrow> V2Unproven)
         else V2Unproven)"

section \<open>One grant over all artifacts\<close>

datatype order_ev = OrdAbsent | OrdMalformed | OrdPresent string int

fun ordinal :: "order_ev \<Rightarrow> int option" where
  "ordinal (OrdPresent _ n) = Some n"
| "ordinal _ = None"

definition authorization_order :: "canon_value \<Rightarrow> string \<Rightarrow> order_ev" where
  "authorization_order rec payload_key =
     (case Option.bind (get rec ''extensions'') (\<lambda>e. Option.bind (get e ''broker'') (\<lambda>b.
             Option.bind (get b payload_key) (\<lambda>p. get p ''authorization_order''))) of
        None \<Rightarrow> OrdAbsent
      | Some v \<Rightarrow>
          let well = ((case as_object v of Some members \<Rightarrow> length members = 3 | None \<Rightarrow> False)
                      \<and> field_str v ''format'' = Some AUTHORIZATION_ORDER_FORMAT)
          in (case (well, get v ''project_id'', get v ''ordinal'') of
                (True, Some (Str p), Some (CInt n)) \<Rightarrow> if p \<noteq> [] \<and> n \<ge> 1 then OrdPresent p n else OrdMalformed
              | _ \<Rightarrow> OrdMalformed))"

datatype grant_revocation =
    NotEvaluated | NotRevokedUnbound | NotRevokedAsOfSnapshot | GrantProspective int | GrantTotal
  | RevokedUnverified "int option" | GrantUnproven "int option"

fun current_str :: "grant_revocation \<Rightarrow> string" where
  "current_str NotEvaluated = ''not_evaluated''"
| "current_str NotRevokedUnbound = ''not_revoked''"
| "current_str NotRevokedAsOfSnapshot = ''not_revoked''"
| "current_str (GrantProspective _) = ''revoked_prospective''"
| "current_str GrantTotal = ''revoked_total''"
| "current_str (RevokedUnverified _) = ''revoked_unverified''"
| "current_str (GrantUnproven _) = ''unproven''"

fun adverse_cutoff :: "grant_revocation \<Rightarrow> int option" where
  "adverse_cutoff (GrantProspective c) = Some c"
| "adverse_cutoff (GrantUnproven c) = c"
| "adverse_cutoff (RevokedUnverified c) = c"
| "adverse_cutoff _ = None"

record grant_revocation_acc =
  acc_total :: bool
  acc_unverified :: bool
  acc_unproven :: bool
  acc_cutoff :: "int option"
  acc_v2_sources :: nat
  acc_v2_nonmember :: nat
  acc_any_source :: bool

definition acc_default :: grant_revocation_acc where
  "acc_default = \<lparr> acc_total = False, acc_unverified = False, acc_unproven = False, acc_cutoff = None,
     acc_v2_sources = 0, acc_v2_nonmember = 0, acc_any_source = False \<rparr>"

definition legacy_member :: "grant_revocation_acc \<Rightarrow> grant_revocation_acc" where
  "legacy_member a = a\<lparr>acc_any_source := True, acc_total := True\<rparr>"

definition legacy_nonmember :: "grant_revocation_acc \<Rightarrow> grant_revocation_acc" where
  "legacy_nonmember a = a\<lparr>acc_any_source := True\<rparr>"

definition unusable_member :: "grant_revocation_acc \<Rightarrow> grant_revocation_acc" where
  "unusable_member a = a\<lparr>acc_any_source := True, acc_unverified := True\<rparr>"

definition unproven :: "grant_revocation_acc \<Rightarrow> grant_revocation_acc" where
  "unproven a = a\<lparr>acc_any_source := True, acc_unproven := True\<rparr>"

definition v2_source :: "rev_state option \<Rightarrow> grant_revocation_acc \<Rightarrow> grant_revocation_acc" where
  "v2_source state a =
     (let a = a\<lparr>acc_any_source := True, acc_v2_sources := acc_v2_sources a + 1\<rparr>
      in case state of
           None \<Rightarrow> a\<lparr>acc_v2_nonmember := acc_v2_nonmember a + 1\<rparr>
         | Some Total \<Rightarrow> a\<lparr>acc_total := True\<rparr>
         | Some (Prospective c) \<Rightarrow> a\<lparr>acc_cutoff := Some (case acc_cutoff a of None \<Rightarrow> c | Some p \<Rightarrow> min p c)\<rparr>)"

definition finish :: "grant_revocation_acc \<Rightarrow> grant_revocation" where
  "finish a =
     (if acc_total a then GrantTotal
      else if acc_unproven a then GrantUnproven (acc_cutoff a)
      else if acc_unverified a then RevokedUnverified (acc_cutoff a)
      else case acc_cutoff a of
             Some c \<Rightarrow> GrantProspective c
           | None \<Rightarrow>
               if acc_v2_sources a > 0 \<and> acc_v2_nonmember a = acc_v2_sources a then NotRevokedAsOfSnapshot
               else if acc_any_source a then NotRevokedUnbound
               else NotEvaluated)"

datatype historical_ordering = ProvenBefore | AtOrAfter | Indeterminate

fun historical_ordering_as_str :: "historical_ordering \<Rightarrow> string" where
  "historical_ordering_as_str ProvenBefore = ''proven_before''"
| "historical_ordering_as_str AtOrAfter = ''at_or_after''"
| "historical_ordering_as_str Indeterminate = ''indeterminate''"

definition classify :: "snapshot option \<Rightarrow> bool \<Rightarrow> order_ev \<Rightarrow> grant_revocation \<Rightarrow> historical_ordering" where
  "classify snapshot validated order grant =
     (case order of
        OrdPresent project_id n \<Rightarrow>
          if \<not> validated then Indeterminate
          else if (case adverse_cutoff grant of Some c \<Rightarrow> n \<ge> c | None \<Rightarrow> False) then AtOrAfter
          else (case snapshot of
                  None \<Rightarrow> Indeterminate
                | Some snap \<Rightarrow>
                    if project_id \<noteq> snap_project_id snap \<or> n > snap_watermark snap then Indeterminate
                    else (case grant of
                            NotRevokedAsOfSnapshot \<Rightarrow> ProvenBefore
                          | GrantProspective _ \<Rightarrow> ProvenBefore
                          | _ \<Rightarrow> Indeterminate))
      | _ \<Rightarrow> Indeterminate)"

section \<open>What the accumulated sources say\<close>

text \<open>One report of an artifact about a grant, and the accumulator method that records it.\<close>

datatype source = LegacyMember | LegacyNonmember | UnusableMember | UnprovenPath | V2Source "rev_state option"

fun record_source :: "source \<Rightarrow> grant_revocation_acc \<Rightarrow> grant_revocation_acc" where
  "record_source LegacyMember = legacy_member"
| "record_source LegacyNonmember = legacy_nonmember"
| "record_source UnusableMember = unusable_member"
| "record_source UnprovenPath = unproven"
| "record_source (V2Source st) = v2_source st"

definition accumulate :: "source list \<Rightarrow> grant_revocation_acc" where
  "accumulate sources = fold record_source sources acc_default"

definition cutoffs :: "source list \<Rightarrow> int set" where
  "cutoffs sources = {c. V2Source (Some (Prospective c)) \<in> set sources}"

definition total_source :: "source list \<Rightarrow> bool" where
  "total_source sources \<longleftrightarrow> LegacyMember \<in> set sources \<or> V2Source (Some Total) \<in> set sources"

definition versioned :: "source \<Rightarrow> bool" where
  "versioned src = (case src of V2Source _ \<Rightarrow> True | _ \<Rightarrow> False)"

lemma finite_cutoffs: "finite (cutoffs sources)"
proof (rule finite_subset)
  show "cutoffs sources \<subseteq> (\<lambda>s. case s of V2Source (Some (Prospective c)) \<Rightarrow> c | _ \<Rightarrow> 0) ` set sources"
    by (force simp: cutoffs_def image_iff)
qed simp

lemma cutoffs_snoc: "cutoffs (sources @ [src]) = (case src of V2Source (Some (Prospective c)) \<Rightarrow> insert c (cutoffs sources) | _ \<Rightarrow> cutoffs sources)"
  by (auto simp: cutoffs_def split: source.splits option.splits rev_state.splits)

lemma accumulate_snoc: "accumulate (sources @ [src]) = record_source src (accumulate sources)"
  by (simp add: accumulate_def)

lemmas record_defs = legacy_member_def legacy_nonmember_def unusable_member_def unproven_def v2_source_def

lemma accumulate_flags:
  "acc_total (accumulate sources) \<longleftrightarrow> total_source sources"
  "acc_unverified (accumulate sources) \<longleftrightarrow> UnusableMember \<in> set sources"
  "acc_unproven (accumulate sources) \<longleftrightarrow> UnprovenPath \<in> set sources"
proof (induction sources rule: rev_induct)
  case (snoc src sources)
  { case 1 show ?case using snoc by (cases src) (auto simp: accumulate_snoc record_defs total_source_def Let_def split: option.split rev_state.split)
  next
    case 2 show ?case using snoc by (cases src) (auto simp: accumulate_snoc record_defs Let_def split: option.split rev_state.split)
  next
    case 3 show ?case using snoc by (cases src) (auto simp: accumulate_snoc record_defs Let_def split: option.split rev_state.split) }
qed (simp_all add: accumulate_def acc_default_def total_source_def)

lemma accumulate_cutoff:
  "acc_cutoff (accumulate sources) = (if cutoffs sources = {} then None else Some (Min (cutoffs sources)))"
proof (induction sources rule: rev_induct)
  case (snoc src sources)
  then show ?case
    using finite_cutoffs [of sources]
    by (cases src) (auto simp: accumulate_snoc cutoffs_snoc record_defs Let_def min.commute split: option.split rev_state.split)
qed (simp add: accumulate_def acc_default_def cutoffs_def)

lemma accumulate_counts:
  "acc_v2_sources (accumulate sources) = length (filter versioned sources)"
  "acc_v2_nonmember (accumulate sources) = length (filter (\<lambda>s. s = V2Source None) sources)"
proof (induction sources rule: rev_induct)
  case (snoc src sources)
  { case 1 show ?case using snoc by (cases src) (auto simp: accumulate_snoc versioned_def record_defs Let_def split: option.split rev_state.split)
  next
    case 2 show ?case using snoc by (cases src) (auto simp: accumulate_snoc record_defs Let_def split: option.split rev_state.split) }
qed (simp_all add: accumulate_def acc_default_def)

lemma only_nonmembers:
  assumes "\<not> total_source sources" "cutoffs sources = {}"
  shows "filter versioned sources = filter (\<lambda>s. s = V2Source None) sources"
proof (rule filter_cong [OF refl])
  fix s assume "s \<in> set sources"
  then show "versioned s \<longleftrightarrow> s = V2Source None"
    using assms by (auto simp: total_source_def cutoffs_def versioned_def split: source.splits) (metis rev_state.exhaust not_Some_eq)
qed

lemma finish_accumulate:
  "adverse_cutoff (finish (accumulate sources)) =
     (if total_source sources \<or> cutoffs sources = {} then None else Some (Min (cutoffs sources)))"
  "finish (accumulate sources) \<in> insert NotRevokedAsOfSnapshot (range GrantProspective) \<longleftrightarrow>
     \<not> total_source sources \<and> UnprovenPath \<notin> set sources \<and> UnusableMember \<notin> set sources \<and> list_ex versioned sources"
proof -
  show "adverse_cutoff (finish (accumulate sources)) =
     (if total_source sources \<or> cutoffs sources = {} then None else Some (Min (cutoffs sources)))"
    by (simp add: finish_def accumulate_flags accumulate_cutoff)
  have "list_ex versioned sources" if "c \<in> cutoffs sources" for c
    using that by (force simp: cutoffs_def list_ex_iff versioned_def)
  moreover have "length (filter versioned sources) > 0 \<longleftrightarrow> list_ex versioned sources"
    by (auto simp: list_ex_iff filter_empty_conv)
  ultimately show "finish (accumulate sources) \<in> insert NotRevokedAsOfSnapshot (range GrantProspective) \<longleftrightarrow>
     \<not> total_source sources \<and> UnprovenPath \<notin> set sources \<and> UnusableMember \<notin> set sources \<and> list_ex versioned sources"
    using only_nonmembers [of sources] by (auto simp: finish_def accumulate_flags accumulate_cutoff accumulate_counts)
qed

lemma Min_bound: "finite (S :: int set) \<Longrightarrow> S \<noteq> {} \<Longrightarrow> Min S \<le> n \<longleftrightarrow> \<not> S \<subseteq> {n<..}"
  by (auto simp: Min_le_iff not_less)

text \<open>C23: A receipt is proven to precede every revocation exactly when it is validated and carries an authenticated
  ordinal of the snapshot's project at or below its watermark, at least one usable versioned artifact covers its grant, no
  source revokes the grant totally, names it in an unusable artifact or leaves it unproven, and every cutoff any source
  gives is above the ordinal; it is adverse exactly when it is validated, no source is total and some source's cutoff is at
  or below its ordinal. The order of the artifacts never matters.\<close>

theorem classify_exact:
  "let g = finish (accumulate sources) in
     (classify snap v (OrdPresent p n) g = ProvenBefore \<longleftrightarrow>
        v \<and> \<not> total_source sources \<and> UnprovenPath \<notin> set sources \<and> UnusableMember \<notin> set sources \<and> list_ex versioned sources
        \<and> cutoffs sources \<subseteq> {n<..} \<and> (\<exists>s. snap = Some s \<and> snap_project_id s = p \<and> n \<le> snap_watermark s))
     \<and> (classify snap v (OrdPresent p n) g = AtOrAfter \<longleftrightarrow> v \<and> \<not> total_source sources \<and> \<not> cutoffs sources \<subseteq> {n<..})
     \<and> classify snap v OrdAbsent g = Indeterminate \<and> classify snap v OrdMalformed g = Indeterminate"
proof -
  let ?g = "finish (accumulate sources)"
  have adv: "(case adverse_cutoff ?g of Some c \<Rightarrow> n \<ge> c | None \<Rightarrow> False) \<longleftrightarrow> \<not> total_source sources \<and> \<not> cutoffs sources \<subseteq> {n<..}"
    using Min_bound [OF finite_cutoffs, of sources n] by (auto simp: finish_accumulate(1))
  have pos: "(case ?g of NotRevokedAsOfSnapshot \<Rightarrow> ProvenBefore | GrantProspective _ \<Rightarrow> ProvenBefore | _ \<Rightarrow> Indeterminate) =
      (if ?g \<in> insert NotRevokedAsOfSnapshot (range GrantProspective) then ProvenBefore else Indeterminate)"
    by (cases ?g) auto
  show ?thesis
    unfolding Let_def classify_def order_ev.case adv pos finish_accumulate(2) by (auto split: option.split)
qed

section \<open>Versioned proofs against the root of a list\<close>

lemma key_v2_inject:
  "lp_fits (as_bytes g) \<Longrightarrow> lp_fits (as_bytes h) \<Longrightarrow> revocation_key_v2_preimage g = revocation_key_v2_preimage h \<longleftrightarrow> g = h"
  using lp_frame.enc_split [of "as_bytes g" "as_bytes h" "[]" "[]"] by (auto simp: revocation_key_v2_preimage_def)

lemma state_v2_inject:
  assumes "lp_fits (as_bytes m)" "lp_fits (as_bytes m')" "in_i64 c" "in_i64 c'"
  shows "revocation_state_v2_preimage m c = revocation_state_v2_preimage m' c' \<longleftrightarrow> m = m' \<and> c = c'"
  using lp_frame.enc_split [OF assms(1,2), of "be8 (i64_as_u64 c)" "be8 (i64_as_u64 c')"]
    be8_frame.enc_split [of "i64_as_u64 c" "[]" "i64_as_u64 c'" "[]"] i64_as_u64_inject [OF assms(3,4)]
  by (auto simp: revocation_state_v2_preimage_def)

lemma entry_v2_inject:
  "length k = 32 \<Longrightarrow> length k' = 32 \<Longrightarrow> revocation_entry_v2_preimage k s = revocation_entry_v2_preimage k' s' \<longleftrightarrow> k = k' \<and> s = s'"
  by (simp add: revocation_entry_v2_preimage_def append_eq_append_conv)

lemma modes_fit: "lp_fits (as_bytes (mode st))" "lp_fits (as_bytes ''sentinel'')" "mode st \<noteq> ''sentinel''"
  by (cases st; simp add: MAX_LP_LEN_def)+

lemma state_eqI: "mode st = mode st' \<Longrightarrow> cutoff st = cutoff st' \<Longrightarrow> st = st'"
  by (cases st; cases st') simp_all

lemma length_pairs: "length (revocation_pairs_v2 X entries) = length entries + 2"
  by (simp add: revocation_pairs_v2_def Let_def)

lemma pair_keys:
  assumes "sha256_ok X"
  shows "digests (map fst (revocation_pairs_v2 X entries))" "sorted (map fst (revocation_pairs_v2 X entries))"
proof -
  let ?ps = "sort (map (\<lambda>(g, st). (revocation_key_v2 X g, revocation_state_digest_v2 X (mode st) (cutoff st))) entries)"
  have d: "length k = 32" if "k \<in> fst ` set ?ps" for k
    using that assms by (auto simp: revocation_key_v2_def sha256_length)
  then show "digests (map fst (revocation_pairs_v2 X entries))"
    by (auto simp: revocation_pairs_v2_def Let_def list_all_iff)
  have "sorted (map fst xs)" if "sorted xs" for xs :: "(bytes \<times> bytes) list"
    using that by (induction xs) (auto simp: less_eq_prod_def)
  then have "sorted (map fst ?ps)" by simp
  then show "sorted (map fst (revocation_pairs_v2 X entries))"
    using d sentinel_bounds [of _ 32] by (auto simp: revocation_pairs_v2_def Let_def sorted_append)
qed

text \<open>The byte strings hashed for the tree of a versioned list, and when a versioned proof is checked.\<close>

definition entry_preimages :: "('sk, 'vk) externals \<Rightarrow> (string \<times> rev_state) list \<Rightarrow> bytes list" where
  "entry_preimages X entries =
     map (\<lambda>(k, s). revocation_entry_v2_preimage k s) (revocation_pairs_v2 X entries) @ merkle_preimages X (revocation_leaves_v2 X entries)"

definition list_preimages_v2 :: "('sk, 'vk) externals \<Rightarrow> (string \<times> rev_state) list \<Rightarrow> bytes list" where
  "list_preimages_v2 X entries =
     revocation_state_v2_preimage ''sentinel'' 0 # map (revocation_key_v2_preimage \<circ> fst) entries
     @ map (\<lambda>(g, st). revocation_state_v2_preimage (mode st) (cutoff st)) entries @ entry_preimages X entries"

definition side_preimages :: "('sk, 'vk) externals \<Rightarrow> (bytes \<times> bytes) option \<Rightarrow> int option \<Rightarrow> nat \<Rightarrow> bytes list option \<Rightarrow> bytes list" where
  "side_preimages X e i n path =
     (case e of
        None \<Rightarrow> []
      | Some (k, s) \<Rightarrow> revocation_entry_v2_preimage k s # audit_of X (Some (revocation_entry_v2 X k s)) i n path)"

definition checked_preimages_v2 :: "('sk, 'vk) externals \<Rightarrow> canon_value \<Rightarrow> string \<Rightarrow> nat \<Rightarrow> int \<Rightarrow> bytes list" where
  "checked_preimages_v2 X pr g n w =
     revocation_key_v2_preimage g
     # (case parse_state_fields pr w of
          None \<Rightarrow> []
        | Some st \<Rightarrow> revocation_state_v2_preimage (mode st) (cutoff st)
            # side_preimages X (Some (revocation_key_v2 X g, revocation_state_digest_v2 X (mode st) (cutoff st)))
                (nonneg_in pr ''index'') n (parse_hex32_path (get pr ''path'')))
     @ side_preimages X (proof_side pr ''lo'') (nonneg_in pr ''lo_index'') n (parse_hex32_path (get pr ''lo_path''))
     @ side_preimages X (proof_side pr ''hi'') (nonneg_in pr ''hi_index'') n (parse_hex32_path (get pr ''hi_path''))"

lemma entry_sound:
  assumes X: "sha256_ok X" and p: "parse_hex32_path v = Some path" and k: "length k = 32"
    and root: "merkle_root_from_proof X (revocation_entry_v2 X k s) (nat i) (length entries + 2) path
      = Some (fold_levels X (map (merkle_leaf_hash X) (revocation_leaves_v2 X entries)))"
  shows "nat i < length entries + 2 \<and> ((k, s) = revocation_pairs_v2 X entries ! nat i
    \<or> path_collision X (side_preimages X (Some (k, s)) (Some i) (length entries + 2) (Some path)) (entry_preimages X entries))"
proof -
  let ?ps = "revocation_pairs_v2 X entries" and ?leaves = "revocation_leaves_v2 X entries"
  have n: "length ?leaves = length entries + 2" by (simp add: revocation_leaves_v2_def length_pairs)
  obtain k' s' where e: "?ps ! nat i = (k', s')" by fastforce
  have i: "nat i < length entries + 2" and sound: "revocation_entry_v2 X k s = ?leaves ! nat i
      \<or> path_collision X (audit_preimages X (revocation_entry_v2 X k s) (nat i) (length entries + 2) path) (merkle_preimages X ?leaves)"
    using audit_sound [OF X parse_hex32_path_digests [OF p], of "revocation_entry_v2 X k s" "nat i" ?leaves] root unfolding n by blast+
  have mem: "(k', s') \<in> set ?ps" using i e length_pairs by (metis nth_mem)
  have k': "length k' = 32" using pair_keys(1) [OF X, of entries] mem by (force simp: list_all_iff)
  have "?leaves ! nat i = revocation_entry_v2 X k' s'" using i e by (simp add: revocation_leaves_v2_def length_pairs)
  then have "(k, s) = (k', s') \<or> collision X (revocation_entry_v2_preimage k s) (revocation_entry_v2_preimage k' s')"
    if "revocation_entry_v2 X k s = ?leaves ! nat i"
    using that entry_v2_inject [OF k k'] by (auto simp: revocation_entry_v2_def collision_def)
  moreover have "revocation_entry_v2_preimage k' s' \<in> set (entry_preimages X entries)"
    using mem by (force simp: entry_preimages_def)
  ultimately show ?thesis
    using i sound unfolding e by (auto simp: side_preimages_def audit_of_def entry_preimages_def)
qed

lemma check_v2_cases:
  "check_revocation_proof_v2 X pr g root n w = V2Revoked st \<longleftrightarrow>
     field_str pr ''type'' = Some ''membership'' \<and> parse_state_fields pr w = Some st
     \<and> (\<exists>i p. nonneg_in pr ''index'' = Some i \<and> parse_hex32_path (get pr ''path'') = Some p
          \<and> merkle_root_from_proof X (revocation_entry_v2 X (revocation_key_v2 X g) (revocation_state_digest_v2 X (mode st) (cutoff st)))
              (nat i) n p = Some root)"
  "check_revocation_proof_v2 X pr g root n w = V2NotRevoked \<longleftrightarrow>
     field_str pr ''type'' = Some ''nonmembership''
     \<and> (\<exists>lk ls hk hs i p q. proof_side pr ''lo'' = Some (lk, ls) \<and> proof_side pr ''hi'' = Some (hk, hs)
          \<and> nonneg_in pr ''lo_index'' = Some i \<and> nonneg_in pr ''hi_index'' = Some (i + 1) \<and> in_i64 (i + 1)
          \<and> parse_hex32_path (get pr ''lo_path'') = Some p \<and> parse_hex32_path (get pr ''hi_path'') = Some q
          \<and> lk < revocation_key_v2 X g \<and> revocation_key_v2 X g < hk
          \<and> merkle_root_from_proof X (revocation_entry_v2 X lk ls) (nat i) n p = Some root
          \<and> merkle_root_from_proof X (revocation_entry_v2 X hk hs) (nat (i + 1)) n q = Some root)"
  unfolding check_revocation_proof_v2_def Let_def
  by (auto simp del: field_str_Some split: option.splits if_splits)

lemma proof_side_key: "proof_side pr k = Some (key, st) \<Longrightarrow> length key = 32"
  by (auto simp: proof_side_def bind_eq_Some_conv parse_hex32_length split: if_splits)

lemma nonneg_in_ge: "nonneg_in pr k = Some i \<Longrightarrow> i \<ge> 0"
  by (auto simp: nonneg_in_def bind_eq_Some_conv split: if_splits)

lemma parse_state_fields_i64: "in_i64 w \<Longrightarrow> parse_state_fields pr w = Some st \<Longrightarrow> in_i64 (cutoff st)"
  by (auto simp: parse_state_fields_def bind_eq_Some_conv in_i64_def split: if_splits option.splits canon_value.splits)

definition entries_ok :: "(string \<times> rev_state) list \<Rightarrow> bool" where
  "entries_ok entries \<longleftrightarrow> list_all (\<lambda>(h, st). lp_fits (as_bytes h) \<and> in_i64 (cutoff st)) entries"

text \<open>An entry of the tree for the queried key and a state is that of a listed grant.\<close>

lemma pair_listed:
  assumes "(revocation_key_v2 X g, revocation_state_digest_v2 X (mode st) (cutoff st)) \<in> set (revocation_pairs_v2 X entries)"
    and "lp_fits (as_bytes g)" "in_i64 (cutoff st)" "entries_ok entries"
  shows "(g, st) \<in> set entries
    \<or> path_collision X [revocation_key_v2_preimage g, revocation_state_v2_preimage (mode st) (cutoff st)] (list_preimages_v2 X entries)"
proof -
  let ?s = "revocation_state_v2_preimage (mode st) (cutoff st)"
  consider (sentinel) "sha256 X ?s = sha256 X (revocation_state_v2_preimage ''sentinel'' 0)"
    | (listed) h st' where "(h, st') \<in> set entries" "sha256 X (revocation_key_v2_preimage g) = sha256 X (revocation_key_v2_preimage h)"
        "sha256 X ?s = sha256 X (revocation_state_v2_preimage (mode st') (cutoff st'))"
    using assms(1) by (auto simp: revocation_pairs_v2_def Let_def revocation_key_v2_def revocation_state_digest_v2_def)
  then show ?thesis
  proof cases
    case sentinel
    have "in_i64 0" by (simp add: in_i64_def)
    then have "?s \<noteq> revocation_state_v2_preimage ''sentinel'' 0"
      using state_v2_inject [OF modes_fit(1,2) assms(3)] modes_fit(3) by blast
    with sentinel show ?thesis by (auto simp: collision_def list_preimages_v2_def)
  next
    case (listed h st')
    have ok: "lp_fits (as_bytes h)" "in_i64 (cutoff st')" using assms(4) listed(1) by (auto simp: entries_ok_def list_all_iff)
    have in_list: "revocation_key_v2_preimage h \<in> set (list_preimages_v2 X entries)"
      "revocation_state_v2_preimage (mode st') (cutoff st') \<in> set (list_preimages_v2 X entries)"
      using listed(1) by (force simp: list_preimages_v2_def)+
    have "g = h \<and> st = st'" if "revocation_key_v2_preimage g = revocation_key_v2_preimage h"
      "?s = revocation_state_v2_preimage (mode st') (cutoff st')"
      using that key_v2_inject [OF assms(2) ok(1)] state_v2_inject [OF modes_fit(1) modes_fit(1) assms(3) ok(2)] state_eqI by blast
    then show ?thesis using listed in_list by (auto simp: collision_def)
  qed
qed

text \<open>C22: Against the root of the versioned tree built from a revocation list, with its leaf count, an accepted
  non-membership proof means that the grant is not listed, and an accepted membership proof that it is listed with exactly
  the mode and cutoff the proof states (a stripped or altered cutoff is never accepted), unless a byte string hashed by
  the check and one hashed for the tree are a SHA-256 collision.\<close>

theorem revocation_proof_v2_sound:
  assumes X: "sha256_ok X" and g: "lp_fits (as_bytes g)" "in_i64 w" and entries: "entries_ok entries"
    and signed: "revocation_merkle_root_v2 X entries = ''sha256:'' @ hex_lower root" "n = length entries + 2"
  shows "path_collision X (checked_preimages_v2 X pr g n w) (list_preimages_v2 X entries) \<or>
    (case check_revocation_proof_v2 X pr g root n w of
       V2NotRevoked \<Rightarrow> g \<notin> fst ` set entries
     | V2Revoked st \<Rightarrow> (g, st) \<in> set entries
     | V2Unproven \<Rightarrow> True)"
proof -
  let ?ps = "revocation_pairs_v2 X entries" and ?q = "revocation_key_v2 X g"
  have root: "root = fold_levels X (map (merkle_leaf_hash X) (revocation_leaves_v2 X entries))"
    using signed(1) by (simp add: revocation_merkle_root_v2_def)
  note sound = entry_sound [OF X, of _ _ _ _ _ entries, folded root signed(2)]
  have sub: "set (entry_preimages X entries) \<subseteq> set (list_preimages_v2 X entries)" by (auto simp: list_preimages_v2_def)
  show ?thesis
  proof (cases "check_revocation_proof_v2 X pr g root n w")
    case V2NotRevoked
    then obtain lk ls hk hs i p q where f: "proof_side pr ''lo'' = Some (lk, ls)" "proof_side pr ''hi'' = Some (hk, hs)"
      "nonneg_in pr ''lo_index'' = Some i" "nonneg_in pr ''hi_index'' = Some (i + 1)"
      "parse_hex32_path (get pr ''lo_path'') = Some p" "parse_hex32_path (get pr ''hi_path'') = Some q" "lk < ?q" "?q < hk"
      "merkle_root_from_proof X (revocation_entry_v2 X lk ls) (nat i) n p = Some root"
      "merkle_root_from_proof X (revocation_entry_v2 X hk hs) (nat (i + 1)) n q = Some root"
      unfolding check_v2_cases by blast
    note lo = sound [OF f(5) proof_side_key [OF f(1)] f(9)] and hi = sound [OF f(6) proof_side_key [OF f(2)] f(10)]
    have "g \<notin> fst ` set entries" if "(lk, ls) = ?ps ! nat i" "(hk, hs) = ?ps ! nat (i + 1)"
    proof -
      have i: "Suc (nat i) < length (map fst ?ps)" "nat (i + 1) = Suc (nat i)"
        using hi nonneg_in_ge [OF f(3)] signed(2) by (simp_all add: length_pairs nat_add_distrib)
      have "map fst ?ps ! nat i = lk" "map fst ?ps ! Suc (nat i) = hk" using that i by (metis fst_conv length_map nth_map Suc_lessD)+
      then have "?q \<notin> set (map fst ?ps)" using bracketed_absent [OF pair_keys(2) [OF X] i(1)] f(7,8) by simp
      then show ?thesis by (force simp: revocation_pairs_v2_def Let_def)
    qed
    moreover have "set (side_preimages X (Some (lk, ls)) (Some i) n (Some p)) \<subseteq> set (checked_preimages_v2 X pr g n w)"
      "set (side_preimages X (Some (hk, hs)) (Some (i + 1)) n (Some q)) \<subseteq> set (checked_preimages_v2 X pr g n w)"
      unfolding checked_preimages_v2_def f(1-6) by auto
    ultimately show ?thesis using lo hi sub V2NotRevoked by (simp, blast)
  next
    case (V2Revoked st)
    let ?d = "revocation_state_digest_v2 X (mode st) (cutoff st)"
    obtain i p where f: "parse_state_fields pr w = Some st" "nonneg_in pr ''index'' = Some i" "parse_hex32_path (get pr ''path'') = Some p"
      "merkle_root_from_proof X (revocation_entry_v2 X ?q ?d) (nat i) n p = Some root"
      using V2Revoked unfolding check_v2_cases by blast
    have q: "length ?q = 32" using X by (simp add: revocation_key_v2_def sha256_length)
    have "set (revocation_key_v2_preimage g # revocation_state_v2_preimage (mode st) (cutoff st)
        # side_preimages X (Some (?q, ?d)) (Some i) n (Some p)) \<subseteq> set (checked_preimages_v2 X pr g n w)"
      unfolding checked_preimages_v2_def f(1-3) option.case by auto
    moreover have "(?q, ?d) \<in> set ?ps \<or> path_collision X (side_preimages X (Some (?q, ?d)) (Some i) n (Some p)) (list_preimages_v2 X entries)"
      using sound [OF f(3) q f(4)] sub length_pairs [of X entries] signed(2) by (metis (no_types, lifting) nth_mem subsetD)
    ultimately show ?thesis
      using pair_listed [OF _ g(1) parse_state_fields_i64 [OF g(2) f(1)] entries] V2Revoked by (simp, blast)
  qed simp
qed

section \<open>A concrete instance\<close>

definition demo_leaf :: "bytes \<Rightarrow> bytes" where
  "demo_leaf k = merkle_leaf_hash demo (revocation_entry_v2 demo k (revocation_state_digest_v2 demo ''sentinel'' 0))"

definition demo_membership_v2 :: canon_value where
  "demo_membership_v2 = Object [(''type'', Str ''membership''), (''mode'', Str ''prospective''), (''cutoff_order'', CInt 5), (''index'', CInt 1),
     (''path'', Array [Str (hex_lower (demo_leaf (replicate 32 0))), Str (hex_lower (demo_leaf (replicate 32 0xFF)))])]"

definition demo_root_v2 :: bytes where
  "demo_root_v2 = fold_levels demo (map (merkle_leaf_hash demo) (revocation_leaves_v2 demo [(''r'', Prospective 5)]))"

lemma demo_revoked_v2: "check_revocation_proof_v2 demo demo_membership_v2 ''r'' demo_root_v2 3 9 = V2Revoked (Prospective 5)"
proof -
  let ?lo = "demo_leaf (replicate 32 0)" and ?hi = "demo_leaf (replicate 32 0xFF)"
    and ?e = "revocation_entry_v2 demo (revocation_key_v2 demo ''r'') (revocation_state_digest_v2 demo ''prospective'' 5)"
  have "length (demo_leaf d) = 32" for d using demo_ok(1) by (simp add: demo_leaf_def merkle_leaf_hash_def sha256_length)
  then have "hex32 (hex_lower (demo_leaf d)) = Some (demo_leaf d)" for d by (simp add: hex32_iff)
  then have p: "parse_hex32_path (get demo_membership_v2 ''path'') = Some [?lo, ?hi]"
    by (simp add: demo_membership_v2_def get_Object parse_hex32_path_def as_array_def as_str_def parse_hex32_def MAX_REVOCATION_PATH_def)
  have "demo_root_v2 = merkle_node_hash demo (merkle_node_hash demo ?lo (merkle_leaf_hash demo ?e)) ?hi"
    by (simp add: demo_root_v2_def revocation_leaves_v2_def revocation_pairs_v2_def demo_leaf_def fold_levels.simps Let_def)
  then have "merkle_root_from_proof demo ?e 1 3 [?lo, ?hi] = Some demo_root_v2"
    by (simp add: merkle_root_from_proof_def proof_loop.simps)
  moreover have "field_str demo_membership_v2 ''type'' = Some ''membership''" "nonneg_in demo_membership_v2 ''index'' = Some 1"
    "parse_state_fields demo_membership_v2 9 = Some (Prospective 5)"
    by (simp_all add: demo_membership_v2_def nonneg_in_def int_in_def parse_state_fields_def field_str_def as_str_def as_int_def get_Object)
  ultimately show ?thesis using p unfolding check_v2_cases by auto
qed

theorem revocation_proof_v2_sound_witness:
  "revocation_merkle_root_v2 demo [(''r'', Prospective 5)] = ''sha256:'' @ hex_lower demo_root_v2
   \<and> check_revocation_proof_v2 demo demo_membership_v2 ''r'' demo_root_v2 3 9 = V2Revoked (Prospective 5)
   \<and> (path_collision demo (checked_preimages_v2 demo demo_membership_v2 ''r'' 3 9) (list_preimages_v2 demo [(''r'', Prospective 5)])
      \<or> (case check_revocation_proof_v2 demo demo_membership_v2 ''r'' demo_root_v2 3 9 of
            V2NotRevoked \<Rightarrow> ''r'' \<notin> fst ` set [(''r'', Prospective 5)]
          | V2Revoked st \<Rightarrow> (''r'', st) \<in> set [(''r'', Prospective 5)]
          | V2Unproven \<Rightarrow> True))"
proof -
  have r: "revocation_merkle_root_v2 demo [(''r'', Prospective 5)] = ''sha256:'' @ hex_lower demo_root_v2"
    by (simp add: revocation_merkle_root_v2_def demo_root_v2_def)
  show ?thesis
    using revocation_proof_v2_sound [OF demo_ok(1) _ _ _ r, where n = 3 and g = "''r''" and w = 9 and pr = demo_membership_v2] demo_revoked_v2 r
    by (simp add: MAX_LP_LEN_def entries_ok_def in_i64_def)
qed

end
