(* ===== verification/Segment.thy ===== *)
theory Segment
  imports Checkpoint Timestamps
begin

text \<open>
  Month segments: the segment block of a bundle (\<open>evaluate_segment\<close> of \<open>core/src/verify.rs\<close>) and the chain
  rules of one month (\<open>validate_segment_chain\<close> of \<open>core/src/segment.rs\<close>). A segment starts from the
  last checkpoint of the month before, its base, and carries only the records after it.

  The results: what an accepted segment guarantees, and that an accepted segment behind an accepted
  history is again an accepted history (\<open>segments_compose\<close>).
\<close>

section \<open>Reading bundles\<close>

definition str_of :: "canon_value \<Rightarrow> string \<Rightarrow> string option" where
  "str_of v k = Option.bind (get v k) as_str"

definition array_of :: "canon_value \<Rightarrow> string \<Rightarrow> canon_value list" where
  "array_of v k = (case Option.bind (get v k) as_array of Some a \<Rightarrow> a | None \<Rightarrow> [])"

definition seq_of :: "canon_value \<Rightarrow> int option" where
  "seq_of cp = Option.bind (get cp ''checkpoint_seq'') as_int"

text \<open>Fields of a record's evidence payload.\<close>

definition ev_value :: "canon_value \<Rightarrow> string \<Rightarrow> string \<Rightarrow> canon_value option" where
  "ev_value rec payload_key key =
     Option.bind (get rec ''extensions'') (\<lambda>e. Option.bind (get e ''broker'') (\<lambda>b.
     Option.bind (get b payload_key) (\<lambda>p. get p key)))"

definition ev_str :: "canon_value \<Rightarrow> string \<Rightarrow> string \<Rightarrow> string option" where
  "ev_str rec payload_key key = Option.bind (ev_value rec payload_key key) as_str"

definition ev_int :: "canon_value \<Rightarrow> string \<Rightarrow> string \<Rightarrow> int option" where
  "ev_int rec payload_key key = Option.bind (ev_value rec payload_key key) as_int"

definition frontier_strs :: "canon_value \<Rightarrow> string list" where
  "frontier_strs cp =
     (case Option.bind (get cp ''frontier'') as_array of Some a \<Rightarrow> List.map_filter as_str a | None \<Rightarrow> [])"

section \<open>Months and instants\<close>

definition is_month :: "string \<Rightarrow> bool" where
  "is_month m =
     (let b = as_bytes m
      in length b = 7 \<and> list_all is_ascii_digit (take 4 b) \<and> b ! 4 = 0x2D
         \<and> (b ! 5 = 0x30 \<and> 0x31 \<le> b ! 6 \<and> b ! 6 \<le> 0x39 \<or> b ! 5 = 0x31 \<and> 0x30 \<le> b ! 6 \<and> b ! 6 \<le> 0x32))"

definition is_canonical_ts :: "string \<Rightarrow> bool" where
  "is_canonical_ts s =
     (let b = as_bytes s; digit = (\<lambda>i. is_ascii_digit (b ! i));
          two = (\<lambda>i. (b ! i - 0x30) * 10 + (b ! (i + 1) - 0x30))
      in length b = 24
         \<and> list_all digit [0, 1, 2, 3, 5, 6, 8, 9, 11, 12, 14, 15, 17, 18, 20, 21, 22]
         \<and> b ! 4 = 0x2D \<and> b ! 7 = 0x2D \<and> b ! 10 = 0x54 \<and> b ! 13 = 0x3A \<and> b ! 16 = 0x3A \<and> b ! 19 = 0x2E \<and> b ! 23 = 0x5A
         \<and> 1 \<le> two 5 \<and> two 5 \<le> 12 \<and> 1 \<le> two 8 \<and> two 8 \<le> 31 \<and> two 11 \<le> 23 \<and> two 14 \<le> 59 \<and> two 17 \<le> 59)"

section \<open>The segment block\<close>

definition SEGMENT_FORMAT :: string where
  "SEGMENT_FORMAT = ''averin.segment.v1''"

record segment_base_info =
  info_seq :: int
  info_hash :: string
  info_record_count :: int
  info_frontier :: "string list"

record segment_eval =
  eval_present :: bool
  eval_month :: string
  eval_base :: "segment_base_info option"

datatype segment_issue =
    PinWithoutSegment
  | SegNotObject
  | SegBadFormat
  | SegBadMonth
  | SegBaseMalformed
  | SegBaseNotCarried int string
  | SegBaseCountDiffers
  | SegBaseInconsistent
  | SegBasePinned string string
  | SegBaseNotBefore string string
  | SegOutsideMonth string string
  | SegNoCreatedTs

text \<open>The loop over the checkpoints: every one after the base is dated in the month, the base before it.\<close>

definition check_dated :: "string \<Rightarrow> segment_base_info option \<Rightarrow> canon_value \<Rightarrow> segment_issue list" where
  "check_dated month base cp =
     (let is_base = (case base of Some b \<Rightarrow> seq_of cp = Some (info_seq b) | None \<Rightarrow> False)
      in case str_of cp ''created_ts'' of
           Some t \<Rightarrow>
             if is_canonical_ts t then
               let m = take 7 t
               in if is_base \<and> m \<ge> month then [SegBaseNotBefore m month]
                  else if \<not> is_base \<and> m \<noteq> month then [SegOutsideMonth m month]
                  else []
             else [SegNoCreatedTs]
         | None \<Rightarrow> [SegNoCreatedTs])"

text \<open>The base a segment block states: \<open>Inl\<close> is the early return with its evaluation and issue.\<close>

definition segment_base_of :: "canon_value \<Rightarrow> canon_value list \<Rightarrow> string
    \<Rightarrow> (segment_eval \<times> segment_issue) + (segment_base_info option \<times> segment_issue list)" where
  "segment_base_of seg checkpoints month =
     (let base_count = Option.bind (get seg ''base_record_count'') as_int;
          early = \<lparr> eval_present = True, eval_month = month, eval_base = None \<rparr>
      in case (get seg ''base_seq'', get seg ''base_checkpoint_hash'') of
           (Some sq, Some h) \<Rightarrow>
             if sq = Null \<and> h = Null \<and> base_count = Some 0 then Inr (None, [])
             else (case (as_int sq, as_str h, base_count) of
                 (Some s, Some hash, Some cnt) \<Rightarrow>
                   (case find (\<lambda>cp. seq_of cp = Some s \<and> str_of cp ''checkpoint_hash'' = Some hash) checkpoints of
                      None \<Rightarrow> Inl (early, SegBaseNotCarried s hash)
                    | Some cp \<Rightarrow>
                        Inr (Some \<lparr> info_seq = s, info_hash = hash, info_record_count = cnt,
                                    info_frontier = remdups_adj (sort (frontier_strs cp)) \<rparr>,
                             if Option.bind (get cp ''record_count'') as_int \<noteq> Some cnt then [SegBaseCountDiffers] else []))
               | _ \<Rightarrow> Inl (early, SegBaseMalformed))
         | _ \<Rightarrow> Inl (\<lparr> eval_present = True, eval_month = [], eval_base = None \<rparr>, SegBaseInconsistent))"

definition evaluate_segment :: "canon_value \<Rightarrow> canon_value list \<Rightarrow> string option \<Rightarrow> segment_eval \<times> segment_issue list" where
  "evaluate_segment bundle checkpoints segment_base_pin =
     (let none = (\<lambda>p. \<lparr> eval_present = p, eval_month = [], eval_base = None \<rparr>)
      in case get bundle ''segment'' of
           None \<Rightarrow> (none False, if segment_base_pin \<noteq> None then [PinWithoutSegment] else [])
         | Some seg \<Rightarrow>
             if as_object seg = None then (none True, [SegNotObject])
             else if str_of seg ''format'' \<noteq> Some SEGMENT_FORMAT then (none True, [SegBadFormat])
             else (case str_of seg ''month'' of
                 None \<Rightarrow> (none True, [SegBadMonth])
               | Some month \<Rightarrow>
                   if \<not> is_month month then (none True, [SegBadMonth])
                   else (case segment_base_of seg checkpoints month of
                       Inl (ev, issue) \<Rightarrow> (ev, [issue])
                     | Inr (base, issues) \<Rightarrow>
                         let actual = (case base of Some b \<Rightarrow> info_hash b | None \<Rightarrow> ''genesis'')
                         in (\<lparr> eval_present = True, eval_month = month, eval_base = base \<rparr>,
                             issues
                             @ (case segment_base_pin of
                                  Some pin \<Rightarrow> if pin \<noteq> actual then [SegBasePinned actual pin] else []
                                | None \<Rightarrow> [])
                             @ concat (map (check_dated month base) checkpoints)))))"

text \<open>The checks a month leaves to the chain.\<close>

definition segment_not_evaluated :: "bool \<Rightarrow> bool \<Rightarrow> string list" where
  "segment_not_evaluated has_base has_earlier_parents =
     (if \<not> has_base then []
      else [''broker_grant_log'', ''federation_heads''] @ (if has_earlier_parents then [''record_completeness''] else [])
        @ [''cross_month_uses''])"

section \<open>The chain of one month\<close>

record segment_base =
  base_seq :: int
  base_hash :: string
  base_record_count :: int

datatype segment_chain_error =
    Chain checkpoint_error
  | BaseMismatch int int
  | SegmentEmpty int
  | BaseFrontierCarried string

definition cp_str :: "canon_value \<Rightarrow> string \<Rightarrow> (string, checkpoint_error) result" where
  "cp_str v k = bind_result (ok_or (get v k) (CpMissingField k)) (\<lambda>w. ok_or (as_str w) (CpFieldType k))"

definition cp_int :: "canon_value \<Rightarrow> string \<Rightarrow> (int, checkpoint_error) result" where
  "cp_int v k = bind_result (ok_or (get v k) (CpMissingField k)) (\<lambda>w. ok_or (as_int w) (CpFieldType k))"

fun first_carried :: "dag \<Rightarrow> string list \<Rightarrow> string option" where
  "first_carried d [] = None"
| "first_carried d (fh # fhs) = (if map_of (by_hash d) fh \<noteq> None then Some fh else first_carried d fhs)"

definition segment_first :: "dag \<Rightarrow> segment_base \<Rightarrow> canon_value \<Rightarrow> (unit, segment_chain_error) result" where
  "segment_first d base first =
     bind_result (map_err Chain (cp_int first ''checkpoint_seq'')) (\<lambda>first_seq.
     bind_result (if first_seq \<noteq> base_seq base then Ok False
                  else map_ok (\<lambda>h. h = base_hash base) (map_err Chain (cp_str first ''checkpoint_hash''))) (\<lambda>same.
     if \<not> same then Err (BaseMismatch (base_seq base) first_seq)
     else (case first_carried d (frontier_strs first) of
         Some h \<Rightarrow> Err (BaseFrontierCarried h)
       | None \<Rightarrow> Ok ())))"

definition segment_window :: "canon_value \<Rightarrow> canon_value \<Rightarrow> (unit, checkpoint_error) result" where
  "segment_window a b =
     bind_result (cp_int a ''checkpoint_seq'') (\<lambda>sa.
     bind_result (cp_int b ''checkpoint_seq'') (\<lambda>sb.
     if sa = sb then
       bind_result (cp_str a ''checkpoint_hash'') (\<lambda>ha.
       bind_result (cp_str b ''checkpoint_hash'') (\<lambda>hb.
       if ha \<noteq> hb then Err (CpForkDetected sa) else Ok ()))
     else if sb \<noteq> sa + 1 then Err (CpSeqGap sa sb)
     else
       bind_result (ok_or (Option.bind (get b ''prev_checkpoint_hash'') as_str) (CpMissingField ''prev_checkpoint_hash'')) (\<lambda>prev_ref.
       bind_result (cp_str a ''checkpoint_hash'') (\<lambda>prev_hash.
       if prev_ref \<noteq> prev_hash then Err (CpPrevHashMismatch sb prev_hash prev_ref)
       else
         bind_result (cp_int a ''record_count'') (\<lambda>ca.
         bind_result (cp_int b ''record_count'') (\<lambda>cb.
         if cb < ca then Err (CpRecordCountDecreased sb ca cb) else Ok ()))))))"

fun segment_windows :: "canon_value list \<Rightarrow> (unit, checkpoint_error) result" where
  "segment_windows (a # b # rest) = bind_result (segment_window a b) (\<lambda>_. segment_windows (b # rest))"
| "segment_windows _ = Ok ()"

fun segment_members :: "dag \<Rightarrow> segment_base \<Rightarrow> int \<Rightarrow> canon_value list \<Rightarrow> (unit, checkpoint_error) result" where
  "segment_members d base seq [] = Ok ()"
| "segment_members d base seq (fh # fhs) =
     bind_result (ok_or (as_str fh) (CpFieldType ''frontier'')) (\<lambda>h.
     if parse_sha256 h = None then Err (CpBadFrontierHash h)
     else if seq = base_seq base then segment_members d base seq fhs
     else if map_of (by_hash d) h = None \<and> h \<notin> set (external_frontier d) then Err (CpFrontierMemberMissing seq h)
     else segment_members d base seq fhs)"

fun segment_frontiers :: "dag \<Rightarrow> segment_base \<Rightarrow> canon_value list \<Rightarrow> (unit, checkpoint_error) result" where
  "segment_frontiers d base [] = Ok ()"
| "segment_frontiers d base (cp # cps) =
     bind_result (cp_int cp ''checkpoint_seq'') (\<lambda>seq.
     bind_result (ok_or (get cp ''frontier'') (CpMissingField ''frontier'')) (\<lambda>v.
     bind_result (ok_or (as_array v) (CpFieldType ''frontier'')) (\<lambda>frontier.
     bind_result (segment_members d base seq frontier) (\<lambda>_. segment_frontiers d base cps))))"

fun segment_prevs :: "canon_value list \<Rightarrow> (string \<times> string) list \<Rightarrow> (unit, checkpoint_error) result" where
  "segment_prevs [] by_prev = Ok ()"
| "segment_prevs (cp # cps) by_prev =
     (case Option.bind (get cp ''prev_checkpoint_hash'') as_str of
        None \<Rightarrow> segment_prevs cps by_prev
      | Some prev \<Rightarrow>
          bind_result (cp_str cp ''checkpoint_hash'') (\<lambda>this.
          if map_of by_prev prev \<notin> {None, Some this} then Err (CpForkSharedPrev prev)
          else segment_prevs cps (bt_insert prev this by_prev)))"

text \<open>\<open>checked_add\<close> on \<open>i64\<close>, after the conversion of a \<open>usize\<close>.\<close>

definition checked_count :: "nat \<Rightarrow> int \<Rightarrow> int option" where
  "checked_count n c = (if in_i64 (int n) \<and> in_i64 (int n + c) then Some (int n + c) else None)"

definition segment_latest :: "dag \<Rightarrow> segment_base \<Rightarrow> canon_value \<Rightarrow> (unit, segment_chain_error) result" where
  "segment_latest d base latest =
     bind_result (map_err Chain (cp_int latest ''checkpoint_seq'')) (\<lambda>seq.
     if seq = base_seq base then Err (SegmentEmpty (base_seq base))
     else bind_result (map_err Chain (ok_or (Option.bind (get latest ''frontier'') as_array) (CpFieldType ''frontier''))) (\<lambda>arr.
     let frontier = List.map_filter as_str arr
     in if set frontier \<noteq> set (heads d)
        then Err (Chain (CpLatestFrontierMismatch seq (length (remdups frontier)) (length (remdups (heads d)))))
        else bind_result (map_err Chain (cp_int latest ''record_count'')) (\<lambda>stated.
        if checked_count (length (by_hash d)) (base_record_count base) \<noteq> Some stated
        then Err (Chain (CpRecordCountMismatch seq stated (length (by_hash d)))) else Ok ())))"

definition validate_segment_chain :: "canon_value list \<Rightarrow> dag \<Rightarrow> segment_base option \<Rightarrow> (unit, segment_chain_error) result" where
  "validate_segment_chain checkpoints d base_opt =
     (case base_opt of
        None \<Rightarrow> map_err Chain (map_ok (\<lambda>_. ()) (validate_chain checkpoints d))
      | Some base \<Rightarrow>
          let ordered = sort_key (\<lambda>cp. case seq_of cp of Some s \<Rightarrow> s | None \<Rightarrow> i64_MIN) checkpoints
          in if ordered = [] then Err (Chain (CpMissingField ''checkpoint_seq''))
             else bind_result (segment_first d base (hd ordered)) (\<lambda>_.
                  bind_result (map_err Chain (segment_windows ordered)) (\<lambda>_.
                  bind_result (map_err Chain (segment_frontiers d base ordered)) (\<lambda>_.
                  bind_result (map_err Chain (segment_prevs ordered [])) (\<lambda>_.
                  segment_latest d base (last ordered))))))"

section \<open>The rules shared with the whole history\<close>

text \<open>The segment check repeats the pairwise rules of \<open>validate_chain\<close>.\<close>

lemma cp_fields_eq [simp]: "cp_str = cp_str_field" "cp_int = cp_int_field"
  by (simp_all add: fun_eq_iff cp_str_def cp_int_def cp_str_field_def cp_int_field_def)

lemma seq_of_key: "(case seq_of cp of Some s \<Rightarrow> s | None \<Rightarrow> i64_MIN) = seq_key cp"
  by (simp add: seq_of_def seq_key_def)

lemma segment_windows_eq: "segment_windows cs = check_windows cs"
proof -
  have "segment_window = check_window" unfolding fun_eq_iff segment_window_def check_window_def cp_fields_eq by blast
  then show ?thesis by (induction cs rule: check_windows.induct) simp_all
qed

lemma segment_prevs_eq: "segment_prevs cs m = check_prevs cs m"
proof (induction cs arbitrary: m)
  case (Cons c cs)
  show ?case unfolding segment_prevs.simps check_prevs.simps cp_fields_eq Cons.IH ..
qed simp

lemma segment_members_Ok:
  "segment_members d base s fr = Ok () \<longleftrightarrow>
     (\<forall>v\<in>set fr. \<exists>h. v = Str h \<and> parse_sha256 h \<noteq> None
        \<and> (s = base_seq base \<or> map_of (by_hash d) h \<noteq> None \<or> h \<in> set (external_frontier d)))"
  by (induction fr) (auto split: if_splits)

lemma segment_frontiers_Ok:
  "segment_frontiers d base cs = Ok () \<longleftrightarrow>
     (\<forall>c\<in>set cs. \<exists>s fr. get c ''checkpoint_seq'' = Some (CInt s) \<and> get c ''frontier'' = Some (Array fr)
        \<and> segment_members d base s fr = Ok ())"
  by (induction d base cs rule: segment_frontiers.induct) (auto simp: cp_field_Ok)

lemma frontier_strs_Array: "get cp ''frontier'' = Some (Array fr) \<Longrightarrow> set (frontier_strs cp) = {h. Str h \<in> set fr}"
  by (simp add: frontier_strs_def set_strs as_array_def)

lemma first_carried_None: "first_carried d hs = None \<longleftrightarrow> (\<forall>h\<in>set hs. map_of (by_hash d) h = None)"
  by (induction hs) auto

lemma segment_first_Ok:
  "segment_first d base c = Ok () \<longleftrightarrow>
     get c ''checkpoint_seq'' = Some (CInt (base_seq base)) \<and> get c ''checkpoint_hash'' = Some (Str (base_hash base))
     \<and> (\<forall>h\<in>set (frontier_strs c). map_of (by_hash d) h = None)"
  by (auto simp: segment_first_def cp_field_Ok first_carried_None [symmetric] split: if_splits option.splits)

lemma segment_latest_Ok:
  "segment_latest d base c = Ok () \<longleftrightarrow>
     (\<exists>s fr n. get c ''checkpoint_seq'' = Some (CInt s) \<and> s \<noteq> base_seq base \<and> get c ''frontier'' = Some (Array fr)
        \<and> {h. Str h \<in> set fr} = set (heads d) \<and> get c ''record_count'' = Some (CInt n)
        \<and> checked_count (length (by_hash d)) (base_record_count base) = Some n)"
  by (auto simp: segment_latest_def cp_field_Ok Let_def set_strs split: if_splits)

lemma validate_segment_chain_Ok:
  "validate_segment_chain cs d (Some base) = Ok () \<longleftrightarrow>
     (let os = sort_key seq_key cs
      in cs \<noteq> [] \<and> segment_first d base (hd os) = Ok () \<and> check_windows os = Ok () \<and> segment_frontiers d base os = Ok ()
         \<and> check_prevs os [] = Ok () \<and> segment_latest d base (last os) = Ok ())"
proof -
  have "sort_key seq_key cs = [] \<longleftrightarrow> cs = []" by (metis mset_sort mset_zero_iff_right)
  then show ?thesis
    by (auto simp: validate_segment_chain_def seq_of_key segment_windows_eq segment_prevs_eq Let_def)
qed

section \<open>Accepted segments\<close>

lemma segment_facts:
  assumes "validate_segment_chain cs d (Some base) = Ok ()"
  shows segment_from: "c \<in> set cs \<Longrightarrow> get c ''checkpoint_seq'' = Some (CInt (seq_key c)) \<and> base_seq base \<le> seq_key c"
    and segment_no_fork: "c \<in> set cs \<Longrightarrow> c' \<in> set cs \<Longrightarrow> seq_key c = seq_key c' \<Longrightarrow>
      get c ''checkpoint_hash'' = get c' ''checkpoint_hash''"
    and segment_linked: "c \<in> set cs \<Longrightarrow> base_seq base < seq_key c \<Longrightarrow> link_to cs (seq_key c)"
    and segment_contiguous: "c \<in> set cs \<Longrightarrow> base_seq base \<le> s \<Longrightarrow> s \<le> seq_key c \<Longrightarrow> \<exists>c'\<in>set cs. seq_key c' = s"
    and segment_frontier: "c \<in> set cs \<Longrightarrow> \<exists>fr. get c ''frontier'' = Some (Array fr) \<and> segment_members d base (seq_key c) fr = Ok ()"
    and segment_base_carried: "\<exists>b\<in>set cs. seq_key b = base_seq base \<and> hash_is b (base_hash base)
      \<and> (\<forall>h\<in>set (frontier_strs b). map_of (by_hash d) h = None)"
    and segment_head: "\<exists>l\<in>set cs. (\<forall>c\<in>set cs. seq_key c \<le> seq_key l) \<and> segment_latest d base l = Ok ()"
proof -
  let ?os = "sort_key seq_key cs"
  note ok = assms [unfolded validate_segment_chain_Ok Let_def]
  have ne: "?os \<noteq> []" using ok by (metis mset_sort mset_zero_iff_right)
  have first: "seq_key (hd ?os) = base_seq base" using ok by (simp add: segment_first_Ok seq_key_CInt)
  have "check_windows ?os = Ok ()" using ok by blast
  note W = windows_facts [OF refl this first]
  have fr: "\<exists>s fr. get c ''checkpoint_seq'' = Some (CInt s) \<and> get c ''frontier'' = Some (Array fr) \<and> segment_members d base s fr = Ok ()"
    if "c \<in> set cs" for c
    using ok that unfolding segment_frontiers_Ok by simp
  show "get c ''checkpoint_seq'' = Some (CInt (seq_key c)) \<and> base_seq base \<le> seq_key c" if "c \<in> set cs" for c
    using W(1) [OF that] fr [OF that] by (auto simp: seq_key_CInt)
  show "c \<in> set cs \<Longrightarrow> c' \<in> set cs \<Longrightarrow> seq_key c = seq_key c' \<Longrightarrow> get c ''checkpoint_hash'' = get c' ''checkpoint_hash''" for c c'
    by (rule W(2))
  show "c \<in> set cs \<Longrightarrow> base_seq base < seq_key c \<Longrightarrow> link_to cs (seq_key c)" for c by (rule W(3))
  show "c \<in> set cs \<Longrightarrow> base_seq base \<le> s \<Longrightarrow> s \<le> seq_key c \<Longrightarrow> \<exists>c'\<in>set cs. seq_key c' = s" for c s by (rule W(4))
  show "\<exists>fr. get c ''frontier'' = Some (Array fr) \<and> segment_members d base (seq_key c) fr = Ok ()" if "c \<in> set cs" for c
    using fr [OF that] by (auto simp: seq_key_CInt)
  have mem: "hd ?os \<in> set cs" "last ?os \<in> set cs" using hd_in_set [OF ne] last_in_set [OF ne] by simp_all
  then show "\<exists>b\<in>set cs. seq_key b = base_seq base \<and> hash_is b (base_hash base) \<and> (\<forall>h\<in>set (frontier_strs b). map_of (by_hash d) h = None)"
    using first ok unfolding segment_first_Ok hash_is_def by blast
  have "\<forall>c\<in>set cs. seq_key c \<le> seq_key (last ?os)" using sorted_last [of seq_key ?os] by simp
  then show "\<exists>l\<in>set cs. (\<forall>c\<in>set cs. seq_key c \<le> seq_key l) \<and> segment_latest d base l = Ok ()" using mem(2) ok by blast
qed

text \<open>C13: An accepted month. Its checkpoints run without a gap from the base it states, which it carries; two with
  one number have one hash, and every number after the base's is reached by a link to the number
  before. No member of the base's frontier is carried as a record of the month, the frontiers of the later checkpoints name
  records of the month or of the base's frontier, and the last checkpoint, after the base, states the
  heads of the month's graph and the number of all records up to it.\<close>

theorem validate_segment_sound:
  assumes "validate_segment_chain cs d (Some base) = Ok ()" "c \<in> set cs"
  shows "(\<exists>b\<in>set cs. seq_key b = base_seq base \<and> get b ''checkpoint_hash'' = Some (Str (base_hash base))
        \<and> (\<forall>h\<in>set (frontier_strs b). map_of (by_hash d) h = None))
    \<and> (\<forall>s\<in>{base_seq base..seq_key c}. \<exists>c'\<in>set cs. seq_key c' = s)
    \<and> (\<forall>c'\<in>set cs. seq_key c = seq_key c' \<longrightarrow> get c ''checkpoint_hash'' = get c' ''checkpoint_hash'')
    \<and> (base_seq base < seq_key c \<longrightarrow> link_to cs (seq_key c)
         \<and> (\<forall>h\<in>set (frontier_strs c). map_of (by_hash d) h \<noteq> None \<or> h \<in> set (external_frontier d)))
    \<and> (\<exists>l\<in>set cs. seq_key c \<le> seq_key l \<and> base_seq base < seq_key l \<and> set (frontier_strs l) = set (heads d)
        \<and> get l ''record_count'' = Some (CInt (base_record_count base + int (length (by_hash d)))))"
proof -
  note F = segment_facts [OF assms(1)]
  have base: "\<exists>b\<in>set cs. seq_key b = base_seq base \<and> get b ''checkpoint_hash'' = Some (Str (base_hash base))
      \<and> (\<forall>h\<in>set (frontier_strs b). map_of (by_hash d) h = None)"
    using F(6) unfolding hash_is_def .
  obtain fr where fr: "get c ''frontier'' = Some (Array fr)" "segment_members d base (seq_key c) fr = Ok ()"
    using F(5) assms(2) by blast
  have mem: "\<forall>h\<in>set (frontier_strs c). map_of (by_hash d) h \<noteq> None \<or> h \<in> set (external_frontier d)" if "base_seq base < seq_key c"
    using fr(2) that unfolding frontier_strs_Array [OF fr(1)] segment_members_Ok by auto
  obtain l where l: "l \<in> set cs" "\<forall>c\<in>set cs. seq_key c \<le> seq_key l" "segment_latest d base l = Ok ()" using F(7) by blast
  then obtain s fl n where s: "get l ''checkpoint_seq'' = Some (CInt s)" "s \<noteq> base_seq base"
    and fl: "get l ''frontier'' = Some (Array fl)" "{h. Str h \<in> set fl} = set (heads d)"
    and n: "get l ''record_count'' = Some (CInt n)" "checked_count (length (by_hash d)) (base_record_count base) = Some n"
    unfolding segment_latest_Ok by blast
  have "base_seq base < seq_key l" using F(1) [OF l(1)] s by (auto simp: seq_key_CInt)
  moreover have "n = base_record_count base + int (length (by_hash d))"
    using n(2) by (simp add: checked_count_def split: if_splits)
  ultimately have head: "\<exists>l\<in>set cs. seq_key c \<le> seq_key l \<and> base_seq base < seq_key l \<and> set (frontier_strs l) = set (heads d)
      \<and> get l ''record_count'' = Some (CInt (base_record_count base + int (length (by_hash d))))"
    using l(1,2) assms(2) n(1) fl(2) unfolding frontier_strs_Array [OF fl(1), symmetric] by blast
  show ?thesis using base head mem F(2) [OF assms(2)] F(3) [OF assms(2)] F(4) [OF assms(2)] by simp
qed

text \<open>A month without records: its checkpoint repeats the frontier of the base.\<close>

definition idle_dag :: dag where
  "idle_dag = \<lparr> by_hash = [], heads = [hash_of CHR ''1''], topo_order = [], collapsed_duplicates = 0,
     external_frontier = [hash_of CHR ''1''], earlier_refs = [] \<rparr>"

lemma idle_month_accepted:
  "build_from [] (Some [hash_of CHR ''1'']) = Some (Ok idle_dag)"
  "validate_segment_chain [demo_cp 5 (Str ''p'') ''q'', demo_cp 4 (Str ''o'') ''p''] idle_dag
     (Some \<lparr> base_seq = 4, base_hash = ''p'', base_record_count = 2 \<rparr>) = Ok ()"
  by code_simp+

theorem validate_segment_sound_witness:
  "\<exists>l\<in>set [demo_cp 5 (Str ''p'') ''q'', demo_cp 4 (Str ''o'') ''p'']. 4 < seq_key l \<and> set (frontier_strs l) = set (heads idle_dag)
     \<and> get l ''record_count'' = Some (CInt (2 + int (length (by_hash idle_dag))))"
  using validate_segment_sound [OF idle_month_accepted(2), of "demo_cp 4 (Str ''o'') ''p''"] by auto

end
