(* ===== verification/Dag_Append.thy ===== *)
theory Dag_Append
  imports Dag
begin

text \<open>
  Graphs of concatenated record sets. If a closed graph is followed by a graph on top of it whose
  parents outside are records of the first, and no record is in both, then the records of both build
  one graph: it has the records of the parts, the edges of the parts and the heads of the second.
\<close>

section \<open>Indexes\<close>

lemma strs_of_index: "strs_of vs i = Ok ps \<Longrightarrow> strs_of vs j = Ok ps"
  by (induction vs arbitrary: ps) auto

lemma parents_of_index: "parents_of r i = Ok ps \<Longrightarrow> parents_of r j = Ok ps"
  by (cases "get r ''causal_prev_hashes''") (auto simp: parents_of_def intro: strs_of_index [of _ i])

lemma names_parent_lookup:
  assumes "bt_wf index"
  shows "names_parent records index p ch \<longleftrightarrow> (\<exists>j ps. map_of index ch = Some j \<and> parents_of (records ! j) 0 = Ok ps \<and> p \<in> set ps)"
  unfolding names_parent_def map_of_eq_Some_iff [OF distinct_bt_keys [OF assms], symmetric]
  using parents_of_index by blast

lemma lookup_hash:
  assumes "index_records records 0 ([], 0) = Ok (index, collapsed)"
  shows "map_of index h \<noteq> None \<longleftrightarrow> (\<exists>r\<in>set records. get r ''content_hash'' = Some (Str h))"
  using nodes_records(1) [OF assms] by (auto simp: nodes_def)

lemma index_append:
  assumes A: "index_records rsA 0 ([], 0) = Ok (iA, cA)" and B: "index_records rsB 0 ([], 0) = Ok (iB, cB)"
    and W: "index_records (rsA @ rsB) 0 ([], 0) = Ok (iW, cW)"
  shows "map_of iW h = (case map_of iB h of Some j \<Rightarrow> Some (length rsA + j) | None \<Rightarrow> map_of iA h)"
proof (cases "map_of iB h")
  case (Some j)
  then have j: "j < length rsB" "get (rsB ! j) ''content_hash'' = Some (Str h)"
    "\<forall>k<length rsB. get (rsB ! k) ''content_hash'' = Some (Str h) \<longrightarrow> k \<le> j"
    unfolding index_iff [OF B] by blast+
  have "k \<le> length rsA + j" if "k < length (rsA @ rsB)" "get ((rsA @ rsB) ! k) ''content_hash'' = Some (Str h)" for k
  proof (cases "k < length rsA")
    case False
    then have "k - length rsA \<le> j" using that j(3) by (simp add: nth_append)
    then show ?thesis by simp
  qed simp
  then have "map_of iW h = Some (length rsA + j)"
    unfolding index_iff [OF W] using j(1,2) by (auto simp: nth_append)
  then show ?thesis using Some by simp
next
  case None
  then have no: "get (rsB ! k) ''content_hash'' \<noteq> Some (Str h)" if "k < length rsB" for k
    using lookup_hash [OF B, of h] that by auto
  have "map_of iW h = Some j \<longleftrightarrow> map_of iA h = Some j" for j
    unfolding index_iff [OF W] index_iff [OF A] using no
    by (auto simp: nth_append split: if_splits)
  then have "map_of iW h = map_of iA h" by (metis option.exhaust)
  then show ?thesis using None by simp
qed

text \<open>Two indexes that share no record.\<close>

lemma graph_append:
  assumes A: "index_records rsA 0 ([], 0) = Ok (iA, cA)" and B: "index_records rsB 0 ([], 0) = Ok (iB, cB)"
    and W: "index_records (rsA @ rsB) 0 ([], 0) = Ok (iW, cW)"
    and disj: "\<And>h. map_of iA h = None \<or> map_of iB h = None"
  shows append_nodes: "map_of iW h \<noteq> None \<longleftrightarrow> map_of iA h \<noteq> None \<or> map_of iB h \<noteq> None"
    and append_length: "length iW = length iA + length iB"
    and append_parents: "names_parent (rsA @ rsB) iW p ch \<longleftrightarrow> names_parent rsA iA p ch \<or> names_parent rsB iB p ch"
proof -
  note look = index_append [OF A B W] and wf = index_records_wf [OF _ bt_wf_Nil]
  show n: "map_of iW h \<noteq> None \<longleftrightarrow> map_of iA h \<noteq> None \<or> map_of iB h \<noteq> None" for h
    unfolding look by (cases "map_of iB h") auto
  have "nodes iW = nodes iA \<union> nodes iB" unfolding nodes_def using n by blast
  moreover have "nodes iA \<inter> nodes iB = {}"
    unfolding nodes_def disjoint_iff mem_Collect_eq using disj by metis
  ultimately have "card (nodes iW) = card (nodes iA) + card (nodes iB)"
    by (simp add: card_Un_disjoint finite_nodes)
  then show "length iW = length iA + length iB"
    using card_nodes wf [OF A] wf [OF B] wf [OF W] by metis
  have "j < length rsA" if "map_of iA ch = Some j" for j using that index_iff [OF A] by blast
  then show "names_parent (rsA @ rsB) iW p ch \<longleftrightarrow> names_parent rsA iA p ch \<or> names_parent rsB iB p ch"
    unfolding names_parent_lookup [OF wf [OF A]] names_parent_lookup [OF wf [OF B]] names_parent_lookup [OF wf [OF W]] look
    using disj [of ch] by (cases "map_of iB ch"; cases "map_of iA ch") (auto simp: nth_append)
qed

section \<open>The steps succeed\<close>

lemma index_records_any: "index_records recs i (m, c) = Ok r \<Longrightarrow> \<exists>r. index_records recs j (m', c') = Ok r"
proof (induction recs arbitrary: i m c j m' c')
  case (Cons rec recs)
  obtain ms ch c'' where rec: "rec = Object ms" "content_hash_of rec i = Ok ch" "index_records recs (i + 1) (bt_insert ch i m, c'') = Ok r"
    using Cons.prems unfolding index_records_Cons by blast
  have "content_hash_of rec j = Ok ch" using rec(2) by (simp add: content_hash_of_get)
  then show ?case using Cons.IH [OF rec(3)] rec(1) unfolding index_records_Cons by blast
qed simp

lemma index_records_append:
  "index_records xs i (m, c) = Ok r \<Longrightarrow> index_records ys j (m', c') = Ok r' \<Longrightarrow> \<exists>r. index_records (xs @ ys) i (m, c) = Ok r"
proof (induction xs arbitrary: i m c)
  case Nil
  then show ?case using index_records_any by simp blast
next
  case (Cons rec recs)
  from Cons.prems(1) obtain ms ch where "rec = Object ms" "content_hash_of rec i = Ok ch"
    "index_records recs (i + 1) (bt_insert ch i m, if map_of m ch \<noteq> None then c + 1 else c) = Ok r"
    unfolding index_records_Cons by blast
  then show ?case using Cons.IH Cons.prems(2) unfolding append_Cons index_records_Cons by blast
qed

lemma link_parents_parse: "link_parents base index ch ps seen e = Ok e' \<Longrightarrow> p \<in> set ps \<Longrightarrow> parse_sha256 p \<noteq> None"
  by (induction base index ch ps seen e rule: link_parents.induct) (auto split: if_splits option.splits)

lemma link_all_parse:
  "link_all base records index entries e = Ok e' \<Longrightarrow> (ch, i) \<in> set entries \<Longrightarrow>
     \<exists>ps. parents_of (records ! i) i = Ok ps \<and> (\<forall>p\<in>set ps. parse_sha256 p \<noteq> None)"
proof (induction base records index entries e rule: link_all.induct)
  case (2 base records index ch' i' rest e)
  obtain ps e1 where ps: "parents_of (records ! i') i' = Ok ps" "link_parents base index ch' ps [] e = Ok e1"
    and rest: "link_all base records index rest e1 = Ok e'" using "2.prems"(1) by auto
  show ?case
  proof (cases "(ch, i) = (ch', i')")
    case True
    then show ?thesis using ps(1) link_parents_parse [OF ps(2)] by auto
  next
    case False
    then show ?thesis using "2.IH" [OF rest] "2.prems"(2) by auto
  qed
qed simp

lemma link_parents_ok:
  "\<forall>p\<in>set ps. parse_sha256 p \<noteq> None \<and> map_of index p \<noteq> None \<Longrightarrow> \<exists>e'. link_parents base index ch ps seen e = Ok e'"
  by (induction ps arbitrary: seen e) auto

lemma link_all_ok:
  "\<forall>(ch, i)\<in>set entries. \<exists>ps. parents_of (records ! i) i = Ok ps \<and> (\<forall>p\<in>set ps. parse_sha256 p \<noteq> None \<and> map_of index p \<noteq> None) \<Longrightarrow>
   \<exists>e'. link_all base records index entries e = Ok e'"
proof (induction entries arbitrary: e)
  case (Cons entry rest)
  obtain ch i ps where entry: "entry = (ch, i)" "parents_of (records ! i) i = Ok ps"
    "\<forall>p\<in>set ps. parse_sha256 p \<noteq> None \<and> map_of index p \<noteq> None"
    using Cons.prems by (cases entry) auto
  obtain e1 where "link_parents base index ch ps [] e = Ok e1" using link_parents_ok [OF entry(3)] by blast
  then show ?case using Cons.IH [of e1] Cons.prems entry(1,2) by simp
qed simp

lemma build_from_or_cycle:
  assumes "index_records records 0 ([], 0) = Ok (index, collapsed)" "link_all base records index index (initial_edges index) = Ok e"
  shows "(\<exists>d. build_from records base = Some (Ok d)) \<or> (\<exists>k. build_from records base = Some (Err (Cycle k)))"
proof (cases rule: build_from_cases [of records base])
  case (failed x)
  then show ?thesis using assms by (auto simp: build_from_def initial_edges_def Let_def split: option.splits if_splits)
next
  case (sorted index collapsed e topo indeg')
  then show ?thesis by auto
qed

text \<open>In an accepted set no records wait on each other.\<close>

lemma build_from_no_loop:
  assumes d: "build_from records base = Some (Ok d)" and S: "S \<subseteq> nodes (by_hash d)" "S \<noteq> {}"
    and loop: "\<forall>c\<in>S. \<exists>p\<in>S. names_parent records (by_hash d) p c"
  shows False
proof -
  let ?t = "topo_order d"
  obtain indeg' where k: "kahn_inv (nodes (by_hash d)) (parent_edges records (nodes (by_hash d)) (by_hash d)) [] indeg' ?t"
    using build_from_Ok_sorted [OF d] by blast
  have "\<exists>i<length ?t. ?t ! i \<in> S" using S build_from_Ok_nodes [OF d] by (metis ex_in_conv in_set_conv_nth subsetD)
  then obtain i where i: "i < length ?t" "?t ! i \<in> S" and least: "\<And>j. j < length ?t \<Longrightarrow> ?t ! j \<in> S \<Longrightarrow> i \<le> j"
    using exists_least_iff [of "\<lambda>i. i < length ?t \<and> ?t ! i \<in> S"] by (metis linorder_not_le)
  obtain p where p: "p \<in> S" "names_parent records (by_hash d) p (?t ! i)" using loop i(2) by blast
  then have "(p, ?t ! i) \<in> parent_edges records (nodes (by_hash d)) (by_hash d)" using S(1) by (auto simp: parent_edges_def)
  then have "p \<in> set (take i ?t)" using kahn_inv_done(6) [OF k finite_nodes i(1)] by blast
  then obtain j where "j < i" "?t ! j = p" using i(1) by (auto simp: in_set_conv_nth)
  then show False using least [of j] i(1) p(1) by simp
qed

section \<open>The whole graph\<close>

lemma build_from_parents:
  assumes d: "build_from records base = Some (Ok d)" and ch: "(ch, i) \<in> set (by_hash d)"
  obtains ps where "parents_of (records ! i) i = Ok ps" "\<forall>p\<in>set ps. parse_sha256 p \<noteq> None"
    "\<forall>p\<in>set ps. p \<in> nodes (by_hash d) \<or> (\<exists>b. base = Some b \<and> (p \<in> set b \<or> p \<in> set (earlier_refs d)))"
proof -
  obtain e where l: "link_all base records (by_hash d) (by_hash d) (initial_edges (by_hash d)) = Ok e" and e: "earlier_refs d = earlier e"
    using build_from_Ok_links [OF d] by blast
  note L = link_initial [OF build_from_Ok_wf [OF d] l]
  obtain ps where ps: "parents_of (records ! i) i = Ok ps" "\<forall>p\<in>set ps. parse_sha256 p \<noteq> None"
    using link_all_parse [OF l ch] by blast
  have "p \<in> nodes (by_hash d) \<or> (\<exists>b. base = Some b \<and> (p \<in> set b \<or> p \<in> set (earlier_refs d)))" if "p \<in> set ps" for p
  proof -
    have n: "names_parent records (by_hash d) p ch" using ch ps(1) that unfolding names_parent_def by blast
    show ?thesis using L(3) [OF _ n] L(5) n unfolding e by (cases base) auto
  qed
  then show ?thesis using that ps by blast
qed

lemma build_from_closed:
  assumes d: "build_from records None = Some (Ok d)" and np: "names_parent records (by_hash d) p c"
  shows "p \<in> nodes (by_hash d)"
proof -
  obtain e where l: "link_all None records (by_hash d) (by_hash d) (initial_edges (by_hash d)) = Ok e"
    using build_from_Ok_links [OF d] by blast
  show ?thesis by (rule link_initial(3) [OF build_from_Ok_wf [OF d] l refl np])
qed

lemma build_append:
  assumes A: "build_from rsA None = Some (Ok dA)" and B: "build_from rsB (Some fr) = Some (Ok dB)"
    and disj: "\<And>h. map_of (by_hash dA) h = None \<or> map_of (by_hash dB) h = None"
    and fr: "set fr \<subseteq> nodes (by_hash dA)" and earlier: "set (earlier_refs dB) \<subseteq> nodes (by_hash dA)"
  shows "\<exists>d. build_from (rsA @ rsB) None = Some (Ok d)"
proof -
  note iA = build_from_Ok_index [OF A] and iB = build_from_Ok_index [OF B]
  obtain index collapsed where W: "index_records (rsA @ rsB) 0 ([], 0) = Ok (index, collapsed)"
    using index_records_append [OF iA iB] by fastforce
  note wf = index_records_wf [OF W bt_wf_Nil] and G = graph_append [OF iA iB W disj]
  have N: "nodes index = nodes (by_hash dA) \<union> nodes (by_hash dB)" unfolding nodes_def using G(1) by blast
  have entry: "\<exists>ps. parents_of ((rsA @ rsB) ! i) i = Ok ps \<and> (\<forall>p\<in>set ps. parse_sha256 p \<noteq> None \<and> map_of index p \<noteq> None)"
    if "(ch, i) \<in> set index" for ch i
  proof -
    have i: "map_of index ch = Some i" using that distinct_bt_keys [OF wf] by (simp add: map_of_eq_Some_iff)
    show ?thesis
    proof (cases "map_of (by_hash dB) ch")
      case (Some j)
      then have ij: "i = length rsA + j" using i index_append [OF iA iB W] by simp
      obtain ps where ps: "parents_of (rsB ! j) j = Ok ps" "\<forall>p\<in>set ps. parse_sha256 p \<noteq> None"
        "\<forall>p\<in>set ps. p \<in> nodes (by_hash dB) \<or> p \<in> set fr \<or> p \<in> set (earlier_refs dB)"
        using build_from_parents [OF B map_of_SomeD [OF Some]] by auto
      have "\<forall>p\<in>set ps. p \<in> nodes index" using ps(3) fr earlier N by blast
      then show ?thesis using ps(2) parents_of_index [OF ps(1), of i] unfolding ij by (auto simp: nodes_def)
    next
      case None
      then have ij: "map_of (by_hash dA) ch = Some i" using i index_append [OF iA iB W] by simp
      then have "i < length rsA" using index_lookup [OF A] by blast
      moreover obtain ps where ps: "parents_of (rsA ! i) i = Ok ps" "\<forall>p\<in>set ps. parse_sha256 p \<noteq> None" "\<forall>p\<in>set ps. p \<in> nodes (by_hash dA)"
        using build_from_parents [OF A map_of_SomeD [OF ij]] by auto
      moreover have "\<forall>p\<in>set ps. p \<in> nodes index" using ps(3) N by blast
      ultimately show ?thesis by (auto simp: nth_append nodes_def)
    qed
  qed
  obtain e where l: "link_all None (rsA @ rsB) index index (initial_edges index) = Ok e" using link_all_ok [of index] entry by blast
  have False if cyc: "build_from (rsA @ rsB) None = Some (Err (Cycle k))" for k
  proof -
    obtain index' collapsed' topo indeg' where i': "index_records (rsA @ rsB) 0 ([], 0) = Ok (index', collapsed')"
      and k': "kahn_inv (nodes index') (parent_edges (rsA @ rsB) (nodes index') index') [] indeg' topo" "length topo \<noteq> length index'"
      by (rule build_from_Cycle [OF cyc])
    have "index' = index" using i' W by simp
    note k = k' [unfolded this]
    define S where "S = nodes index - set topo"
    note K = kahn_inv_done [OF k(1) finite_nodes]
    have "S \<noteq> {}"
    proof
      assume "S = {}"
      then have "set topo = nodes index" using K(2) unfolding S_def by blast
      then show False using distinct_card [OF K(1)] card_nodes [OF wf] k(2) by simp
    qed
    have loop: "\<exists>p\<in>S. names_parent rsA (by_hash dA) p c \<or> names_parent rsB (by_hash dB) p c" if "c \<in> S" for c
      using K(4) [of c] that unfolding S_def parent_edges_def G(3) by blast
    have names: "c \<in> nodes (by_hash d)" if "names_parent rs (by_hash d) p c" for rs d p c
      using that unfolding names_parent_def nodes_def mem_Collect_eq map_of_eq_None_iff by force
    have disj': "nodes (by_hash dA) \<inter> nodes (by_hash dB) = {}" using disj unfolding nodes_def disjoint_iff mem_Collect_eq by metis
    note closed = build_from_closed [OF A]
    show False
    proof (cases "S \<inter> nodes (by_hash dA) = {}")
      case False
      have "\<exists>p\<in>S \<inter> nodes (by_hash dA). names_parent rsA (by_hash dA) p c" if "c \<in> S \<inter> nodes (by_hash dA)" for c
        using loop [of c] that names [of rsB dB _ c] closed disj' by blast
      then show False using build_from_no_loop [OF A _ False] by blast
    next
      case True
      then have "S \<subseteq> nodes (by_hash dB)" using N unfolding S_def by blast
      moreover have "\<exists>p\<in>S. names_parent rsB (by_hash dB) p c" if "c \<in> S" for c
        using loop [OF that] names [of rsA dA _ c] True that by blast
      ultimately show False using build_from_no_loop [OF B _ \<open>S \<noteq> {}\<close>] by blast
    qed
  qed
  then show ?thesis using build_from_or_cycle [OF W l] by blast
qed

text \<open>The heads of the whole are the heads of the month built on the heads before it.\<close>

lemma heads_append:
  assumes A: "build_from rsA None = Some (Ok dA)" and B: "build_from rsB (Some fr) = Some (Ok dB)"
    and W: "build_from (rsA @ rsB) None = Some (Ok d)"
    and disj: "\<And>h. map_of (by_hash dA) h = None \<or> map_of (by_hash dB) h = None"
    and fr: "set fr = set (heads dA)"
  shows "set (heads d) = set (heads dB)"
proof -
  note G = graph_append [OF build_from_Ok_index [OF A] build_from_Ok_index [OF B] build_from_Ok_index [OF W] disj]
  have topo: "h \<in> set (topo_order d') \<longleftrightarrow> map_of (by_hash d') h \<noteq> None" if "build_from rs b = Some (Ok d')" for rs b d' h
    using build_from_Ok_nodes [OF that] by (auto simp: nodes_def)
  have closed: "map_of (by_hash dA) p \<noteq> None" if "names_parent rsA (by_hash dA) p ch" for p ch
    using build_from_closed [OF A that] by (simp add: nodes_def)
  have hA: "h \<in> set (heads dA) \<longleftrightarrow> map_of (by_hash dA) h \<noteq> None \<and> \<not> (\<exists>c. names_parent rsA (by_hash dA) h c)" for h
    using heads_set [OF A] topo [OF A] by simp
  have hB: "h \<in> set (heads dB) \<longleftrightarrow>
      (map_of (by_hash dB) h \<noteq> None \<or> h \<in> set (heads dA)) \<and> \<not> (\<exists>c. names_parent rsB (by_hash dB) h c)" for h
    using heads_set [OF B] topo [OF B] fr by simp
  have hW: "h \<in> set (heads d) \<longleftrightarrow> map_of (by_hash d) h \<noteq> None \<and> \<not> (\<exists>c. names_parent (rsA @ rsB) (by_hash d) h c)" for h
    using heads_set [OF W] topo [OF W] by simp
  show ?thesis
  proof (rule set_eqI)
    fix h
    show "h \<in> set (heads d) \<longleftrightarrow> h \<in> set (heads dB)"
      using closed [of h] disj [of h] unfolding hW hB hA G(1) G(3)
      by (cases "map_of (by_hash dA) h"; cases "map_of (by_hash dB) h") auto
  qed
qed

end
