(* ===== verification/Segment_Compose.thy ===== *)
theory Segment_Compose
  imports Segment Dag_Append
begin

text \<open>
  A month behind a history. The graph of the concatenated records has the records of both parts and
  the heads of the month's graph, and the concatenated checkpoints are accepted by the whole-history
  rules: checking month by month is as good as checking everything at once.
\<close>

section \<open>Checkpoints\<close>

lemma sort_key_append_ordered:
  assumes "\<forall>x\<in>set xs. \<forall>y\<in>set ys. f x \<le> f y"
  shows "sort_key f (xs @ ys) = sort_key f xs @ sort_key f ys"
proof (rule properties_for_sort_key)
  show "sorted (map f (sort_key f xs @ sort_key f ys))" using assms by (simp add: sorted_append)
  show "filter (\<lambda>x. f k = f x) (sort_key f xs @ sort_key f ys) = filter (\<lambda>x. f k = f x) (xs @ ys)" for k
    using sort_key_stable [of f "f k"] by (simp add: eq_commute [of "f k"])
qed simp

lemma sort_key_Nil: "sort_key f xs = [] \<longleftrightarrow> xs = []"
  by (metis mset_sort mset_zero_iff_right)

text \<open>Checkpoints with one hash are the same checkpoint, up to the anchor and to collisions.\<close>

definition no_collision :: "('sk, 'vk) externals \<Rightarrow> canon_value set \<Rightarrow> bool" where
  "no_collision X C \<longleftrightarrow>
     (\<forall>c\<in>C. accepted_cp X c) \<and> (\<forall>c\<in>C. \<forall>c'\<in>C. \<not> collision X (unwrap (checkpoint_preimage X c)) (unwrap (checkpoint_preimage X c')))"

lemma same_checkpoint:
  assumes X: "nfc_ok (unicode_nfc X)" and C: "no_collision X C" "c \<in> C" "c' \<in> C"
    and h: "get c ''checkpoint_hash'' = get c' ''checkpoint_hash''"
  shows same_seq: "get c ''checkpoint_seq'' = Some (CInt s) \<Longrightarrow> get c' ''checkpoint_seq'' = Some (CInt s)"
    and same_count: "get c ''record_count'' = Some (CInt n) \<Longrightarrow> get c' ''record_count'' = Some (CInt n)"
    and same_prev: "prev_link c p \<Longrightarrow> prev_link c' p"
    and same_frontier: "get c ''frontier'' = Some (Array vs) \<Longrightarrow> get c' ''frontier'' = Some (Array ws) \<Longrightarrow>
      Str t \<in> set vs \<longleftrightarrow> Str t \<in> set ws"
proof -
  have a: "accepted_cp X c" "accepted_cp X c'" "\<not> collision X (unwrap (checkpoint_preimage X c)) (unwrap (checkpoint_preimage X c'))"
    using C unfolding no_collision_def by blast+
  note b = checkpoint_binding [OF X a(1,2) h a(3)]
  show "get c ''checkpoint_seq'' = Some (CInt s) \<Longrightarrow> get c' ''checkpoint_seq'' = Some (CInt s)" by (rule b(1)) simp_all
  show "get c ''record_count'' = Some (CInt n) \<Longrightarrow> get c' ''record_count'' = Some (CInt n)" by (rule b(1)) simp_all
  show "prev_link c p \<Longrightarrow> prev_link c' p" unfolding prev_link_def by (rule b(2)) simp_all
  show "get c ''frontier'' = Some (Array vs) \<Longrightarrow> get c' ''frontier'' = Some (Array ws) \<Longrightarrow> Str t \<in> set vs \<longleftrightarrow> Str t \<in> set ws"
    by (rule b(3)) simp_all
qed

lemma no_collision_hash: "no_collision X C \<Longrightarrow> c \<in> C \<Longrightarrow> \<exists>h. hash_is c h"
  by (auto simp: no_collision_def accepted_cp_def verify_checkpoint_sealed_Ok hash_is_def)

text \<open>A link leads to the checkpoint numbered one less.\<close>

lemma prev_is_predecessor:
  assumes X: "nfc_ok (unicode_nfc X)" and C: "no_collision X C" "set cs \<subseteq> C"
    and fork: "\<And>c c'. c \<in> set cs \<Longrightarrow> c' \<in> set cs \<Longrightarrow> seq_key c = seq_key c' \<Longrightarrow> get c ''checkpoint_hash'' = get c' ''checkpoint_hash''"
    and c: "c \<in> set cs" "prev_link c p" "link_to cs (seq_key c)"
  shows "\<exists>q\<in>set cs. seq_key q = seq_key c - 1 \<and> hash_is q p"
proof -
  obtain q r h where q: "q \<in> set cs" "seq_key q = seq_key c - 1" "hash_is q h"
    and r: "r \<in> set cs" "seq_key r = seq_key c" "prev_link r h"
    using c(3) unfolding link_to_def hash_is_def prev_link_def by blast
  have "prev_link c h" using same_prev [OF X C(1) _ _ fork [OF r(1) c(1) r(2)] r(3)] C(2) r(1) c(1) by blast
  then have "h = p" using prev_link_unique c(2) by blast
  then show ?thesis using q by blast
qed

lemma base_is_last:
  assumes X: "nfc_ok (unicode_nfc X)" and A: "validate_chain csA dA = Ok osA" "osA \<noteq> []"
    and V: "validate_segment_chain csB dB (Some base) = Ok ()" and base: "hash_is (last osA) (base_hash base)"
    and C: "no_collision X (set csA \<union> set csB)"
  shows "base_seq base = seq_key (last osA)" and "c \<in> set csA \<Longrightarrow> seq_key c \<le> base_seq base"
    and "c \<in> set csB \<Longrightarrow> seq_key c = base_seq base \<Longrightarrow> get c ''checkpoint_hash'' = get (last osA) ''checkpoint_hash''"
proof -
  obtain b where b: "b \<in> set csB" "seq_key b = base_seq base" "hash_is b (base_hash base)"
    using segment_base_carried [OF V] by blast
  have l: "last osA \<in> set csA" using chain_perm(2) [OF A(1)] last_in_set [OF A(2)] by simp
  have h: "get b ''checkpoint_hash'' = get (last osA) ''checkpoint_hash''" using b(3) base by (simp add: hash_is_def)
  have "get (last osA) ''checkpoint_seq'' = Some (CInt (base_seq base))"
    using same_seq [OF X C _ _ h, of "seq_key b"] segment_from [OF V b(1)] b(1,2) l by simp
  then show s: "base_seq base = seq_key (last osA)" by (simp add: seq_key_CInt)
  have "sorted (map seq_key osA)" using A(1) by (auto simp: validate_chain_Ok)
  then show "c \<in> set csA \<Longrightarrow> seq_key c \<le> base_seq base" for c
    unfolding s using sorted_last [of seq_key osA c] chain_perm(2) [OF A(1)] by simp
  show "c \<in> set csB \<Longrightarrow> seq_key c = base_seq base \<Longrightarrow> get c ''checkpoint_hash'' = get (last osA) ''checkpoint_hash''" for c
    using segment_no_fork [OF V _ b(1), of c] b(2) h by simp
qed

lemma append_windows:
  assumes X: "nfc_ok (unicode_nfc X)" and A: "validate_chain csA dA = Ok osA" "osA \<noteq> []"
    and V: "validate_segment_chain csB dB (Some base) = Ok ()" and base: "hash_is (last osA) (base_hash base)"
    and C: "no_collision X (set csA \<union> set csB)"
  shows "sort_key seq_key (csA @ csB) = osA @ sort_key seq_key csB"
    and "check_windows (osA @ sort_key seq_key csB) = Ok ()"
proof -
  let ?os = "sort_key seq_key csB"
  note B = base_is_last [OF assms] and ok = V [unfolded validate_segment_chain_Ok Let_def]
  have "\<forall>x\<in>set csA. \<forall>y\<in>set csB. seq_key x \<le> seq_key y" using B(2) segment_from [OF V] by (meson order_trans)
  then show "sort_key seq_key (csA @ csB) = osA @ ?os"
    using sort_key_append_ordered A(1) unfolding validate_chain_Ok by metis
  have ne: "?os \<noteq> []" using ok sort_key_Nil by metis
  have l: "last osA \<in> set csA" using chain_perm(2) [OF A(1)] last_in_set [OF A(2)] by simp
  have "seq_key (hd ?os) = base_seq base" "hd ?os \<in> set csB" "hash_is (hd ?os) (base_hash base)"
    using ok hd_in_set [OF ne] by (simp_all add: segment_first_Ok seq_key_CInt hash_is_def)
  then have "check_window (last osA) (hd ?os) = Ok ()"
    using B(1) chain_nonneg [OF A(1) l] segment_from [OF V, of "hd ?os"] base
    unfolding check_window_Ok hash_is_def by auto
  moreover have "check_windows osA = Ok ()" "check_windows ?os = Ok ()" using A(1) ok unfolding validate_chain_Ok by blast+
  ultimately show "check_windows (osA @ ?os) = Ok ()"
    unfolding check_windows_Ok successively_append_iff by blast
qed

text \<open>A link in the history leads below the base, a later link of the month to the base or above.\<close>

lemma history_prev:
  assumes X: "nfc_ok (unicode_nfc X)" and A: "validate_chain csA dA = Ok osA" and C: "no_collision X C" "set csA \<subseteq> C"
    and c: "c \<in> set csA" "prev_link c p"
  shows "\<exists>q\<in>set csA. seq_key q = seq_key c - 1 \<and> hash_is q p"
proof -
  have osA: "osA \<noteq> []" "hd osA \<in> set csA" using chain_perm(2) [OF A] c(1) by (cases osA; auto)+
  then have first: "check_first (hd osA) = Ok ()" using A unfolding validate_chain_Ok by blast
  have "seq_key c \<noteq> 0"
  proof
    assume "seq_key c = 0"
    then have h: "get c ''checkpoint_hash'' = get (hd osA) ''checkpoint_hash''"
      using chain_no_fork [OF A c(1) osA(2)] first by (simp add: check_first_Ok seq_key_CInt)
    have "prev_link (hd osA) p" using same_prev [OF X C(1) _ _ h c(2)] C(2) c(1) osA(2) by blast
    then show False using first by (simp add: check_first_Ok prev_link_def)
  qed
  then have "link_to csA (seq_key c)" using chain_linked [OF A c(1)] chain_nonneg [OF A c(1)] by simp
  then show ?thesis using prev_is_predecessor [OF X C chain_no_fork [OF A] c] by blast
qed

lemma prevs_within:
  "check_prevs cs [] = Ok () \<Longrightarrow> c \<in> set cs \<Longrightarrow> c' \<in> set cs \<Longrightarrow> prev_link c p \<Longrightarrow> prev_link c' p \<Longrightarrow> hash_is c h \<Longrightarrow> hash_is c' h"
  using check_prevs_functional [OF _ bt_wf_Nil] hash_is_unique by blast

lemma prevs_across:
  assumes X: "nfc_ok (unicode_nfc X)" and A: "validate_chain csA dA = Ok osA" "osA \<noteq> []"
    and V: "validate_segment_chain csB dB (Some base) = Ok ()" and base: "hash_is (last osA) (base_hash base)"
    and C: "no_collision X (set csA \<union> set csB)"
    and c: "c \<in> set csA" "prev_link c p" and c': "c' \<in> set csB" "prev_link c' p"
  shows "get c ''checkpoint_hash'' = get c' ''checkpoint_hash''"
proof (cases "seq_key c' = base_seq base")
  note B = base_is_last [OF X A V base C] and setA = chain_perm(2) [OF A(1)]
  have l: "last osA \<in> set csA" using setA last_in_set [OF A(2)] by simp
  case True
  then have h: "get c' ''checkpoint_hash'' = get (last osA) ''checkpoint_hash''" using B(3) c'(1) by blast
  then have "prev_link (last osA) p" using same_prev [OF X C _ _ h c'(2)] c'(1) l by blast
  moreover obtain k where "hash_is c k" using no_collision_hash [OF C, of c] c(1) by blast
  moreover have "check_prevs osA [] = Ok ()" using A(1) unfolding validate_chain_Ok by blast
  ultimately have "hash_is (last osA) k" using prevs_within [of osA c "last osA" p k] c l setA by simp
  then show ?thesis using h \<open>hash_is c k\<close> by (simp add: hash_is_def)
next
  case False
  then have up: "base_seq base < seq_key c'" using segment_from [OF V c'(1)] by simp
  obtain q where q: "q \<in> set csA" "seq_key q = seq_key c - 1" "hash_is q p" using history_prev [OF X A(1) C _ c] by blast
  obtain r where r: "r \<in> set csB" "seq_key r = seq_key c' - 1" "hash_is r p"
    using prev_is_predecessor [OF X C _ segment_no_fork [OF V] c' segment_linked [OF V c'(1) up]] by blast
  have "get q ''checkpoint_hash'' = get r ''checkpoint_hash''" using q(3) r(3) by (simp add: hash_is_def)
  from same_seq [OF X C _ _ this, of "seq_key q"] have "get r ''checkpoint_seq'' = Some (CInt (seq_key q))"
    using chain_nonneg [OF A(1) q(1)] q(1) r(1) by blast
  then have "seq_key q = seq_key r" using seq_key_CInt by metis
  then show ?thesis using q(2) r(2) base_is_last(2) [OF X A V base C c(1)] up by simp
qed

lemma append_prevs:
  assumes X: "nfc_ok (unicode_nfc X)" and A: "validate_chain csA dA = Ok osA" "osA \<noteq> []"
    and V: "validate_segment_chain csB dB (Some base) = Ok ()" and base: "hash_is (last osA) (base_hash base)"
    and C: "no_collision X (set csA \<union> set csB)"
  shows "check_prevs (osA @ sort_key seq_key csB) [] = Ok ()"
proof (rule check_prevs_intro)
  let ?os = "sort_key seq_key csB"
  note across = prevs_across [OF assms] and setA = chain_perm(2) [OF A(1)]
  have pA: "check_prevs osA [] = Ok ()" and pB: "check_prevs ?os [] = Ok ()"
    using A V [unfolded validate_segment_chain_Ok Let_def] unfolding validate_chain_Ok by blast+
  show "\<exists>h. hash_is c h \<and> map_of [] p \<in> {None, Some h}" if "c \<in> set (osA @ ?os)" for c p
    using no_collision_hash [OF C, of c] that setA by auto
  show "hash_is c' h" if m: "c \<in> set (osA @ ?os)" "c' \<in> set (osA @ ?os)" and p: "prev_link c p" "prev_link c' p" and h: "hash_is c h"
    for c c' p h
  proof -
    consider "c \<in> set osA" "c' \<in> set osA" | "c \<in> set ?os" "c' \<in> set ?os" | "c \<in> set csA" "c' \<in> set csB" | "c \<in> set csB" "c' \<in> set csA"
      using m setA by auto
    then show ?thesis
    proof cases
      case 1 then show ?thesis using prevs_within [OF pA _ _ p h] by blast
    next
      case 2 then show ?thesis using prevs_within [OF pB _ _ p h] by blast
    next
      case 3 then show ?thesis using across [OF _ p(1) _ p(2)] h unfolding hash_is_def by metis
    next
      case 4 then show ?thesis using across [OF _ p(2) _ p(1)] h unfolding hash_is_def by metis
    qed
  qed
qed simp

section \<open>The composition\<close>

text \<open>What a segment block that raises no issue says about the base.\<close>

lemma segment_base_of_Inr:
  assumes "segment_base_of seg cs month = Inr (Some b, [])"
  shows "\<exists>cp\<in>set cs. hash_is cp (info_hash b) \<and> get cp ''record_count'' = Some (CInt (info_record_count b))
    \<and> set (info_frontier b) = set (frontier_strs cp)"
proof -
  obtain cp where cp: "find (\<lambda>cp. seq_of cp = Some (info_seq b) \<and> str_of cp ''checkpoint_hash'' = Some (info_hash b)) cs = Some cp"
    "Option.bind (get cp ''record_count'') as_int = Some (info_record_count b)"
    "info_frontier b = remdups_adj (sort (frontier_strs cp))"
    using assms by (auto simp: segment_base_of_def Let_def split: option.splits if_splits)
  have "cp \<in> set cs" "str_of cp ''checkpoint_hash'' = Some (info_hash b)" using cp(1) by (auto simp: find_Some_iff)
  moreover have "get cp ''record_count'' = Some (CInt (info_record_count b))"
    using cp(2) by (cases "get cp ''record_count''") (auto simp: as_int_def split: canon_value.splits)
  ultimately show ?thesis using cp(3) by (auto simp: hash_is_def str_of_def)
qed

lemma evaluate_segment_base:
  assumes "evaluate_segment bundle cs (Some pin) = (ev, [])" "eval_base ev = Some b"
  shows "info_hash b = pin" and "\<exists>seg month. segment_base_of seg cs month = Inr (Some b, [])"
  using assms by (auto simp: evaluate_segment_def Let_def split: option.splits if_splits sum.splits prod.splits) blast

lemma build_from_external:
  "build_from records (Some b) = Some (Ok d) \<Longrightarrow> external_frontier d = b"
  by (auto simp: build_from_def Let_def split: result.splits prod.splits option.splits if_splits)

abbreviation base_of_info :: "segment_base_info \<Rightarrow> segment_base" where
  "base_of_info b \<equiv> \<lparr> base_seq = info_seq b, base_hash = info_hash b, base_record_count = info_record_count b \<rparr>"

lemma frontiers_append:
  assumes X: "nfc_ok (unicode_nfc X)" and A: "validate_chain csA dA = Ok osA" "osA \<noteq> []"
    and V: "validate_segment_chain csB dB (Some base) = Ok ()" and base: "hash_is (last osA) (base_hash base)"
    and C: "no_collision X (set csA \<union> set csB)"
    and known: "\<And>h. map_of (by_hash dA) h \<noteq> None \<or> map_of (by_hash dB) h \<noteq> None \<or> h \<in> set (external_frontier dB) \<Longrightarrow> map_of (by_hash d) h \<noteq> None"
  shows "check_frontiers d (osA @ sort_key seq_key csB) = Ok ()"
proof -
  have setA: "set osA = set csA" and fA: "check_frontiers dA osA = Ok ()"
    using chain_perm(2) [OF A(1)] A(1) unfolding validate_chain_Ok by blast+
  have l: "last osA \<in> set csA" using setA last_in_set [OF A(2)] by simp
  obtain fl s where fl: "get (last osA) ''frontier'' = Some (Array fl)" "check_members dA s fl = Ok ()"
    using fA l unfolding check_frontiers_Ok setA by blast
  have mono: "check_members d s' fr = Ok ()" if m: "check_members dA s fr = Ok ()" for s s' fr
  proof (unfold check_members_Ok, rule ballI)
    fix v assume "v \<in> set fr"
    then obtain h where "v = Str h" "parse_sha256 h \<noteq> None" "map_of (by_hash dA) h \<noteq> None"
      using m unfolding check_members_Ok by blast
    then show "\<exists>h. v = Str h \<and> parse_sha256 h \<noteq> None \<and> map_of (by_hash d) h \<noteq> None" using known by blast
  qed
  have "\<exists>s fr. get c ''checkpoint_seq'' = Some (CInt s) \<and> get c ''frontier'' = Some (Array fr) \<and> check_members d s fr = Ok ()"
    if c: "c \<in> set csA" for c
  proof -
    obtain s fr where "get c ''checkpoint_seq'' = Some (CInt s)" "get c ''frontier'' = Some (Array fr)" "check_members dA s fr = Ok ()"
      using fA c unfolding check_frontiers_Ok setA by blast
    then show ?thesis using mono by blast
  qed
  moreover have "\<exists>s fr. get c ''checkpoint_seq'' = Some (CInt s) \<and> get c ''frontier'' = Some (Array fr) \<and> check_members d s fr = Ok ()"
    if c: "c \<in> set csB" for c
  proof -
    obtain fr where fr: "get c ''frontier'' = Some (Array fr)" "segment_members dB base (seq_key c) fr = Ok ()"
      using segment_frontier [OF V c] by blast
    have sub: "Str h \<in> set fl" if "seq_key c = base_seq base" "Str h \<in> set fr" for h
      using same_frontier [OF X C _ _ base_is_last(3) [OF X A V base C c that(1)] fr(1) fl(1)] c l that(2) by blast
    have "\<exists>h. v = Str h \<and> parse_sha256 h \<noteq> None \<and> map_of (by_hash d) h \<noteq> None" if v: "v \<in> set fr" for v
    proof -
      obtain h where h: "v = Str h" "parse_sha256 h \<noteq> None"
        "seq_key c = base_seq base \<or> map_of (by_hash dB) h \<noteq> None \<or> h \<in> set (external_frontier dB)"
        using fr(2) v unfolding segment_members_Ok by blast
      have "map_of (by_hash dA) h \<noteq> None" if "seq_key c = base_seq base"
        using sub [OF that, of h] v h(1) fl(2) unfolding check_members_Ok by auto
      then show ?thesis using h known [of h] by blast
    qed
    then have "check_members d (seq_key c) fr = Ok ()" unfolding check_members_Ok by blast
    then show ?thesis using fr(1) segment_from [OF V c] by blast
  qed
  ultimately show ?thesis unfolding check_frontiers_Ok set_append set_sort setA by blast
qed

text \<open>C10: Month by month is as good as all at once. Let an accepted history end in a checkpoint, and let the next
  month's segment be pinned to that checkpoint, evaluate without an issue and pass the segment rules on
  the graph built from its base frontier. If the month carries no record of the history, and the records
  before the base that its own records name as parents are records of the history, then the records of
  both parts build one graph and the whole-history rules accept the concatenation on it, in the order of
  the parts, or some pair of the checkpoints is a collision of the hash.\<close>

theorem segments_compose:
  assumes X: "nfc_ok (unicode_nfc X)" and acc: "\<forall>c\<in>set csA \<union> set csB. accepted_cp X c"
    and A: "build_from rsA None = Some (Ok dA)" "validate_chain csA dA = Ok osA" "osA \<noteq> []"
    and E: "evaluate_segment bundle csB (Some pin) = (ev, [])" "eval_base ev = Some b"
      "get (last osA) ''checkpoint_hash'' = Some (Str pin)"
    and B: "build_from rsB (Some (info_frontier b)) = Some (Ok dB)" "validate_segment_chain csB dB (Some (base_of_info b)) = Ok ()"
    and disj: "\<forall>r\<in>set rsA. \<forall>r'\<in>set rsB. get r ''content_hash'' \<noteq> get r' ''content_hash''"
    and earlier: "\<forall>h\<in>set (earlier_refs dB). \<exists>r\<in>set rsA. get r ''content_hash'' = Some (Str h)"
  shows "(\<exists>d. build_from (rsA @ rsB) None = Some (Ok d) \<and> validate_chain (csA @ csB) d = Ok (osA @ sort_key seq_key csB))
    \<or> (\<exists>c\<in>set csA \<union> set csB. \<exists>c'\<in>set csA \<union> set csB.
         collision X (unwrap (checkpoint_preimage X c)) (unwrap (checkpoint_preimage X c')))"
proof (rule disjCI)
  assume "\<not> (\<exists>c\<in>set csA \<union> set csB. \<exists>c'\<in>set csA \<union> set csB.
    collision X (unwrap (checkpoint_preimage X c)) (unwrap (checkpoint_preimage X c')))"
  then have C: "no_collision X (set csA \<union> set csB)" using acc unfolding no_collision_def by blast
  have base: "hash_is (last osA) (base_hash (base_of_info b))" using E(3) evaluate_segment_base(1) [OF E(1,2)] by (simp add: hash_is_def)
  note V = A(2,3) B(2) base C
  note iA = build_from_Ok_index [OF A(1)] and iB = build_from_Ok_index [OF B(1)]
  have dj: "map_of (by_hash dA) h = None \<or> map_of (by_hash dB) h = None" for h
    using lookup_hash [OF iA, of h] lookup_hash [OF iB, of h] disj by metis
  have l: "last osA \<in> set csA" using chain_perm(2) [OF A(2)] last_in_set [OF A(3)] by simp
  obtain fl where fl: "get (last osA) ''frontier'' = Some (Array fl)" "{h. Str h \<in> set fl} = set (heads dA)"
    and cnt: "get (last osA) ''record_count'' = Some (CInt (int (length (by_hash dA))))"
    using A(2,3) unfolding validate_chain_Ok check_latest_Ok set_strs by blast
  obtain cp where cp: "cp \<in> set csB" "hash_is cp (info_hash b)" "get cp ''record_count'' = Some (CInt (info_record_count b))"
    "set (info_frontier b) = set (frontier_strs cp)"
    using evaluate_segment_base(2) [OF E(1,2)] segment_base_of_Inr by blast
  have h: "get cp ''checkpoint_hash'' = get (last osA) ''checkpoint_hash''" using cp(2) base by (simp add: hash_is_def)
  obtain fc where fc: "get cp ''frontier'' = Some (Array fc)" using segment_frontier [OF B(2) cp(1)] by blast
  have n: "info_record_count b = int (length (by_hash dA))"
    using same_count [OF X C _ _ h cp(3)] cp(1) l cnt by auto
  have fr: "set (info_frontier b) = set (heads dA)"
    using same_frontier [OF X C _ _ h fc fl(1)] cp(1) l fl(2) unfolding cp(4) frontier_strs_Array [OF fc] by auto
  have "set (heads dA) \<subseteq> nodes (by_hash dA)" using heads_set [OF A(1)] build_from_Ok_nodes [OF A(1)] by auto
  moreover have "set (earlier_refs dB) \<subseteq> nodes (by_hash dA)" using earlier lookup_hash [OF iA] unfolding nodes_def by blast
  ultimately obtain d where W: "build_from (rsA @ rsB) None = Some (Ok d)" using build_append [OF A(1) B(1) dj] fr by blast
  note G = graph_append [OF iA iB build_from_Ok_index [OF W] dj]
  have "set (heads dA) \<subseteq> nodes (by_hash dA)" using heads_set [OF A(1)] build_from_Ok_nodes [OF A(1)] by auto
  then have known: "map_of (by_hash d) h \<noteq> None"
    if "map_of (by_hash dA) h \<noteq> None \<or> map_of (by_hash dB) h \<noteq> None \<or> h \<in> set (external_frontier dB)" for h
    using that unfolding G(1) build_from_external [OF B(1)] fr nodes_def by blast
  have ne: "sort_key seq_key csB \<noteq> []" and last: "segment_latest dB (base_of_info b) (last (sort_key seq_key csB)) = Ok ()"
    using B(2) unfolding validate_segment_chain_Ok Let_def sort_key_Nil by blast+
  have "check_latest d (last (sort_key seq_key csB)) = Ok ()"
    using last heads_append [OF A(1) B(1) W dj fr] G(2)
    unfolding segment_latest_Ok check_latest_Ok set_strs by (auto simp: checked_count_def n add.commute split: if_splits)
  moreover have "check_first (hd osA) = Ok ()" using A(2,3) unfolding validate_chain_Ok by blast
  ultimately have "validate_chain (csA @ csB) d = Ok (osA @ sort_key seq_key csB)"
    unfolding validate_chain_Ok append_windows(1) [OF X V]
    using A(3) ne append_windows(2) [OF X V] append_prevs [OF X V] frontiers_append [OF X V known] by simp
  then show "\<exists>d. build_from (rsA @ rsB) None = Some (Ok d) \<and> validate_chain (csA @ csB) d = Ok (osA @ sort_key seq_key csB)"
    using W by blast
qed

section \<open>A second month of the demonstration history\<close>

definition october_records :: "canon_value list" where
  "october_records = [node CHR ''3'' [CHR ''1'', CHR ''2'']]"

definition october_dag :: dag where
  "october_dag = \<lparr> by_hash = [(hash_of CHR ''3'', 0)], heads = [hash_of CHR ''3''], topo_order = [hash_of CHR ''3''],
     collapsed_duplicates = 0, external_frontier = [hash_of CHR ''1''], earlier_refs = [hash_of CHR ''2''] \<rparr>"

definition whole_dag :: dag where
  "whole_dag = \<lparr> by_hash = [(hash_of CHR ''1'', 2), (hash_of CHR ''2'', 1), (hash_of CHR ''3'', 3)], heads = [hash_of CHR ''3''],
     topo_order = [hash_of CHR ''2'', hash_of CHR ''1'', hash_of CHR ''3''], collapsed_duplicates = 1,
     external_frontier = [], earlier_refs = [] \<rparr>"

definition october_head :: "string \<Rightarrow> canon_value" where
  "october_head h = demo_seal (demo_members 1 (Str h) (hash_of CHR ''3'') 3 ''2026-10-31T23:59:59.000Z'')"

definition october_bundle :: "string \<Rightarrow> canon_value" where
  "october_bundle h = Object [(''segment'', Object [(''format'', Str SEGMENT_FORMAT), (''month'', Str ''2026-10''),
     (''base_seq'', CInt 0), (''base_checkpoint_hash'', Str h), (''base_record_count'', CInt 2)])]"

definition october_base :: "string \<Rightarrow> segment_base_info" where
  "october_base h = \<lparr> info_seq = 0, info_hash = h, info_record_count = 2, info_frontier = [hash_of CHR ''1''] \<rparr>"

lemma october_graphs:
  "build_from october_records (Some [hash_of CHR ''1'']) = Some (Ok october_dag)"
  "build_from (family @ october_records) None = Some (Ok whole_dag)"
  "is_ascii (hash_of CHR ''3'')" "is_ascii ''2026-10-31T23:59:59.000Z''"
  "list_all (\<lambda>r. list_all (\<lambda>r'. get r ''content_hash'' \<noteq> get r' ''content_hash'') october_records) family"
  "list_all (\<lambda>h. list_ex (\<lambda>r. get r ''content_hash'' = Some (Str h)) family) (earlier_refs october_dag)"
  by code_simp+

lemma october_segment:
  "validate_segment_chain
     [Object (demo_members 0 Null (hash_of CHR ''1'') 2 ''2026-09-30T23:59:59.000Z'' @ [(''checkpoint_hash'', Str h), (''sig'', Str s)]),
      Object (demo_members 1 (Str h) (hash_of CHR ''3'') 3 ''2026-10-31T23:59:59.000Z'' @ [(''checkpoint_hash'', Str h'), (''sig'', Str s')])]
     october_dag (Some (base_of_info (october_base h))) = Ok ()"
  by code_simp

lemma october_evaluates:
  "evaluate_segment (october_bundle h)
     [Object (demo_members 0 Null (hash_of CHR ''1'') 2 ''2026-09-30T23:59:59.000Z'' @ [(''checkpoint_hash'', Str h), (''sig'', Str s)]),
      Object (demo_members 1 (Str h) (hash_of CHR ''3'') 3 ''2026-10-31T23:59:59.000Z'' @ [(''checkpoint_hash'', Str h'), (''sig'', Str s')])]
     (Some h) = (\<lparr> eval_present = True, eval_month = ''2026-10'', eval_base = Some (october_base h) \<rparr>, [])"
  by code_simp

theorem segments_compose_witness:
  "\<exists>h. get demo_head ''checkpoint_hash'' = Some (Str h)
     \<and> validate_segment_chain [demo_head, october_head h] october_dag (Some (base_of_info (october_base h))) = Ok ()
     \<and> (validate_chain ([demo_head] @ [demo_head, october_head h]) whole_dag = Ok ([demo_head] @ sort_key seq_key [demo_head, october_head h])
        \<or> (\<exists>c\<in>set [demo_head] \<union> set [demo_head, october_head h]. \<exists>c'\<in>set [demo_head] \<union> set [demo_head, october_head h].
             collision demo (unwrap (checkpoint_preimage demo c)) (unwrap (checkpoint_preimage demo c'))))"
proof -
  obtain h s where d: "demo_head = Object (demo_members 0 Null (hash_of CHR ''1'') 2 ''2026-09-30T23:59:59.000Z'' @ [(''checkpoint_hash'', Str h), (''sig'', Str s)])"
    and h: "is_ascii h" by (rule demo_head_sealed)
  have prev: "demo_prev (Str h)" using h by (simp add: demo_prev_def)
  obtain h' s' where d': "october_head h = Object (demo_members 1 (Str h) (hash_of CHR ''3'') 3 ''2026-10-31T23:59:59.000Z''
      @ [(''checkpoint_hash'', Str h'), (''sig'', Str s')])"
    unfolding october_head_def by (rule demo_sealed_cp [OF prev])
  have acc: "accepted_cp demo (october_head h)"
    unfolding october_head_def by (rule demo_accepted [OF prev]) (simp_all add: in_i64_def october_graphs(3,4))
  have ev: "evaluate_segment (october_bundle h) [demo_head, october_head h] (Some h)
      = (\<lparr> eval_present = True, eval_month = ''2026-10'', eval_base = Some (october_base h) \<rparr>, [])"
    unfolding d d' by (rule october_evaluates)
  have v: "validate_segment_chain [demo_head, october_head h] october_dag (Some (base_of_info (october_base h))) = Ok ()"
    unfolding d d' by (rule october_segment)
  have hd: "get demo_head ''checkpoint_hash'' = Some (Str h)" unfolding d by (simp add: get_Object demo_members_def)
  have "(\<exists>d. build_from (family @ october_records) None = Some (Ok d)
          \<and> validate_chain ([demo_head] @ [demo_head, october_head h]) d = Ok ([demo_head] @ sort_key seq_key [demo_head, october_head h]))
        \<or> (\<exists>c\<in>set [demo_head] \<union> set [demo_head, october_head h]. \<exists>c'\<in>set [demo_head] \<union> set [demo_head, october_head h].
             collision demo (unwrap (checkpoint_preimage demo c)) (unwrap (checkpoint_preimage demo c')))"
  proof (rule segments_compose [OF demo_ok(3) _ family_accepted demo_head_accepted(2) _ ev])
    show "build_from october_records (Some (info_frontier (october_base h))) = Some (Ok october_dag)"
      by (simp add: october_base_def october_graphs(1))
    show "\<forall>r\<in>set family. \<forall>r'\<in>set october_records. get r ''content_hash'' \<noteq> get r' ''content_hash''"
      using october_graphs(5) unfolding list_all_iff .
    show "\<forall>h\<in>set (earlier_refs october_dag). \<exists>r\<in>set family. get r ''content_hash'' = Some (Str h)"
      using october_graphs(6) unfolding list_all_iff list_ex_iff .
  qed (simp_all add: acc demo_head_accepted(1) hd v)
  then show ?thesis using hd v october_graphs(2) by simp
qed

end
