(* ===== verification/Chain_State.thy ===== *)
theory Chain_State
  imports Segment Verdict
begin

text \<open>
  The walk over the months of a project (\<open>ChainState\<close> of \<open>core/src/segment.rs\<close>): \<open>absorb\<close> takes the next
  month's bundle and its verification report, \<open>whole_bundle\<close> rebuilds the history and \<open>finish_with\<close>
  gives the verdict of the chain.

  The state is explicit; issues are values of a datatype, tagged with the month's label. The results:
  a walk without an issue has strictly increasing months that share no record and resolve every
  parent, the rebuilt bundle carries exactly the absorbed records and checkpoints, and a verdict other
  than FAIL or INSUFFICIENT is one that the whole-history verifier gave on a chain without an issue.
\<close>

definition is_history_member :: "string \<Rightarrow> bool" where
  "is_history_member k \<longleftrightarrow> k \<in> {''records'', ''checkpoints'', ''segment'', ''revocation_list'', ''deployment_attestation'',
     ''filtered_records'', ''disclosures''}"

definition serialized_len :: "(string \<Rightarrow> string) \<Rightarrow> canon_value \<Rightarrow> nat" where
  "serialized_len uni v = length (serialize uni v) + 1"

definition segment_parents_of :: "canon_value \<Rightarrow> string list" where
  "segment_parents_of rec = List.map_filter as_str (array_of rec ''causal_prev_hashes'')"

definition MAX_BUNDLE_BYTES :: nat where
  "MAX_BUNDLE_BYTES = 256 * 2 ^ 20"

text \<open>\<open>saturating_add\<close> on a 64-bit \<open>usize\<close>.\<close>

definition saturating_add :: "nat \<Rightarrow> nat \<Rightarrow> nat" where
  "saturating_add a b = min (a + b) (2 ^ 64 - 1)"

lemma saturating_add_code [code]: "saturating_add a b = nat (min (int a + int b) 18446744073709551615)"
  by (auto simp: saturating_add_def min_def nat_add_distrib)

datatype chain_issue =
    DoesNotVerify
  | NotMonthSegment
  | BaseUnpinned
  | MonthNotAfter string
  | ProjectDiffers string string
  | BaseCountDiffers int int
  | DanglingParents nat string
  | MalformedUnresolved
  | NoEarlierHolder string string string
  | NotEarlierIntent string string
  | IntentNotBound string string
  | AlreadyAbsorbed nat string

record chain_state =
  project_id :: "string option"
  head_hash :: "string option"
  head_record_count :: int
  last_month :: "string option"
  seen :: "string list"
  seen_ids :: "string list"
  intents :: "(string \<times> (string \<times> string)) list"
  all_records :: "canon_value list"
  all_checkpoints :: "canon_value list"
  seen_checkpoints :: "string list"
  latest_members :: "(string \<times> canon_value) list"
  latest_bound :: "(string \<times> canon_value) list"
  all_disclosures :: "canon_value list"
  has_disclosures :: bool
  history_bytes :: nat
  latest_extra_bytes :: nat
  cap_override :: "nat option"
  over_cap :: bool
  months :: nat
  records_total :: nat
  issues :: "(string \<times> chain_issue) list"

definition chain_new :: chain_state where
  "chain_new = \<lparr> project_id = None, head_hash = None, head_record_count = 0, last_month = None, seen = [], seen_ids = [],
     intents = [], all_records = [], all_checkpoints = [], seen_checkpoints = [], latest_members = [], latest_bound = [],
     all_disclosures = [], has_disclosures = False, history_bytes = 0, latest_extra_bytes = 0, cap_override = None,
     over_cap = False, months = 0, records_total = 0, issues = [] \<rparr>"

definition with_cap :: "nat \<Rightarrow> chain_state" where
  "with_cap cap = chain_new \<lparr> cap_override := Some cap \<rparr>"

definition next_pin :: "chain_state \<Rightarrow> string" where
  "next_pin st = (case head_hash st of Some h \<Rightarrow> h | None \<Rightarrow> ''genesis'')"

section \<open>Absorbing a month\<close>

text \<open>A \<open>BTreeSet\<close> collected from an iterator.\<close>

definition collect_set :: "string list \<Rightarrow> string list" where
  "collect_set xs = remdups_adj (sort xs)"

definition record_hashes :: "canon_value list \<Rightarrow> string list" where
  "record_hashes records = collect_set (List.map_filter (\<lambda>r. str_of r ''content_hash'') records)"

definition record_ids :: "canon_value list \<Rightarrow> string list" where
  "record_ids records = List.map_filter (\<lambda>r. str_of r ''record_id'') records"

definition segment_month :: "canon_value \<Rightarrow> string" where
  "segment_month seg = (case str_of seg ''month'' of Some m \<Rightarrow> m | None \<Rightarrow> [])"

text \<open>The label of a month, and the checks on its link to the month before.\<close>

definition bundle_label :: "canon_value \<Rightarrow> string" where
  "bundle_label bundle = (case Option.bind (get bundle ''segment'') (\<lambda>s. str_of s ''month'') of Some m \<Rightarrow> m | None \<Rightarrow> ''?'')"

definition stated_base_count :: "canon_value \<Rightarrow> int" where
  "stated_base_count bundle =
     (case Option.bind (get bundle ''segment'') (\<lambda>s. Option.bind (get s ''base_record_count'') as_int) of Some n \<Rightarrow> n | None \<Rightarrow> -1)"

definition report_issues :: "canon_value \<Rightarrow> chain_issue list" where
  "report_issues report = (if get report ''ok'' \<noteq> Some (Bool True) then [DoesNotVerify] else [])"

definition link_issues :: "chain_state \<Rightarrow> canon_value \<Rightarrow> canon_value \<Rightarrow> chain_issue list" where
  "link_issues st bundle seg =
     (if str_of seg ''link'' = Some ''base_unpinned'' then [BaseUnpinned] else [])
     @ (case last_month st of
          Some prev \<Rightarrow> if segment_month seg \<le> prev then [MonthNotAfter prev] else []
        | None \<Rightarrow> [])
     @ (case (project_id st, str_of bundle ''project_id'') of
          (Some a, Some b) \<Rightarrow> if a \<noteq> b then [ProjectDiffers b a] else []
        | _ \<Rightarrow> [])
     @ (if head_hash st \<noteq> None \<and> stated_base_count bundle \<noteq> head_record_count st
        then [BaseCountDiffers (stated_base_count bundle) (head_record_count st)] else [])"

definition base_frontier_of :: "canon_value \<Rightarrow> string list" where
  "base_frontier_of bundle =
     (case Option.bind (Option.bind (get bundle ''segment'') (\<lambda>s. str_of s ''base_checkpoint_hash''))
             (\<lambda>bh. find (\<lambda>c. str_of c ''checkpoint_hash'' = Some bh) (array_of bundle ''checkpoints'')) of
        Some c \<Rightarrow> collect_set (List.map_filter as_str (array_of c ''frontier''))
      | None \<Rightarrow> [])"

definition dangling_parents :: "chain_state \<Rightarrow> canon_value \<Rightarrow> string list" where
  "dangling_parents st bundle =
     (let records = array_of bundle ''records''; mine = record_hashes records; base_frontier = base_frontier_of bundle
      in collect_set (filter (\<lambda>p. p \<notin> set mine \<and> p \<notin> set base_frontier \<and> p \<notin> set (seen st))
           (concat (map segment_parents_of records))))"

definition parent_issues :: "chain_state \<Rightarrow> canon_value \<Rightarrow> chain_issue list" where
  "parent_issues st bundle =
     (case dangling_parents st bundle of [] \<Rightarrow> [] | p # ps \<Rightarrow> [DanglingParents (length (p # ps)) p])"

definition unresolved_issue :: "chain_state \<Rightarrow> canon_value list \<Rightarrow> canon_value \<Rightarrow> chain_issue list" where
  "unresolved_issue st records u =
     (case (str_of u ''kind'', str_of u ''record_id'', str_of u ''ref'') of
        (Some kind, Some rid, Some reference) \<Rightarrow>
          if reference \<notin> set (seen_ids st) then [NoEarlierHolder kind rid reference]
          else if kind = ''use_outcome'' then
            (let outcome = find (\<lambda>r. str_of r ''record_id'' = Some rid) records;
                 og = Option.bind outcome (\<lambda>r. ev_str r ''use_outcome'' ''grant_id'');
                 oh = Option.bind outcome (\<lambda>r. ev_str r ''use_outcome'' ''intent_hash'')
             in case map_of (intents st) reference of
                  None \<Rightarrow> [NotEarlierIntent rid reference]
                | Some (g, h) \<Rightarrow> if og \<noteq> Some g \<or> oh \<noteq> Some h then [IntentNotBound rid reference] else [])
          else []
      | _ \<Rightarrow> [MalformedUnresolved])"

definition reuse_issues :: "chain_state \<Rightarrow> canon_value list \<Rightarrow> chain_issue list" where
  "reuse_issues st records =
     (let reused_hash = filter (\<lambda>h. h \<in> set (seen st)) (record_hashes records);
          reused_id = collect_set (filter (\<lambda>i. i \<in> set (seen_ids st)) (record_ids records))
      in case reused_hash @ reused_id of
           [] \<Rightarrow> []
         | x # _ \<Rightarrow> [AlreadyAbsorbed (max (length reused_hash) (length reused_id)) x])"

definition is_use_intent :: "canon_value \<Rightarrow> bool" where
  "is_use_intent r \<longleftrightarrow> ev_str r ''use_evidence'' ''kind'' = Some ''use_intent''
     \<and> Option.bind (Option.bind (Option.bind (get r ''extensions'') (\<lambda>e. get e ''broker'')) (\<lambda>b. get b ''kind'')) as_str = Some ''use_intent''"

definition add_intent :: "canon_value \<Rightarrow> (string \<times> (string \<times> string)) list \<Rightarrow> (string \<times> (string \<times> string)) list" where
  "add_intent r m =
     (case (is_use_intent r, str_of r ''record_id'', ev_str r ''use_evidence'' ''grant_id'', str_of r ''content_hash'') of
        (True, Some i, Some g, Some h) \<Rightarrow> bt_insert i (g, h) m
      | _ \<Rightarrow> m)"

definition carried_members :: "canon_value \<Rightarrow> (string \<times> canon_value) list" where
  "carried_members bundle = (case as_object bundle of Some m \<Rightarrow> filter (\<lambda>(k, _). \<not> is_history_member k) m | None \<Rightarrow> [])"

definition bound_members :: "canon_value \<Rightarrow> (string \<times> canon_value) list" where
  "bound_members bundle =
     List.map_filter (\<lambda>k. map_option (Pair k) (get bundle k)) [''revocation_list'', ''deployment_attestation'']"

fun new_checkpoints :: "canon_value list \<Rightarrow> string list \<Rightarrow> canon_value list \<times> string list" where
  "new_checkpoints [] known = ([], known)"
| "new_checkpoints (c # cs) known =
     (case str_of c ''checkpoint_hash'' of
        Some k \<Rightarrow> if k \<in> set known then new_checkpoints cs known
                  else (case new_checkpoints cs (bs_insert k known) of (new, known') \<Rightarrow> (c # new, known'))
      | None \<Rightarrow> (case new_checkpoints cs known of (new, known') \<Rightarrow> (c # new, known')))"

text \<open>The accumulation of the history under the byte cap.\<close>

definition accumulate_history :: "(string \<Rightarrow> string) \<Rightarrow> canon_value \<Rightarrow> chain_state \<Rightarrow> chain_state" where
  "accumulate_history uni bundle st =
     (if over_cap st then st
      else
        let records = array_of bundle ''records''; disclosures = array_of bundle ''disclosures'';
            (new_cps, known) = new_checkpoints (array_of bundle ''checkpoints'') (seen_checkpoints st);
            added = sum_list (map (serialized_len uni) new_cps) + sum_list (map (serialized_len uni) records)
                    + sum_list (map (serialized_len uni) disclosures);
            bytes = saturating_add (history_bytes st) added;
            cap = (case cap_override st of Some c \<Rightarrow> c | None \<Rightarrow> MAX_BUNDLE_BYTES);
            st = st \<lparr> seen_checkpoints := known, history_bytes := bytes \<rparr>
        in if saturating_add bytes (latest_extra_bytes st) > cap
           then st \<lparr> over_cap := True, all_records := [], all_checkpoints := [], all_disclosures := [] \<rparr>
           else st \<lparr> all_records := all_records st @ records, all_checkpoints := all_checkpoints st @ new_cps,
                     all_disclosures := all_disclosures st @ disclosures \<rparr>)"

text \<open>The first part of \<open>absorb\<close> checks the month and notes what it carries, the last part makes it the head.\<close>

definition note_month :: "(string \<Rightarrow> string) \<Rightarrow> canon_value \<Rightarrow> canon_value \<Rightarrow> canon_value \<Rightarrow> chain_state \<Rightarrow> chain_state" where
  "note_month uni bundle report seg st =
     (let records = array_of bundle ''records'';
          found = report_issues report @ link_issues st bundle seg @ parent_issues st bundle
                  @ concat (map (unresolved_issue st records) (array_of seg ''unresolved_cross_month''))
                  @ reuse_issues st records
      in st \<lparr> issues := issues st @ map (Pair (bundle_label bundle)) found,
              project_id := (case project_id st of None \<Rightarrow> str_of bundle ''project_id'' | p \<Rightarrow> p),
              seen := fold bs_insert (record_hashes records) (seen st),
              intents := fold add_intent records (intents st),
              seen_ids := fold bs_insert (record_ids records) (seen_ids st),
              has_disclosures := has_disclosures st \<or> get bundle ''disclosures'' \<noteq> None,
              latest_extra_bytes := sum_list (map (\<lambda>(k, v). length k + serialized_len uni v)
                                               (carried_members bundle @ bound_members bundle)) \<rparr>)"

definition close_month :: "canon_value \<Rightarrow> canon_value \<Rightarrow> chain_state \<Rightarrow> chain_state" where
  "close_month bundle seg st =
     st \<lparr> latest_members := carried_members bundle, latest_bound := bound_members bundle,
          records_total := records_total st + length (array_of bundle ''records''),
          months := months st + 1, last_month := Some (segment_month seg),
          head_hash := str_of seg ''head_checkpoint_hash'',
          head_record_count := (case Option.bind (get seg ''head_record_count'') as_int of Some n \<Rightarrow> n | None \<Rightarrow> 0) \<rparr>"

definition absorb :: "(string \<Rightarrow> string) \<Rightarrow> canon_value \<Rightarrow> canon_value \<Rightarrow> chain_state \<Rightarrow> chain_state" where
  "absorb uni bundle report st =
     (case get report ''segment'' of
        None \<Rightarrow> st \<lparr> issues := issues st @ map (Pair (bundle_label bundle)) (report_issues report @ [NotMonthSegment]) \<rparr>
      | Some seg \<Rightarrow> close_month bundle seg (accumulate_history uni bundle (note_month uni bundle report seg st)))"

definition is_ok :: "chain_state \<Rightarrow> bool" where
  "is_ok st \<longleftrightarrow> months st > 0 \<and> issues st = []"

section \<open>The whole history\<close>

definition whole_bundle :: "(string \<Rightarrow> string) \<Rightarrow> chain_state \<Rightarrow> canon_value option" where
  "whole_bundle uni st =
     (if months st = 0 \<or> over_cap st then None
      else ok (object uni (latest_members st @ [(''records'', Array (all_records st)), (''checkpoints'', Array (all_checkpoints st))]
             @ (if has_disclosures st then [(''disclosures'', Array (all_disclosures st))] else []) @ latest_bound st)))"

record chain_verdict =
  verdict :: claim_verdict
  whole :: "canon_value option"

definition finish_with :: "(string \<Rightarrow> string) \<Rightarrow> (canon_value \<Rightarrow> canon_value option) \<Rightarrow> chain_state \<Rightarrow> chain_verdict" where
  "finish_with uni verify st =
     (if months st > 0 \<and> over_cap st
      then \<lparr> verdict = (if is_ok st then VerdictInsufficient else Fail), whole = None \<rparr>
      else (case whole_bundle uni st of
          None \<Rightarrow> \<lparr> verdict = Fail, whole = None \<rparr>
        | Some w \<Rightarrow>
            let report = verify w;
                v = (case report of Some r \<Rightarrow> month_claim_verdict r False | None \<Rightarrow> VerdictInsufficient)
            in \<lparr> verdict = (if \<not> is_ok st then Fail else v), whole = report \<rparr>))"

text \<open>The walk of \<open>averin-verify chain\<close>: the months in order, each with its report.\<close>

definition walk :: "(string \<Rightarrow> string) \<Rightarrow> (canon_value \<times> canon_value) list \<Rightarrow> chain_state \<Rightarrow> chain_state" where
  "walk uni ms st = fold (\<lambda>(bundle, report). absorb uni bundle report) ms st"

section \<open>What the walk has seen\<close>

lemma set_collect_set [simp]: "set (collect_set xs) = set xs"
  by (simp add: collect_set_def)

lemma set_fold_bs_insert [simp]: "set (fold bs_insert xs ys) = set xs \<union> set ys"
  by (induction xs arbitrary: ys) (auto simp: set_insort_insert)

abbreviation bundle_records :: "canon_value \<times> 'r \<Rightarrow> canon_value list" where
  "bundle_records m \<equiv> array_of (fst m) ''records''"

definition hashes_of :: "(canon_value \<times> canon_value) list \<Rightarrow> string set" where
  "hashes_of ms = (\<Union>m\<in>set ms. set (record_hashes (bundle_records m)))"

definition ids_of :: "(canon_value \<times> canon_value) list \<Rightarrow> string set" where
  "ids_of ms = (\<Union>m\<in>set ms. set (record_ids (bundle_records m)))"

definition report_month :: "canon_value \<times> canon_value \<Rightarrow> string" where
  "report_month m = (case get (snd m) ''segment'' of Some seg \<Rightarrow> segment_month seg | None \<Rightarrow> [])"

definition report_head :: "canon_value \<times> canon_value \<Rightarrow> string option" where
  "report_head m = Option.bind (get (snd m) ''segment'') (\<lambda>seg. str_of seg ''head_checkpoint_hash'')"

definition report_count :: "canon_value \<times> canon_value \<Rightarrow> int" where
  "report_count m = (case Option.bind (get (snd m) ''segment'') (\<lambda>seg. Option.bind (get seg ''head_record_count'') as_int) of Some n \<Rightarrow> n | None \<Rightarrow> 0)"

text \<open>
  The abstract specification of a chain: a month follows the earlier ones when its report is good, it
  comes later, belongs to the same project, starts from the head before it, names no parent that
  neither it, its base frontier nor an earlier month holds, resolves what it left open, and carries
  no record again.
\<close>

definition resolves :: "(canon_value \<times> canon_value) list \<Rightarrow> canon_value list \<Rightarrow> canon_value \<Rightarrow> bool" where
  "resolves es records u \<longleftrightarrow>
     (\<exists>kind rid reference. str_of u ''kind'' = Some kind \<and> str_of u ''record_id'' = Some rid \<and> str_of u ''ref'' = Some reference
        \<and> reference \<in> ids_of es
        \<and> (kind = ''use_outcome'' \<longrightarrow>
             (\<exists>outcome g h. find (\<lambda>r. str_of r ''record_id'' = Some rid) records = Some outcome
                \<and> map_of (fold add_intent (concat (map bundle_records es)) []) reference = Some (g, h)
                \<and> ev_str outcome ''use_outcome'' ''grant_id'' = Some g \<and> ev_str outcome ''use_outcome'' ''intent_hash'' = Some h)))"

definition month_follows :: "(canon_value \<times> canon_value) list \<Rightarrow> canon_value \<times> canon_value \<Rightarrow> bool" where
  "month_follows es m \<longleftrightarrow>
     get (snd m) ''ok'' = Some (Bool True)
     \<and> (\<exists>seg. get (snd m) ''segment'' = Some seg \<and> str_of seg ''link'' \<noteq> Some ''base_unpinned''
          \<and> (\<forall>u\<in>set (array_of seg ''unresolved_cross_month''). resolves es (bundle_records m) u))
     \<and> (es \<noteq> [] \<longrightarrow> report_month (last es) < report_month m
          \<and> (report_head (last es) \<noteq> None \<longrightarrow> stated_base_count (fst m) = report_count (last es)))
     \<and> (\<forall>e\<in>set es. \<forall>p q. str_of (fst e) ''project_id'' = Some p \<and> str_of (fst m) ''project_id'' = Some q \<longrightarrow> p = q)
     \<and> (\<forall>r\<in>set (bundle_records m). \<forall>p\<in>set (segment_parents_of r).
          p \<in> set (record_hashes (bundle_records m)) \<or> p \<in> set (base_frontier_of (fst m)) \<or> p \<in> hashes_of es)
     \<and> set (record_hashes (bundle_records m)) \<inter> hashes_of es = {} \<and> set (record_ids (bundle_records m)) \<inter> ids_of es = {}"

text \<open>The state that represents the earlier months.\<close>

definition represents :: "(canon_value \<times> canon_value) list \<Rightarrow> chain_state \<Rightarrow> bool" where
  "represents es st \<longleftrightarrow>
     set (seen st) = hashes_of es \<and> set (seen_ids st) = ids_of es
     \<and> intents st = fold add_intent (concat (map bundle_records es)) []
     \<and> last_month st = (if es = [] then None else Some (report_month (last es)))
     \<and> head_hash st = (if es = [] then None else report_head (last es))
     \<and> head_record_count st = (if es = [] then 0 else report_count (last es))
     \<and> months st = length es
     \<and> (\<forall>p. project_id st = Some p \<longleftrightarrow> (\<exists>e\<in>set es. str_of (fst e) ''project_id'' = Some p))"

lemma report_issues_Nil: "report_issues r = [] \<longleftrightarrow> get r ''ok'' = Some (Bool True)"
  by (simp add: report_issues_def)

lemma link_issues_Nil:
  assumes "represents es st" "get (snd m) ''segment'' = Some seg"
  shows "link_issues st (fst m) seg = [] \<longleftrightarrow>
    str_of seg ''link'' \<noteq> Some ''base_unpinned''
    \<and> (es \<noteq> [] \<longrightarrow> report_month (last es) < report_month m
         \<and> (report_head (last es) \<noteq> None \<longrightarrow> stated_base_count (fst m) = report_count (last es)))
    \<and> (\<forall>e\<in>set es. \<forall>p q. str_of (fst e) ''project_id'' = Some p \<and> str_of (fst m) ''project_id'' = Some q \<longrightarrow> p = q)"
proof -
  have m: "segment_month seg = report_month m" using assms(2) by (simp add: report_month_def)
  have project: "(case (project_id st, str_of (fst m) ''project_id'') of (Some a, Some b) \<Rightarrow> if a \<noteq> b then [ProjectDiffers b a] else [] | _ \<Rightarrow> []) = []
      \<longleftrightarrow> (\<forall>p q. project_id st = Some p \<and> str_of (fst m) ''project_id'' = Some q \<longrightarrow> p = q)"
    by (auto split: option.splits)
  have "(\<forall>p q. project_id st = Some p \<and> str_of (fst m) ''project_id'' = Some q \<longrightarrow> p = q)
      \<longleftrightarrow> (\<forall>e\<in>set es. \<forall>p q. str_of (fst e) ''project_id'' = Some p \<and> str_of (fst m) ''project_id'' = Some q \<longrightarrow> p = q)"
    using assms(1) unfolding represents_def by blast
  then show ?thesis
    using assms(1) unfolding link_issues_def append_is_Nil_conv project m represents_def by (auto simp: not_le)
qed

lemma parent_issues_Nil:
  assumes "represents es st"
  shows "parent_issues st (fst m) = [] \<longleftrightarrow>
    (\<forall>r\<in>set (bundle_records m). \<forall>p\<in>set (segment_parents_of r).
       p \<in> set (record_hashes (bundle_records m)) \<or> p \<in> set (base_frontier_of (fst m)) \<or> p \<in> hashes_of es)"
proof -
  have "parent_issues st (fst m) = [] \<longleftrightarrow> set (dangling_parents st (fst m)) = {}"
    by (auto simp: parent_issues_def split: list.splits)
  also have "\<dots> \<longleftrightarrow> (\<forall>r\<in>set (bundle_records m). \<forall>p\<in>set (segment_parents_of r).
       p \<in> set (record_hashes (bundle_records m)) \<or> p \<in> set (base_frontier_of (fst m)) \<or> p \<in> set (seen st))"
    unfolding dangling_parents_def Let_def set_collect_set by auto
  finally show ?thesis using assms by (simp add: represents_def)
qed

lemma reuse_issues_Nil:
  assumes "represents es st"
  shows "reuse_issues st records = [] \<longleftrightarrow>
    set (record_hashes records) \<inter> hashes_of es = {} \<and> set (record_ids records) \<inter> ids_of es = {}"
proof -
  have "reuse_issues st records = [] \<longleftrightarrow>
      set (filter (\<lambda>h. h \<in> set (seen st)) (record_hashes records) @ collect_set (filter (\<lambda>i. i \<in> set (seen_ids st)) (record_ids records))) = {}"
    unfolding reuse_issues_def Let_def set_empty by (auto split: list.split)
  also have "\<dots> \<longleftrightarrow> set (record_hashes records) \<inter> set (seen st) = {} \<and> set (record_ids records) \<inter> set (seen_ids st) = {}"
    unfolding set_append set_collect_set by auto
  finally show ?thesis using assms by (simp add: represents_def)
qed

lemma unresolved_issue_Nil:
  assumes "represents es st"
  shows "unresolved_issue st records u = [] \<longleftrightarrow> resolves es records u"
proof -
  have r: "set (seen_ids st) = ids_of es" "intents st = fold add_intent (concat (map bundle_records es)) []"
    using assms by (simp_all add: represents_def)
  show ?thesis
    unfolding unresolved_issue_def resolves_def r Let_def
    by (cases "str_of u ''kind''"; cases "str_of u ''record_id''"; cases "str_of u ''ref''")
       (auto simp: bind_eq_Some_conv split: option.splits prod.splits if_splits)
qed

section \<open>The simulation\<close>

text \<open>\<open>accumulate_history\<close> touches only what the whole bundle is built from.\<close>

lemma accumulate_frame [simp]:
  "issues (accumulate_history uni b st) = issues st" "seen (accumulate_history uni b st) = seen st" "seen_ids (accumulate_history uni b st) = seen_ids st"
  "intents (accumulate_history uni b st) = intents st" "project_id (accumulate_history uni b st) = project_id st" "months (accumulate_history uni b st) = months st"
  by (simp_all add: accumulate_history_def Let_def split: prod.split)

lemma absorb_issues:
  assumes "represents es st"
  shows "issues (absorb uni (fst m) (snd m) st) = [] \<longleftrightarrow> issues st = [] \<and> month_follows es m"
proof (cases "get (snd m) ''segment''")
  case None
  then show ?thesis by (simp add: absorb_def month_follows_def)
next
  case (Some seg)
  then have "issues (absorb uni (fst m) (snd m) st) = [] \<longleftrightarrow> issues st = [] \<and> report_issues (snd m) = [] \<and> link_issues st (fst m) seg = []
      \<and> parent_issues st (fst m) = [] \<and> (\<forall>u\<in>set (array_of seg ''unresolved_cross_month''). unresolved_issue st (bundle_records m) u = [])
      \<and> reuse_issues st (bundle_records m) = []"
    by (auto simp: absorb_def note_month_def close_month_def Let_def)
  then show ?thesis
    unfolding report_issues_Nil link_issues_Nil [OF assms Some] parent_issues_Nil [OF assms] unresolved_issue_Nil [OF assms]
      reuse_issues_Nil [OF assms] month_follows_def Some option.inject by blast
qed

lemma absorb_represents:
  assumes "represents es st" "get (snd m) ''segment'' = Some seg"
    "\<forall>e\<in>set es. \<forall>p q. str_of (fst e) ''project_id'' = Some p \<and> str_of (fst m) ''project_id'' = Some q \<longrightarrow> p = q"
  shows "represents (es @ [m]) (absorb uni (fst m) (snd m) st)"
proof -
  have "(case project_id st of None \<Rightarrow> str_of (fst m) ''project_id'' | p \<Rightarrow> p) = Some p
      \<longleftrightarrow> (\<exists>e\<in>set (es @ [m]). str_of (fst e) ''project_id'' = Some p)" for p
  proof -
    have "project_id st = Some q \<longleftrightarrow> (\<exists>e\<in>set es. str_of (fst e) ''project_id'' = Some q)" for q
      using assms(1) unfolding represents_def by blast
    then show ?thesis using assms(3) by (cases "project_id st") (auto simp del: not_None_eq, metis)
  qed
  then show ?thesis
    using assms(1,2)
    by (auto simp: represents_def absorb_def note_month_def close_month_def Let_def hashes_of_def ids_of_def report_month_def report_head_def report_count_def)
qed

definition initial :: "chain_state \<Rightarrow> bool" where
  "initial st \<longleftrightarrow> st = chain_new \<or> (\<exists>cap. st = with_cap cap)"

lemma initial_represents: "initial st \<Longrightarrow> represents [] st \<and> issues st = []"
  by (auto simp: initial_def represents_def with_cap_def chain_new_def hashes_of_def ids_of_def)

lemma walk_snoc [simp]: "walk uni (ms @ [m]) st = absorb uni (fst m) (snd m) (walk uni ms st)"
  by (simp add: walk_def split_beta)

lemma walk_Nil [simp]: "walk uni [] st = st"
  by (simp add: walk_def)

lemma walk_simulates:
  assumes "initial st"
  shows "(issues (walk uni ms st) = [] \<longleftrightarrow> (\<forall>i<length ms. month_follows (take i ms) (ms ! i)))
    \<and> (issues (walk uni ms st) = [] \<longrightarrow> represents ms (walk uni ms st))"
proof (induction ms rule: rev_induct)
  case Nil
  then show ?case using initial_represents [OF assms] by simp
next
  case (snoc m ms)
  let ?st = "walk uni ms st"
  have all: "(\<forall>i<length (ms @ [m]). month_follows (take i (ms @ [m])) ((ms @ [m]) ! i))
      \<longleftrightarrow> (\<forall>i<length ms. month_follows (take i ms) (ms ! i)) \<and> month_follows ms m"
    by (auto simp: nth_append less_Suc_eq)
  show ?case
  proof (cases "issues ?st = []")
    case False
    then have "issues (absorb uni (fst m) (snd m) ?st) \<noteq> []"
      by (cases "get (snd m) ''segment''") (auto simp: absorb_def note_month_def close_month_def Let_def)
    then show ?thesis using False snoc.IH unfolding all by simp
  next
    case True
    then have rep: "represents ms ?st" using snoc.IH by blast
    have "represents (ms @ [m]) (absorb uni (fst m) (snd m) ?st)" if "month_follows ms m"
      using absorb_represents [OF rep] that unfolding month_follows_def by blast
    then show ?thesis using True snoc.IH absorb_issues [OF rep, of uni m] unfolding all by simp
  qed
qed

text \<open>C11: The chain state refines the specification of a chain: the walk over the months ends without an issue
  exactly when there is a month and every month follows the ones before it.\<close>

theorem chain_is_ok_exact:
  assumes "initial st"
  shows "is_ok (walk uni ms st) \<longleftrightarrow> ms \<noteq> [] \<and> (\<forall>i<length ms. month_follows (take i ms) (ms ! i))"
proof -
  have "months (walk uni ms st) = length ms" if "issues (walk uni ms st) = []"
    using walk_simulates [OF assms, of uni ms] that unfolding represents_def by blast
  then show ?thesis using walk_simulates [OF assms, of uni ms] unfolding is_ok_def by auto
qed

section \<open>The rebuilt history\<close>

lemma object_loop_Ok:
  "object_loop uni pairs known ms = Ok r \<longleftrightarrow>
     distinct (map (nfc uni \<circ> fst) pairs) \<and> nfc uni ` fst ` set pairs \<inter> set known = {}
     \<and> r = ms @ map (map_prod (nfc uni) id) pairs"
  by (induction uni pairs known ms rule: object_loop.induct) (auto simp: Let_def)

lemma object_Ok:
  "object uni pairs = Ok v \<longleftrightarrow> distinct (map (nfc uni \<circ> fst) pairs) \<and> v = Object (map (map_prod (nfc uni) id) pairs)"
  by (auto simp: object_def object_loop_Ok)

lemma object_get:
  assumes "object uni pairs = Ok v" "(k, w) \<in> set pairs" "is_ascii k"
  shows "get v k = Some w"
proof -
  have v: "v = Object (map (map_prod (nfc uni) id) pairs)" and d: "distinct (map (nfc uni \<circ> fst) pairs)"
    using assms(1) unfolding object_Ok by blast+
  have "(nfc uni k, w) \<in> set (map (map_prod (nfc uni) id) pairs)" using assms(2) by force
  moreover have "distinct (map fst (map (map_prod (nfc uni) id) pairs))" using d by (simp add: comp_def)
  ultimately show ?thesis using assms(3) unfolding v get_Object by (simp add: nfc_def)
qed

definition cp_hashes :: "canon_value list \<Rightarrow> string list" where
  "cp_hashes cs = List.map_filter (\<lambda>c. str_of c ''checkpoint_hash'') cs"

lemma new_checkpoints_facts:
  "new_checkpoints cs known = (new, known') \<Longrightarrow>
     set known' = set known \<union> set (cp_hashes cs) \<and> set (cp_hashes new) = set (cp_hashes cs) - set known
     \<and> distinct (cp_hashes new) \<and> set new \<subseteq> set cs \<and> {c \<in> set cs. str_of c ''checkpoint_hash'' = None} \<subseteq> set new"
proof (induction cs arbitrary: known new known')
  case Nil
  then show ?case by (simp add: cp_hashes_def List.map_filter_simps)
next
  case (Cons c cs)
  show ?case
  proof (cases "str_of c ''checkpoint_hash''")
    case None
    then obtain new0 where "new_checkpoints cs known = (new0, known')" "new = c # new0"
      using Cons.prems by (auto split: prod.splits)
    then show ?thesis using Cons.IH [of known new0 known'] None by (auto simp: cp_hashes_def List.map_filter_simps)
  next
    case (Some k)
    show ?thesis
    proof (cases "k \<in> set known")
      case True
      then show ?thesis using Cons.IH [of known new known'] Cons.prems Some by (auto simp: cp_hashes_def List.map_filter_simps)
    next
      case False
      then obtain new0 where "new_checkpoints cs (bs_insert k known) = (new0, known')" "new = c # new0"
        using Cons.prems Some by (auto split: prod.splits)
      then show ?thesis
        using Cons.IH [of "bs_insert k known" new0 known'] Some False by (auto simp: cp_hashes_def List.map_filter_simps set_insort_insert)
    qed
  qed
qed

lemma cp_hashes_append [simp]: "cp_hashes (cs @ ds) = cp_hashes cs @ cp_hashes ds"
  by (simp add: cp_hashes_def List.map_filter_def)

text \<open>While the cap holds, the state carries all absorbed records, and one copy of every checkpoint.\<close>

definition accumulated :: "(canon_value \<times> canon_value) list \<Rightarrow> chain_state \<Rightarrow> bool" where
  "accumulated es st \<longleftrightarrow>
     all_records st = concat (map bundle_records es)
     \<and> set (seen_checkpoints st) = set (cp_hashes (all_checkpoints st))
     \<and> set (cp_hashes (all_checkpoints st)) = set (cp_hashes (concat (map (\<lambda>m. array_of (fst m) ''checkpoints'') es)))
     \<and> distinct (cp_hashes (all_checkpoints st))
     \<and> set (all_checkpoints st) \<subseteq> set (concat (map (\<lambda>m. array_of (fst m) ''checkpoints'') es))"

lemma accumulate_accumulates:
  assumes "\<not> over_cap (accumulate_history uni b st)" "accumulated es st" "fst m = b"
  shows "accumulated (es @ [m]) (accumulate_history uni b st)"
proof -
  obtain new known where n: "new_checkpoints (array_of b ''checkpoints'') (seen_checkpoints st) = (new, known)" by fastforce
  have "\<not> over_cap st" using assms(1) by (auto simp: accumulate_history_def)
  then have "all_records (accumulate_history uni b st) = all_records st @ array_of b ''records''"
    "all_checkpoints (accumulate_history uni b st) = all_checkpoints st @ new" "seen_checkpoints (accumulate_history uni b st) = known"
    using assms(1) by (auto simp: accumulate_history_def Let_def n split: if_splits)
  then show ?thesis using assms(2,3) new_checkpoints_facts [OF n] unfolding accumulated_def by auto
qed

lemma over_cap_absorb: "over_cap st \<Longrightarrow> over_cap (absorb uni b r st)"
  by (auto simp: absorb_def accumulate_history_def note_month_def close_month_def Let_def split: option.splits)

lemma walk_accumulates:
  assumes "initial st"
  shows "issues (walk uni ms st) = [] \<Longrightarrow> \<not> over_cap (walk uni ms st) \<Longrightarrow> accumulated ms (walk uni ms st)"
proof (induction ms rule: rev_induct)
  case Nil
  then show ?case using assms by (auto simp: initial_def accumulated_def chain_new_def with_cap_def cp_hashes_def List.map_filter_simps)
next
  case (snoc m ms)
  let ?st = "walk uni ms st"
  obtain seg where seg: "get (snd m) ''segment'' = Some seg"
    using snoc.prems(1) by (cases "get (snd m) ''segment''") (auto simp: absorb_def)
  let ?st1 = "note_month uni (fst m) (snd m) seg ?st"
  have eq: "walk uni (ms @ [m]) st = close_month (fst m) seg (accumulate_history uni (fst m) ?st1)" using seg by (simp add: absorb_def)
  have "issues ?st = []" using snoc.prems(1) unfolding eq by (auto simp: note_month_def close_month_def Let_def)
  moreover have "\<not> over_cap ?st" using snoc.prems(2) over_cap_absorb by auto
  ultimately have "accumulated ms ?st1" using snoc.IH by (simp add: accumulated_def note_month_def Let_def)
  moreover have "\<not> over_cap (accumulate_history uni (fst m) ?st1)" using snoc.prems(2) unfolding eq by (simp add: close_month_def)
  ultimately have "accumulated (ms @ [m]) (accumulate_history uni (fst m) ?st1)" by (intro accumulate_accumulates) simp_all
  then show ?case unfolding eq by (simp add: accumulated_def close_month_def)
qed

lemma months_increase:
  assumes "\<forall>i<length ms. month_follows (take i ms) (ms ! i)"
  shows "sorted_wrt (<) (map report_month ms)"
proof -
  have "report_month (ms ! i) < report_month (ms ! Suc i)" if "Suc i < length ms" for i
  proof -
    have "take (Suc i) ms \<noteq> []" "last (take (Suc i) ms) = ms ! i" using that by (auto simp: take_Suc_conv_app_nth)
    then show ?thesis using assms that unfolding month_follows_def by metis
  qed
  then have "successively (<) (map report_month ms)" by (simp add: successively_conv_nth)
  then show ?thesis by (simp add: successively_iff_sorted_wrt_strong)
qed

lemma months_disjoint:
  assumes "\<forall>i<length ms. month_follows (take i ms) (ms ! i)" "i < j" "j < length ms"
  shows "set (record_hashes (bundle_records (ms ! i))) \<inter> set (record_hashes (bundle_records (ms ! j))) = {}"
    and "set (record_ids (bundle_records (ms ! i))) \<inter> set (record_ids (bundle_records (ms ! j))) = {}"
proof -
  have "ms ! i \<in> set (take j ms)" using assms(2,3) by (force simp: in_set_conv_nth)
  then have "set (record_hashes (bundle_records (ms ! i))) \<subseteq> hashes_of (take j ms)" "set (record_ids (bundle_records (ms ! i))) \<subseteq> ids_of (take j ms)"
    by (auto simp: hashes_of_def ids_of_def)
  then show "set (record_hashes (bundle_records (ms ! i))) \<inter> set (record_hashes (bundle_records (ms ! j))) = {}"
    "set (record_ids (bundle_records (ms ! i))) \<inter> set (record_ids (bundle_records (ms ! j))) = {}"
    using assms(1,3) unfolding month_follows_def by blast+
qed

lemma whole_bundle_fields:
  assumes "initial st" "is_ok (walk uni ms st)" "whole_bundle uni (walk uni ms st) = Some w"
  shows "get w ''records'' = Some (Array (concat (map bundle_records ms)))"
    and "get w ''checkpoints'' = Some (Array (all_checkpoints (walk uni ms st)))"
proof -
  let ?st = "walk uni ms st"
  have "\<not> over_cap ?st" using assms(3) by (auto simp: whole_bundle_def)
  then have acc: "accumulated ms ?st" using walk_accumulates [OF assms(1)] assms(2) unfolding is_ok_def by blast
  have ascii: "is_ascii ''records''" "is_ascii ''checkpoints''" by code_simp+
  have w: "object uni (latest_members ?st @ [(''records'', Array (all_records ?st)), (''checkpoints'', Array (all_checkpoints ?st))]
      @ (if has_disclosures ?st then [(''disclosures'', Array (all_disclosures ?st))] else []) @ latest_bound ?st) = Ok w"
    using assms(3) unfolding whole_bundle_def by (auto split: if_splits)
  have "get w ''records'' = Some (Array (all_records ?st))" by (rule object_get [OF w _ ascii(1)]) simp
  then show "get w ''records'' = Some (Array (concat (map bundle_records ms)))" using acc by (simp add: accumulated_def)
  show "get w ''checkpoints'' = Some (Array (all_checkpoints ?st))" by (rule object_get [OF w _ ascii(2)]) simp
qed

text \<open>C14: The rebuilt bundle of a chain without an issue holds the records of all months, in order; the months are
  strictly increasing and no content hash and no record id occurs in two of them; and its checkpoints
  are those of the months, with every checkpoint hash exactly once.\<close>

theorem whole_bundle_partition:
  assumes "initial st" "is_ok (walk uni ms st)" "whole_bundle uni (walk uni ms st) = Some w"
  shows "get w ''records'' = Some (Array (concat (map bundle_records ms)))
    \<and> sorted_wrt (<) (map report_month ms)
    \<and> (\<forall>j<length ms. \<forall>i<j. set (record_hashes (bundle_records (ms ! i))) \<inter> set (record_hashes (bundle_records (ms ! j))) = {}
         \<and> set (record_ids (bundle_records (ms ! i))) \<inter> set (record_ids (bundle_records (ms ! j))) = {})
    \<and> (\<exists>cps. get w ''checkpoints'' = Some (Array cps) \<and> distinct (cp_hashes cps)
         \<and> set cps \<subseteq> set (concat (map (\<lambda>m. array_of (fst m) ''checkpoints'') ms))
         \<and> set (cp_hashes cps) = set (cp_hashes (concat (map (\<lambda>m. array_of (fst m) ''checkpoints'') ms))))"
proof -
  let ?st = "walk uni ms st"
  have spec: "\<forall>i<length ms. month_follows (take i ms) (ms ! i)"
    using walk_simulates [OF assms(1), of uni ms] assms(2) unfolding is_ok_def by blast
  note W = whole_bundle_fields [OF assms]
  have "\<not> over_cap ?st" using assms(3) by (auto simp: whole_bundle_def)
  then have acc: "accumulated ms ?st" using walk_accumulates [OF assms(1)] assms(2) unfolding is_ok_def by blast
  then show ?thesis
    using W months_increase [OF spec] months_disjoint [OF spec] unfolding accumulated_def by auto
qed

section \<open>The byte cap\<close>

text \<open>An upper bound of what a month adds to the history.\<close>

definition month_bytes :: "(string \<Rightarrow> string) \<Rightarrow> canon_value \<Rightarrow> nat" where
  "month_bytes uni b = sum_list (map (serialized_len uni) (array_of b ''checkpoints'')) + sum_list (map (serialized_len uni) (array_of b ''records''))
     + sum_list (map (serialized_len uni) (array_of b ''disclosures''))
     + sum_list (map (\<lambda>(k, v). length k + serialized_len uni v) (carried_members b @ bound_members b))"

lemma new_checkpoints_bytes:
  "new_checkpoints cs known = (new, known') \<Longrightarrow> sum_list (map f new) \<le> (sum_list (map f cs) :: nat)"
  by (induction cs arbitrary: known new known') (fastforce split: option.splits if_splits prod.splits)+

lemma accumulate_below_cap:
  assumes "\<not> over_cap st" "history_bytes st + month_bytes uni b \<le> (case cap_override st of Some c \<Rightarrow> c | None \<Rightarrow> MAX_BUNDLE_BYTES)"
    "latest_extra_bytes st = sum_list (map (\<lambda>(k, v). length k + serialized_len uni v) (carried_members b @ bound_members b))"
  shows "\<not> over_cap (accumulate_history uni b st) \<and> history_bytes (accumulate_history uni b st) \<le> history_bytes st + month_bytes uni b"
proof -
  obtain new known where n: "new_checkpoints (array_of b ''checkpoints'') (seen_checkpoints st) = (new, known)" by fastforce
  let ?added = "sum_list (map (serialized_len uni) new) + sum_list (map (serialized_len uni) (array_of b ''records''))
    + sum_list (map (serialized_len uni) (array_of b ''disclosures''))"
  have le: "?added + latest_extra_bytes st \<le> month_bytes uni b"
    using new_checkpoints_bytes [OF n, of "serialized_len uni"] unfolding month_bytes_def assms(3) by simp
  have "saturating_add (saturating_add (history_bytes st) ?added) (latest_extra_bytes st)
      \<le> (case cap_override st of Some c \<Rightarrow> c | None \<Rightarrow> MAX_BUNDLE_BYTES)"
    using le assms(2) unfolding saturating_add_def by linarith
  then show ?thesis using assms(1) le by (auto simp: accumulate_history_def Let_def n saturating_add_def)
qed

lemma walk_below_cap:
  assumes "initial st" "issues (walk uni ms st) = []"
    "sum_list (map (\<lambda>m. month_bytes uni (fst m)) ms) \<le> (case cap_override st of Some c \<Rightarrow> c | None \<Rightarrow> MAX_BUNDLE_BYTES)"
  shows "\<not> over_cap (walk uni ms st) \<and> cap_override (walk uni ms st) = cap_override st
    \<and> history_bytes (walk uni ms st) \<le> sum_list (map (\<lambda>m. month_bytes uni (fst m)) ms)"
  using assms(2,3)
proof (induction ms rule: rev_induct)
  case Nil
  then show ?case using assms(1) by (auto simp: initial_def chain_new_def with_cap_def)
next
  case (snoc m ms)
  let ?st = "walk uni ms st"
  obtain seg where seg: "get (snd m) ''segment'' = Some seg"
    using snoc.prems(1) by (cases "get (snd m) ''segment''") (auto simp: absorb_def)
  let ?st1 = "note_month uni (fst m) (snd m) seg ?st"
  have eq: "walk uni (ms @ [m]) st = close_month (fst m) seg (accumulate_history uni (fst m) ?st1)" using seg by (simp add: absorb_def)
  have "issues ?st = []" using snoc.prems(1) unfolding eq by (auto simp: note_month_def close_month_def Let_def)
  then have IH: "\<not> over_cap ?st" "cap_override ?st = cap_override st" "history_bytes ?st \<le> sum_list (map (\<lambda>m. month_bytes uni (fst m)) ms)"
    using snoc.IH snoc.prems(2) by simp_all
  have "\<not> over_cap (accumulate_history uni (fst m) ?st1) \<and> history_bytes (accumulate_history uni (fst m) ?st1) \<le> history_bytes ?st1 + month_bytes uni (fst m)"
    by (rule accumulate_below_cap) (use IH snoc.prems(2) in \<open>simp_all add: note_month_def Let_def\<close>)
  moreover have "cap_override (accumulate_history uni (fst m) ?st1) = cap_override st"
    using IH(2) by (simp add: accumulate_history_def note_month_def Let_def split: prod.split)
  ultimately show ?case unfolding eq using IH(3) by (simp add: close_month_def) (simp add: note_month_def Let_def)
qed

text \<open>Two months for the witnesses: a record, and its child in the next month.\<close>

definition demo_rec :: "string \<Rightarrow> string list \<Rightarrow> canon_value" where
  "demo_rec h ps = Object [(''content_hash'', Str h), (''record_id'', Str h), (''causal_prev_hashes'', Array (map Str ps))]"

definition demo_bundle :: "string \<Rightarrow> canon_value list \<Rightarrow> int \<Rightarrow> canon_value" where
  "demo_bundle month recs n = Object [(''project_id'', Str ''p''), (''records'', Array recs),
     (''checkpoints'', Array [demo_cp 0 Null ''c'']),
     (''segment'', Object [(''month'', Str month), (''base_record_count'', CInt n), (''base_checkpoint_hash'', Str ''c'')])]"

definition demo_report :: "string \<Rightarrow> int \<Rightarrow> canon_value" where
  "demo_report month n = Object [(''ok'', Bool True), (''segment'', Object [(''month'', Str month), (''link'', Str ''base_pinned''),
     (''head_checkpoint_hash'', Str ''c''), (''head_record_count'', CInt n)])]"

definition september :: "canon_value \<times> canon_value" where
  "september = (demo_bundle ''2026-09'' [demo_rec ''1'' []] 0, demo_report ''2026-09'' 1)"

definition october :: "canon_value \<times> canon_value" where
  "october = (demo_bundle ''2026-10'' [demo_rec ''3'' [''1'']] 1, demo_report ''2026-10'' 2)"

definition good_report :: canon_value where
  "good_report = Object [(''ok'', Bool True), (''keys_externally_pinned'', Bool True), (''claims_version'', Str ''2''),
     (''claims'', Object [(''requested'', Str ''integrity''), (''requested_decision'', Str ''satisfied''), (''integrity'', Str ''satisfied'')])]"

lemma demo_month_facts:
  "get (snd september) ''ok'' = Some (Bool True)" "get (snd october) ''ok'' = Some (Bool True)"
  "report_month september = ''2026-09''" "report_month october = ''2026-10''" "''2026-09'' < ''2026-10''"
  "report_count september = 1" "stated_base_count (fst october) = 1"
  "record_hashes (bundle_records september) = [''1'']" "record_hashes (bundle_records october) = [''3'']"
  "record_ids (bundle_records september) = [''1'']" "record_ids (bundle_records october) = [''3'']"
  "list_all (\<lambda>r. segment_parents_of r = []) (bundle_records september)" "list_all (\<lambda>r. segment_parents_of r = [''1'']) (bundle_records october)"
  "map_option (\<lambda>s. (str_of s ''link'', array_of s ''unresolved_cross_month'')) (get (snd september) ''segment'') = Some (Some ''base_pinned'', [])"
  "map_option (\<lambda>s. (str_of s ''link'', array_of s ''unresolved_cross_month'')) (get (snd october) ''segment'') = Some (Some ''base_pinned'', [])"
  "str_of (fst september) ''project_id'' = Some ''p''" "str_of (fst october) ''project_id'' = Some ''p''"
  by code_simp+

lemma demo_follows: "month_follows [] september" "month_follows [september] october"
proof -
  note f = demo_month_facts
  have parents: "\<forall>r\<in>set (bundle_records september). segment_parents_of r = []" "\<forall>r\<in>set (bundle_records october). segment_parents_of r = [''1'']"
    using f(12,13) unfolding list_all_iff .
  have segs: "\<exists>seg. get (snd m) ''segment'' = Some seg \<and> str_of seg ''link'' \<noteq> Some ''base_unpinned''
      \<and> (\<forall>u\<in>set (array_of seg ''unresolved_cross_month''). resolves es (bundle_records m) u)"
    if "map_option (\<lambda>s. (str_of s ''link'', array_of s ''unresolved_cross_month'')) (get (snd m) ''segment'') = Some (Some ''base_pinned'', [])" for m es
    using that by auto
  have sets: "hashes_of [september] = {''1''}" "ids_of [september] = {''1''}" "hashes_of [] = {}" "ids_of [] = {}"
    by (simp_all add: hashes_of_def ids_of_def f(8,10))
  show "month_follows [] september"
    unfolding month_follows_def sets using f(1) segs [OF f(14)] parents(1) by simp
  show "month_follows [september] october"
    unfolding month_follows_def sets f(9,11) using f(2-7) segs [OF f(15)] parents(2) f(16,17) by simp
qed

definition demo_cap :: nat where
  "demo_cap = month_bytes (\<lambda>s. s) (fst september) + month_bytes (\<lambda>s. s) (fst october)"

lemma initial_new: "initial (with_cap demo_cap)"
  by (auto simp: initial_def)

theorem chain_is_ok_exact_witness: "is_ok (walk (\<lambda>s. s) [september, october] (with_cap demo_cap))"
  using chain_is_ok_exact [OF initial_new, of "\<lambda>s. s" "[september, october]"] demo_follows by (simp add: less_Suc_eq)

lemma demo_chain_ok: "is_ok (walk (\<lambda>s. s) [september, october] (with_cap demo_cap))"
  using walk_simulates [OF initial_new, of "\<lambda>s. s" "[september, october]"] demo_follows
  by (auto simp: less_Suc_eq is_ok_def represents_def)

lemma accumulate_members [simp]:
  "latest_members (accumulate_history uni b st) = latest_members st" "latest_bound (accumulate_history uni b st) = latest_bound st"
  "has_disclosures (accumulate_history uni b st) = has_disclosures st"
  by (simp_all add: accumulate_history_def Let_def split: prod.split)

lemma demo_carried:
  "carried_members (fst october) = [(''project_id'', Str ''p'')]" "bound_members (fst october) = []"
  "get (fst september) ''disclosures'' = None" "get (fst october) ''disclosures'' = None"
  "list_all is_ascii [''project_id'', ''records'', ''checkpoints'']"
  by code_simp+

lemma demo_whole: "\<exists>w. whole_bundle (\<lambda>s. s) (walk (\<lambda>s. s) [september, october] (with_cap demo_cap)) = Some w"
proof -
  let ?st = "walk (\<lambda>s. s) [september, october] (with_cap demo_cap)"
  note ok = demo_chain_ok
  have "sum_list (map (\<lambda>m. month_bytes (\<lambda>s. s) (fst m)) [september, october])
      \<le> (case cap_override (with_cap demo_cap) of Some c \<Rightarrow> c | None \<Rightarrow> MAX_BUNDLE_BYTES)"
    by (simp add: with_cap_def demo_cap_def)
  then have cap: "\<not> over_cap ?st" using walk_below_cap [OF initial_new] ok unfolding is_ok_def by blast
  obtain s1 s2 where seg: "get (snd september) ''segment'' = Some s1" "get (snd october) ''segment'' = Some s2"
    using demo_month_facts(14,15) by auto
  have "latest_members ?st = [(''project_id'', Str ''p'')]" "latest_bound ?st = []" "\<not> has_disclosures ?st"
    using seg demo_carried by (simp_all add: walk_def split_beta absorb_def close_month_def note_month_def Let_def with_cap_def chain_new_def)
  then show ?thesis
    using cap ok demo_carried(5) unfolding whole_bundle_def is_ok_def
    by (auto simp: object_Ok nfc_def intro!: exI)
qed

theorem whole_bundle_partition_witness:
  "\<exists>w. get w ''records'' = Some (Array (concat (map bundle_records [september, october])))
     \<and> sorted_wrt (<) (map report_month [september, october])"
  using whole_bundle_partition [OF initial_new demo_chain_ok] demo_whole by blast

text \<open>C12: The verdict of a chain is never better than what was checked: PASS or CONSISTENT is given only for a chain in
  which every month follows the ones before it, whose history stayed below the byte cap and was
  rebuilt, and for which the whole-history verifier accepted the rebuilt bundle with that verdict.\<close>

theorem chain_verdict_sound:
  assumes "initial st" "verdict (finish_with uni verify (walk uni ms st)) \<in> {Pass, Consistent}"
  shows "ms \<noteq> [] \<and> (\<forall>i<length ms. month_follows (take i ms) (ms ! i)) \<and> \<not> over_cap (walk uni ms st)
    \<and> (\<exists>w r. whole_bundle uni (walk uni ms st) = Some w \<and> get w ''records'' = Some (Array (concat (map bundle_records ms)))
         \<and> verify w = Some r \<and> get r ''ok'' = Some (Bool True)
         \<and> month_claim_verdict r False = verdict (finish_with uni verify (walk uni ms st)))"
proof -
  let ?st = "walk uni ms st"
  have ok: "is_ok ?st" and cap: "\<not> over_cap ?st" and w: "whole_bundle uni ?st \<noteq> None"
    using assms(2) unfolding finish_with_def by (auto simp: is_ok_def Let_def split: if_splits option.splits)
  then obtain w where w: "whole_bundle uni ?st = Some w" by blast
  obtain r where r: "verify w = Some r" "verdict (finish_with uni verify ?st) = month_claim_verdict r False"
    using assms(2) cap ok unfolding finish_with_def w by (auto simp: Let_def split: option.splits)
  have "get r ''ok'' = Some (Bool True)"
    using assms(2) unfolding r(2) by (auto simp: month_claim_verdict_def Let_def split: if_splits)
  moreover have "ms \<noteq> [] \<and> (\<forall>i<length ms. month_follows (take i ms) (ms ! i))" using walk_simulates [OF assms(1), of uni ms] ok assms(1)
    unfolding is_ok_def by (auto simp: initial_def chain_new_def with_cap_def)
  moreover have "get w ''records'' = Some (Array (concat (map bundle_records ms)))"
    by (rule whole_bundle_fields(1) [OF assms(1) ok w])
  ultimately show ?thesis using w r cap by auto
qed

theorem chain_verdict_sound_witness:
  "\<exists>w r. whole_bundle (\<lambda>s. s) (walk (\<lambda>s. s) [september, october] (with_cap demo_cap)) = Some w \<and> month_claim_verdict r False = Pass"
proof -
  obtain w where w: "whole_bundle (\<lambda>s. s) (walk (\<lambda>s. s) [september, october] (with_cap demo_cap)) = Some w" using demo_whole by blast
  have "month_claim_verdict good_report False = Pass" by code_simp
  moreover have "\<not> over_cap (walk (\<lambda>s. s) [september, october] (with_cap demo_cap))" using w by (auto simp: whole_bundle_def)
  ultimately have "verdict (finish_with (\<lambda>s. s) (\<lambda>_. Some good_report) (walk (\<lambda>s. s) [september, october] (with_cap demo_cap))) = Pass"
    using w demo_chain_ok by (simp add: finish_with_def Let_def)
  then show ?thesis
    using chain_verdict_sound [OF initial_new, of "\<lambda>s. s" "\<lambda>_. Some good_report" "[september, october]"] by auto
qed

end
