(* ===== verification/Closure.thy ===== *)
theory Closure
  imports Segment
begin

text \<open>
  What a frontier commits: \<open>committed_set\<close> of \<open>core/src/verify.rs\<close> and \<open>closure\<close> of \<open>core/src/segment.rs\<close>, the
  same worklist over the parents of the records. Both return on every input, cyclic ones included, and
  compute exactly the hashes reachable from the frontier.
\<close>

definition commit_parents :: "canon_value list \<Rightarrow> (string \<times> nat) list \<Rightarrow> string \<Rightarrow> string list" where
  "commit_parents records index h =
     (case map_of index h of
        None \<Rightarrow> []
      | Some i \<Rightarrow> List.map_filter as_str (array_of (records ! i) ''causal_prev_hashes''))"

definition all_parents :: "canon_value list \<Rightarrow> (string \<times> nat) list \<Rightarrow> string set" where
  "all_parents records index = (\<Union>(h, i)\<in>set index. set (List.map_filter as_str (array_of (records ! i) ''causal_prev_hashes'')))"

lemma commit_parents_known: "set (commit_parents records index h) \<subseteq> all_parents records index"
proof (cases "map_of index h")
  case (Some i)
  then have "(h, i) \<in> set index" by (rule map_of_SomeD)
  then show ?thesis using Some by (auto simp: commit_parents_def all_parents_def)
qed (simp add: commit_parents_def)

text \<open>The stack is a list with its top first; \<open>push\<close> in the order of the parents leaves the last one on top.\<close>

function committed_loop :: "canon_value list \<Rightarrow> (string \<times> nat) list \<Rightarrow> string list \<Rightarrow> string list \<Rightarrow> string list" where
  "committed_loop records index [] known = known"
| "committed_loop records index (h # stack) known =
     (if h \<in> set known then committed_loop records index stack known
      else committed_loop records index (rev (commit_parents records index h) @ stack) (bs_insert h known))"
  by pat_completeness auto

termination
proof (relation "measures [\<lambda>(records, index, stack, known). card ((all_parents records index \<union> set stack) - set known),
    \<lambda>(records, index, stack, known). length stack]")
  fix records :: "canon_value list" and index :: "(string \<times> nat) list" and h and stack known :: "string list"
  have fin: "finite (all_parents records index)" unfolding all_parents_def by (intro finite_UN_I) auto
  let ?U = "all_parents records index"
  {
    assume "h \<in> set known"
    then have "(?U \<union> set stack) - set known = (?U \<union> set (h # stack)) - set known" by auto
    then show "((records, index, stack, known), records, index, h # stack, known)
        \<in> measures [\<lambda>(records, index, stack, known). card ((all_parents records index \<union> set stack) - set known),
          \<lambda>(records, index, stack, known). length stack]" by simp
  next
    assume new: "h \<notin> set known"
    have "(?U \<union> set (rev (commit_parents records index h) @ stack)) - set (bs_insert h known) \<subset> (?U \<union> set (h # stack)) - set known"
      using new commit_parents_known [of records index h] by (auto simp: set_insort_insert)
    then have "card ((?U \<union> set (rev (commit_parents records index h) @ stack)) - set (bs_insert h known)) < card ((?U \<union> set (h # stack)) - set known)"
      using fin by (intro psubset_card_mono) auto
    then show "((records, index, rev (commit_parents records index h) @ stack, bs_insert h known), records, index, h # stack, known)
        \<in> measures [\<lambda>(records, index, stack, known). card ((all_parents records index \<union> set stack) - set known),
          \<lambda>(records, index, stack, known). length stack]" by simp
  }
qed simp

definition committed_set :: "canon_value list \<Rightarrow> (string \<times> nat) list \<Rightarrow> string list \<Rightarrow> string list" where
  "committed_set records index frontier = committed_loop records index (rev frontier) []"

definition closure :: "canon_value list \<Rightarrow> (string \<times> nat) list \<Rightarrow> canon_value list \<Rightarrow> string list" where
  "closure records index frontier = committed_loop records index (rev (List.map_filter as_str frontier)) []"

definition oldest_uncovered_received_ts :: "canon_value list \<Rightarrow> (string \<times> nat) list \<Rightarrow> string list option \<Rightarrow> string option" where
  "oldest_uncovered_received_ts records index frontier =
     (let covered = map_option (committed_set records index) frontier;
          uncovered = filter (\<lambda>rec. case (covered, str_of rec ''content_hash'') of (Some c, Some h) \<Rightarrow> h \<notin> set c | _ \<Rightarrow> True) records;
          times = map (\<lambda>rec. case str_of rec ''received_ts'' of
                    Some t \<Rightarrow> if is_canonical_ts t then t else ''1970-01-01T00:00:00.000Z''
                  | None \<Rightarrow> ''1970-01-01T00:00:00.000Z'') uncovered
      in case times of [] \<Rightarrow> None | t # ts \<Rightarrow> Some (fold min ts t))"

section \<open>Reachability\<close>

text \<open>Leaving a set that is closed up to some exits means passing through one of them.\<close>

lemma reach_through:
  assumes closed: "\<And>x y. x \<in> K \<Longrightarrow> (x, y) \<in> E \<Longrightarrow> y \<in> K \<union> S" and "(x, y) \<in> E\<^sup>*" "x \<in> K"
  shows "y \<in> K \<or> y \<in> E\<^sup>* `` S"
  using assms(2,3)
proof (induction rule: rtrancl_induct)
  case (step y z)
  then show ?case using closed [of y z] by (auto intro: rtrancl_into_rtrancl)
qed simp

definition parent_rel :: "canon_value list \<Rightarrow> (string \<times> nat) list \<Rightarrow> (string \<times> string) set" where
  "parent_rel records index = {(h, p). p \<in> set (commit_parents records index h)}"

lemma committed_loop_reach:
  assumes "\<forall>x\<in>set known. set (commit_parents records index x) \<subseteq> set known \<union> set stack"
  shows "set (committed_loop records index stack known) = set known \<union> (parent_rel records index)\<^sup>* `` set stack"
  using assms
proof (induction records index stack known rule: committed_loop.induct)
  case (2 records index h stack known)
  let ?E = "parent_rel records index"
  show ?case
  proof (cases "h \<in> set known")
    case True
    have closed: "\<forall>x\<in>set known. set (commit_parents records index x) \<subseteq> set known \<union> set stack" using 2(3) True by auto
    then have "y \<in> set known \<union> ?E\<^sup>* `` set stack" if "(h, y) \<in> ?E\<^sup>*" for y
      using reach_through [of "set known" ?E "set stack" h y] that True by (auto simp: parent_rel_def)
    then show ?thesis using 2(1) [OF True closed] True by auto
  next
    case False
    let ?ps = "commit_parents records index h"
    have step: "?E\<^sup>* `` {h} = insert h (?E\<^sup>* `` set ?ps)"
      unfolding parent_rel_def by (auto intro: converse_rtrancl_into_rtrancl elim: converse_rtranclE)
    have "\<forall>x\<in>set (bs_insert h known). set (commit_parents records index x) \<subseteq> set (bs_insert h known) \<union> set (rev ?ps @ stack)"
      using 2(3) by (auto simp: set_insort_insert)
    from 2(2) [OF False this] have "set (committed_loop records index (h # stack) known)
        = insert h (set known) \<union> ?E\<^sup>* `` (set ?ps \<union> set stack)"
      using False by (simp add: set_insort_insert)
    also have "\<dots> = set known \<union> ?E\<^sup>* `` set (h # stack)" using step by (auto simp: Image_Un)
    finally show ?thesis .
  qed
qed simp

lemma committed_set_reach: "set (committed_set records index frontier) = (parent_rel records index)\<^sup>* `` set frontier"
  unfolding committed_set_def by (subst committed_loop_reach) simp_all

lemma closure_reach: "set (closure records index frontier) = (parent_rel records index)\<^sup>* `` {h. Str h \<in> set frontier}"
  unfolding closure_def by (subst committed_loop_reach) (simp_all add: set_strs)

lemma committed_loop_sorted: "sorted known \<and> distinct known \<Longrightarrow> sorted (committed_loop records index stack known) \<and> distinct (committed_loop records index stack known)"
  by (induction records index stack known rule: committed_loop.induct) (simp_all add: sorted_insort_insert distinct_insort_insert)

text \<open>C20: The committed set of a frontier is computed on every record set, cyclic ones included, and is exactly the
  set of hashes that lead from the frontier along parent links, listed once each in order.\<close>

theorem committed_set_exact:
  "set (committed_set records index frontier) = {h. \<exists>f\<in>set frontier. (f, h) \<in> (parent_rel records index)\<^sup>*}
   \<and> sorted (committed_set records index frontier) \<and> distinct (committed_set records index frontier)"
  using committed_set_reach [of records index frontier] committed_loop_sorted [of "[]" records index "rev frontier"]
  by (auto simp: committed_set_def)

end
