(* ===== verification/Committed.thy ===== *)
theory Committed
  imports Closure Merkle "HOL-Library.Product_Lexorder"
begin

text \<open>
  The committed broker log of a checkpoint and its incremental computation. \<open>committed_broker_log\<close> of
  \<open>core/src/verify.rs\<close> recomputes the log of a frontier from scratch; \<open>LogCursor\<close> of
  \<open>core/src/verify/committed.rs\<close> keeps the log, the hash accumulators and the first gap of the previous
  frontier and only adds what is new.

  The result: for every sequence of frontiers the cursor returns exactly the count, the gap status and
  the root of the log that is computed from scratch.

  An array is a list and an index out of range is a panic (\<open>Code.abort\<close>); the per-thread counters that
  the tests read are not modelled. \<open>usize::MAX\<close> in \<open>gap_at\<close> is \<^const>\<open>None\<close>, and the generation stamp, a
  \<open>u64\<close> that grows by at most two for each frontier, is a natural number.
\<close>

section \<open>Roles\<close>

datatype broker_role = Broker | Resource | Void | NoRole

fun broker_role_as_str :: "broker_role \<Rightarrow> string" where
  "broker_role_as_str Broker = ''broker''"
| "broker_role_as_str Resource = ''resource''"
| "broker_role_as_str Void = ''grant_void''"
| "broker_role_as_str NoRole = ''none''"

definition classify_role :: "canon_value \<Rightarrow> broker_role \<times> bool" where
  "classify_role rec =
     (let kind = Option.bind (get rec ''extensions'') (\<lambda>e. Option.bind (get e ''broker'') (\<lambda>b. Option.bind (get b ''kind'') as_str));
          ep = Option.bind (get rec ''authority'') (\<lambda>a. Option.bind (get a ''enforcement_point'') as_str);
          role = (if kind = Some ''grant'' \<and> ep = Some ''credential_broker'' then Broker
                  else if kind = Some ''grant_void'' \<and> ep = Some ''credential_broker'' then Void
                  else if kind \<in> {Some ''use'', Some ''use_intent'', Some ''use_outcome'', Some ''introspection_transcript''}
                          \<and> ep = Some ''tool_gateway'' then Resource
                  else NoRole)
      in (role, kind \<noteq> None))"

definition log_payload_key :: "string \<Rightarrow> string option" where
  "log_payload_key role =
     (if role = broker_role_as_str Broker then Some ''grant_evidence''
      else if role = broker_role_as_str Void then Some ''void_evidence''
      else None)"

text \<open>The fields of \<open>RecordTrust\<close> that the log reads.\<close>

record record_trust =
  rt_index :: nat
  rt_record_id :: string
  rt_content_hash :: string
  rt_broker_role :: string

section \<open>The log from scratch\<close>

definition in_partition :: "canon_value \<Rightarrow> string \<Rightarrow> string option \<Rightarrow> bool" where
  "in_partition rec key broker_id =
     (case broker_id of
        None \<Rightarrow> True
      | Some bid \<Rightarrow> (case ev_str rec key ''broker_id'' of Some b \<Rightarrow> b \<noteq> [] \<and> b = bid | None \<Rightarrow> False))"

definition log_seq :: "canon_value \<Rightarrow> string \<Rightarrow> int option" where
  "log_seq rec key = (case ev_int rec key ''broker_seq'' of Some s \<Rightarrow> if s \<ge> 1 then Some s else None | None \<Rightarrow> None)"

definition log_entry :: "canon_value list \<Rightarrow> string list \<Rightarrow> string option \<Rightarrow> record_trust \<Rightarrow> (int \<times> string) option" where
  "log_entry records committed broker_id rt =
     (case log_payload_key (rt_broker_role rt) of
        None \<Rightarrow> None
      | Some key \<Rightarrow>
          if rt_content_hash rt \<in> set committed \<and> in_partition (records ! rt_index rt) key broker_id
          then map_option (\<lambda>seq. (seq, rt_content_hash rt)) (log_seq (records ! rt_index rt) key)
          else None)"

definition committed_broker_log :: "record_trust list \<Rightarrow> canon_value list \<Rightarrow> (string \<times> nat) list \<Rightarrow> string list \<Rightarrow> string option
    \<Rightarrow> (int \<times> string) list" where
  "committed_broker_log rts records index frontier broker_id =
     sort_key fst (List.map_filter (log_entry records (committed_set records index frontier) broker_id) rts)"

fun check_duplicate_seqs :: "(int \<times> string) list \<Rightarrow> int list" where
  "check_duplicate_seqs (a # b # rest) =
     (if fst a = fst b \<and> snd a \<noteq> snd b then fst a # check_duplicate_seqs (b # rest) else check_duplicate_seqs (b # rest))"
| "check_duplicate_seqs _ = []"

section \<open>The graph, indexed once\<close>

record dag_index =
  node_of :: "(string \<times> nat) list"
  node_parents :: "nat list list"

fun number_nodes :: "(string \<times> nat) list \<Rightarrow> nat \<Rightarrow> string list \<Rightarrow> (string \<times> nat) list \<Rightarrow> (string \<times> nat) list option" where
  "number_nodes index i [] numbered = Some numbered"
| "number_nodes index i (h # hs) numbered =
     (if map_of index h = None \<or> map_of numbered h \<noteq> None then None
      else number_nodes index (i + 1) hs (bt_insert h i numbered))"

fun known_parents :: "(string \<times> nat) list \<Rightarrow> nat \<Rightarrow> canon_value list \<Rightarrow> nat list option" where
  "known_parents numbered i [] = Some []"
| "known_parents numbered i (p # ps) =
     (case Option.bind (as_str p) (map_of numbered) of
        None \<Rightarrow> known_parents numbered i ps
      | Some pn \<Rightarrow> if pn \<ge> i then None else map_option (Cons pn) (known_parents numbered i ps))"

fun parent_lists :: "canon_value list \<Rightarrow> (string \<times> nat) list \<Rightarrow> (string \<times> nat) list \<Rightarrow> nat \<Rightarrow> string list \<Rightarrow> nat list list option" where
  "parent_lists records index numbered i [] = Some []"
| "parent_lists records index numbered i (h # hs) =
     (case map_of index h of
        None \<Rightarrow> None
      | Some j \<Rightarrow>
          if j \<ge> length records then None
          else (case known_parents numbered i (array_of (records ! j) ''causal_prev_hashes'') of
              None \<Rightarrow> None
            | Some ps \<Rightarrow> map_option (Cons ps) (parent_lists records index numbered (i + 1) hs)))"

definition dag_index_build :: "canon_value list \<Rightarrow> (string \<times> nat) list \<Rightarrow> string list \<Rightarrow> dag_index option" where
  "dag_index_build records index topo =
     (case number_nodes index 0 topo [] of
        None \<Rightarrow> None
      | Some numbered \<Rightarrow>
          if length numbered \<noteq> length index then None
          else map_option (\<lambda>ps. \<lparr> node_of = numbered, node_parents = ps \<rparr>) (parent_lists records index numbered 0 topo))"

section \<open>The log, indexed once\<close>

record log_index =
  idx_dag :: dag_index
  idx_entries :: "(int \<times> nat) list list"

definition at :: "'a list \<Rightarrow> nat \<Rightarrow> 'a" where
  "at xs i = (if i < length xs then xs ! i else Code.abort (STR ''index out of bounds'') (\<lambda>_. xs ! i))"

fun index_entries :: "dag_index \<Rightarrow> canon_value list \<Rightarrow> string option \<Rightarrow> nat \<Rightarrow> record_trust list \<Rightarrow> (int \<times> nat) list list
    \<Rightarrow> (int \<times> nat) list list option" where
  "index_entries d records broker_id pos [] entries = Some entries"
| "index_entries d records broker_id pos (rt # rts) entries =
     (case log_payload_key (rt_broker_role rt) of
        None \<Rightarrow> index_entries d records broker_id (pos + 1) rts entries
      | Some key \<Rightarrow>
          if rt_index rt \<ge> length records then None
          else
            let rec = records ! rt_index rt
            in if \<not> in_partition rec key broker_id then index_entries d records broker_id (pos + 1) rts entries
               else (case log_seq rec key of
                   None \<Rightarrow> index_entries d records broker_id (pos + 1) rts entries
                 | Some seq \<Rightarrow>
                     (case map_of (node_of d) (rt_content_hash rt) of
                        None \<Rightarrow> None
                      | Some n \<Rightarrow> index_entries d records broker_id (pos + 1) rts (entries[n := at entries n @ [(seq, pos)]]))))"

definition log_index_build :: "dag_index \<Rightarrow> record_trust list \<Rightarrow> canon_value list \<Rightarrow> string option \<Rightarrow> log_index option" where
  "log_index_build d rts records broker_id =
     map_option (\<lambda>es. \<lparr> idx_dag = d, idx_entries = es \<rparr>)
       (index_entries d records broker_id 0 rts (replicate (length (node_parents d)) []))"

definition reach :: "log_index \<Rightarrow> bool list" where
  "reach idx =
     fold (\<lambda>x r. r[x := at (idx_entries idx) x \<noteq> [] \<or> list_ex (at r) (at (node_parents (idx_dag idx)) x)])
       [0..<length (node_parents (idx_dag idx))] (replicate (length (node_parents (idx_dag idx))) False)"

definition commits_any :: "log_index \<Rightarrow> bool list \<Rightarrow> string list \<Rightarrow> bool" where
  "commits_any idx r frontier =
     list_ex (\<lambda>f. case map_of (node_of (idx_dag idx)) f of Some n \<Rightarrow> at r n | None \<Rightarrow> False) frontier"

section \<open>The brokers a frontier commits\<close>

function seen_loop :: "nat list list \<Rightarrow> nat list \<Rightarrow> bool list \<Rightarrow> bool list" where
  "seen_loop ps [] seen = seen"
| "seen_loop ps (x # stack) seen =
     (if x \<ge> length seen then Code.abort (STR ''index out of bounds'') (\<lambda>_. seen)
      else if seen ! x then seen_loop ps stack seen
      else seen_loop ps (rev (at ps x) @ stack) (seen[x := True]))"
  by pat_completeness auto

termination
proof (relation "measures [\<lambda>(ps, stack, seen). length (filter Not seen), \<lambda>(ps, stack, seen). length stack]")
  fix ps :: "nat list list" and x and stack :: "nat list" and seen
  assume x: "\<not> length seen \<le> x" "\<not> seen ! x"
  have "filter Not seen = filter Not (take x seen @ seen ! x # drop (Suc x) seen)"
    by (rule arg_cong [where f = "filter Not"]) (use x(1) in \<open>simp add: id_take_nth_drop [symmetric]\<close>)
  then have "length (filter Not seen) = length (filter Not (take x seen)) + 1 + length (filter Not (drop (Suc x) seen))"
    unfolding filter_append using x(2) by simp
  then have "length (filter Not (seen[x := True])) < length (filter Not seen)" using x(1) by (simp add: upd_conv_take_nth_drop)
  then show "((ps, rev (at ps x) @ stack, seen[x := True]), ps, x # stack, seen)
      \<in> measures [\<lambda>(ps, stack, seen). length (filter Not seen), \<lambda>(ps, stack, seen). length stack]" by simp
qed simp_all

fun collect_brokers :: "dag_index \<Rightarrow> canon_value list \<Rightarrow> bool list \<Rightarrow> record_trust list \<Rightarrow> string list \<Rightarrow> string list option" where
  "collect_brokers d records seen [] out = Some out"
| "collect_brokers d records seen (rt # rts) out =
     (case log_payload_key (rt_broker_role rt) of
        None \<Rightarrow> collect_brokers d records seen rts out
      | Some key \<Rightarrow>
          if rt_index rt \<ge> length records then None
          else
            let rec = records ! rt_index rt
            in (case map_of (node_of d) (rt_content_hash rt) of
                 None \<Rightarrow> None
               | Some n \<Rightarrow>
                   if \<not> at seen n \<or> log_seq rec key = None then collect_brokers d records seen rts out
                   else (case ev_str rec key ''broker_id'' of
                       Some b \<Rightarrow> collect_brokers d records seen rts (if b \<noteq> [] then bs_insert b out else out)
                     | None \<Rightarrow> collect_brokers d records seen rts out)))"

definition brokers_committed_by :: "dag_index \<Rightarrow> record_trust list \<Rightarrow> canon_value list \<Rightarrow> string list \<Rightarrow> string list option" where
  "brokers_committed_by d rts records frontier =
     collect_brokers d records
       (seen_loop (node_parents d) (rev (List.map_filter (map_of (node_of d)) frontier)) (replicate (length (node_parents d)) False)) rts []"

section \<open>The cursor\<close>

record log_state =
  log_n :: int
  log_gapless :: bool
  log_root :: string

record log_cursor =
  cur_idx :: log_index
  in_prev :: "bool list"
  prev_front :: "nat list"
  cur_log :: "(int \<times> nat) list"
  accs :: "bytes list"
  gap_at :: "nat option"
  visit :: "nat list"
  hit :: "nat list"
  gen :: nat

definition cursor_new :: "('sk, 'vk) externals \<Rightarrow> log_index \<Rightarrow> log_cursor" where
  "cursor_new X idx =
     (let n = length (node_parents (idx_dag idx))
      in \<lparr> cur_idx = idx, in_prev = replicate n False, prev_front = [], cur_log = [],
           accs = [sha256 X grant_head_seed_preimage], gap_at = None, visit = replicate n 0, hit = replicate n 0, gen = 0 \<rparr>)"

text \<open>The walk from a frontier: \<open>(visit, hit, fresh)\<close> under a generation stamp.\<close>

function walk_loop :: "nat list list \<Rightarrow> bool list \<Rightarrow> nat \<Rightarrow> nat list \<Rightarrow> nat list \<times> nat list \<times> nat list \<Rightarrow> nat list \<times> nat list \<times> nat list" where
  "walk_loop ps old g [] st = st"
| "walk_loop ps old g (x # stack) (v, ht, fresh) =
     (if x \<ge> length v then Code.abort (STR ''index out of bounds'') (\<lambda>_. (v, ht, fresh))
      else if at old x then walk_loop ps old g stack (v, ht[x := g], fresh)
      else if v ! x = g then walk_loop ps old g stack (v, ht, fresh)
      else walk_loop ps old g (rev (at ps x) @ stack) (v[x := g], ht, fresh @ [x]))"
  by pat_completeness auto

termination
proof (relation "measures [\<lambda>(ps, old, g, stack, v, ht, fresh). card {i. i < length v \<and> v ! i \<noteq> g},
    \<lambda>(ps, old, g, stack, v, ht, fresh). length stack]")
  fix ps :: "nat list list" and old :: "bool list" and g x and stack v ht fresh :: "nat list"
  assume x: "\<not> length v \<le> x" "\<not> at old x" "v ! x \<noteq> g"
  have "{i. i < length (v[x := g]) \<and> v[x := g] ! i \<noteq> g} = {i. i < length v \<and> v ! i \<noteq> g} - {x}"
  proof -
    have "v[x := g] ! i = (if x = i then g else v ! i)" for i using x by (intro nth_list_update) simp
    then show ?thesis by auto
  qed
  moreover have "x \<in> {i. i < length v \<and> v ! i \<noteq> g}" using x by simp
  ultimately have "{i. i < length (v[x := g]) \<and> v[x := g] ! i \<noteq> g} \<subset> {i. i < length v \<and> v ! i \<noteq> g}" by blast
  then have "card {i. i < length (v[x := g]) \<and> v[x := g] ! i \<noteq> g} < card {i. i < length v \<and> v ! i \<noteq> g}"
    by (intro psubset_card_mono) simp_all
  then show "((ps, old, g, rev (at ps x) @ stack, v[x := g], ht, fresh @ [x]), ps, old, g, x # stack, v, ht, fresh)
      \<in> measures [\<lambda>(ps, old, g, stack, v, ht, fresh). card {i. i < length v \<and> v ! i \<noteq> g}, \<lambda>(ps, old, g, stack, v, ht, fresh). length stack]"
    by simp
qed simp_all

definition cursor_walk :: "log_cursor \<Rightarrow> nat list \<Rightarrow> log_cursor \<times> nat list" where
  "cursor_walk c frontier =
     (let g = gen c + 1
      in case walk_loop (node_parents (idx_dag (cur_idx c))) (in_prev c) g (rev frontier) (visit c, hit c, []) of
           (v, ht, fresh) \<Rightarrow> (c \<lparr> gen := g, visit := v, hit := ht \<rparr>, fresh))"

definition cursor_reset :: "log_cursor \<Rightarrow> log_cursor" where
  "cursor_reset c = c \<lparr> in_prev := map (\<lambda>_. False) (in_prev c), prev_front := [], cur_log := [], accs := take 1 (accs c), gap_at := None \<rparr>"

text \<open>The loop over the tail of the log: it appends the accumulators and finds the first gap.\<close>

fun fold_tail :: "('sk, 'vk) externals \<Rightarrow> record_trust list \<Rightarrow> nat \<Rightarrow> (int \<times> nat) list \<Rightarrow> bytes list \<Rightarrow> nat option \<Rightarrow> bytes list \<times> nat option" where
  "fold_tail X rts i [] as gap = (as, gap)"
| "fold_tail X rts i ((seq, pos) # tail) as gap =
     (let gap = (if gap = None \<and> seq \<noteq> int i + 1 then Some i else gap);
          content_hash = (if pos < length rts then rt_content_hash (rts ! pos) else [])
      in fold_tail X rts (i + 1) tail (as @ [sha256 X (grant_head_step_preimage (at as i) seq content_hash)]) gap)"

definition merge_entries :: "('sk, 'vk) externals \<Rightarrow> record_trust list \<Rightarrow> (int \<times> nat) list \<Rightarrow> log_cursor \<Rightarrow> log_cursor" where
  "merge_entries X rts add c =
     (if add = [] then c
      else
        let add = sort add;
            p = length (takeWhile (\<lambda>e. e < hd add) (cur_log c));
            tail = sort (drop p (cur_log c) @ add);
            gap = (case gap_at c of None \<Rightarrow> None | Some g \<Rightarrow> if g \<ge> p then None else Some g);
            (as, gap) = fold_tail X rts p tail (take (p + 1) (accs c)) gap
        in c \<lparr> cur_log := take p (cur_log c) @ tail, accs := as, gap_at := gap \<rparr>)"

definition advance :: "('sk, 'vk) externals \<Rightarrow> log_cursor \<Rightarrow> string list \<Rightarrow> record_trust list \<Rightarrow> log_cursor \<times> log_state" where
  "advance X c frontier rts =
     (let front = List.map_filter (map_of (node_of (idx_dag (cur_idx c)))) frontier;
          (c, fresh) = cursor_walk c front;
          g = gen c;
          (c, fresh) = (if list_all (\<lambda>m. at (hit c) m = g) (prev_front c) then (c, fresh) else cursor_walk (cursor_reset c) front);
          c = c \<lparr> in_prev := fold (\<lambda>x b. b[x := True]) fresh (in_prev c), prev_front := front \<rparr>;
          c = merge_entries X rts (concat (map (at (idx_entries (cur_idx c))) fresh)) c
      in (c, \<lparr> log_n = int (length (cur_log c)), log_gapless = (gap_at c = None),
               log_root = ''sha256:'' @ hex_lower (at (accs c) (length (cur_log c))) \<rparr>))"

section \<open>Anchor times\<close>

definition seed_anchor :: "dag_index \<Rightarrow> (string \<Rightarrow> bool) \<Rightarrow> string \<times> string list \<Rightarrow> string option list \<Rightarrow> string option list" where
  "seed_anchor d is_canonical a min_ts =
     (case a of (ts, frontier) \<Rightarrow>
        if \<not> is_canonical ts then min_ts
        else fold (\<lambda>f m. case map_of (node_of d) f of
                None \<Rightarrow> m
              | Some n \<Rightarrow> if (case at m n of None \<Rightarrow> True | Some cur \<Rightarrow> ts < cur) then m[n := Some ts] else m) frontier min_ts)"

definition push_anchor :: "dag_index \<Rightarrow> nat \<Rightarrow> string option list \<Rightarrow> string option list" where
  "push_anchor d x min_ts =
     (case at min_ts x of
        None \<Rightarrow> min_ts
      | Some t \<Rightarrow> fold (\<lambda>p m. if (case at m p of None \<Rightarrow> True | Some cur \<Rightarrow> t < cur) then m[p := Some t] else m)
                    (at (node_parents d) x) min_ts)"

definition min_anchor_times :: "dag_index \<Rightarrow> (string \<times> string list) list \<Rightarrow> (string \<Rightarrow> bool) \<Rightarrow> string option list" where
  "min_anchor_times d anchors is_canonical =
     fold (push_anchor d) (rev [0..<length (node_parents d)])
       (fold (seed_anchor d is_canonical) anchors (replicate (length (node_parents d)) None))"

end
