(* ===== verification/Committed_Exact.thy ===== *)
theory Committed_Exact
  imports Committed
begin

text \<open>
  The incremental computation of \<open>Committed\<close> is exact: the numbered graph has the edges of the hashed
  one, the walk finds exactly the nodes that are new, and the kept log, accumulators and gap are those
  of the log computed from scratch. The same index gives every node its earliest anchor time.
\<close>

section \<open>The numbered graph\<close>

lemma at_nth [simp]: "i < length xs \<Longrightarrow> at xs i = xs ! i"
  by (simp add: at_def)

lemma set_map_filter_iff: "y \<in> set (List.map_filter f xs) \<longleftrightarrow> (\<exists>x\<in>set xs. f x = Some y)"
  by (induction xs) (auto simp: List.map_filter_simps split: option.splits)

lemma number_nodes_facts:
  "number_nodes index i hs numbered = Some m \<Longrightarrow> bt_wf numbered \<Longrightarrow>
     bt_wf m \<and> distinct hs \<and> set hs \<inter> dom (map_of numbered) = {} \<and> set hs \<subseteq> dom (map_of index)
     \<and> length m = length numbered + length hs
     \<and> (\<forall>h n. map_of m h = Some n \<longleftrightarrow> map_of numbered h = Some n \<or> (\<exists>k<length hs. n = i + k \<and> hs ! k = h))"
proof (induction hs arbitrary: i numbered)
  case (Cons h hs)
  then have new: "map_of index h \<noteq> None" "map_of numbered h = None" and rec: "number_nodes index (i + 1) hs (bt_insert h i numbered) = Some m"
    by (auto split: if_splits)
  note IH = Cons.IH [OF rec bt_wf_insert [OF Cons.prems(2)]]
  have dom: "dom (map_of (bt_insert h i numbered)) = insert h (dom (map_of numbered))"
    using Cons.prems(2) by (auto simp: map_of_bt_insert split: if_splits)
  have "map_of m h' = Some n \<longleftrightarrow> map_of numbered h' = Some n \<or> (\<exists>k<length (h # hs). n = i + k \<and> (h # hs) ! k = h')" for h' n
  proof -
    have "(\<exists>k<length (h # hs). n = i + k \<and> (h # hs) ! k = h') \<longleftrightarrow> (n = i \<and> h = h') \<or> (\<exists>k<length hs. n = i + 1 + k \<and> hs ! k = h')"
      by (auto simp: less_Suc_eq_0_disj)
    moreover have "map_of m h' = Some n \<longleftrightarrow> map_of (bt_insert h i numbered) h' = Some n \<or> (\<exists>k<length hs. n = i + 1 + k \<and> hs ! k = h')"
      using IH by blast
    ultimately show ?thesis using new(2) by (auto simp: map_of_bt_insert [OF Cons.prems(2)])
  qed
  moreover have "length m = length numbered + length (h # hs)"
    using IH new(2) length_bt_insert [OF Cons.prems(2), of h i] by simp
  moreover have "distinct (h # hs)" "set (h # hs) \<inter> dom (map_of numbered) = {}" "set (h # hs) \<subseteq> dom (map_of index)" "bt_wf m"
    using IH new unfolding dom by auto
  ultimately show ?case by blast
qed simp

lemma known_parents_Some:
  "known_parents numbered i vs = Some ps \<Longrightarrow>
     set ps = {n. \<exists>h. Str h \<in> set vs \<and> map_of numbered h = Some n} \<and> (\<forall>n\<in>set ps. n < i)"
proof (induction vs arbitrary: ps)
  case (Cons v vs)
  show ?case
  proof (cases "Option.bind (as_str v) (map_of numbered)")
    case None
    then show ?thesis using Cons by (cases v) (auto simp: as_str_def)
  next
    case (Some n)
    then obtain h where "v = Str h" "map_of numbered h = Some n" by (cases v) (auto simp: as_str_def)
    then show ?thesis using Cons Some by (auto split: if_splits) blast
  qed
qed simp

lemma parent_lists_Some:
  "parent_lists records index numbered i hs = Some pss \<Longrightarrow>
     length pss = length hs
     \<and> (\<forall>k<length hs. \<exists>j. map_of index (hs ! k) = Some j \<and> j < length records
          \<and> known_parents numbered (i + k) (array_of (records ! j) ''causal_prev_hashes'') = Some (pss ! k))"
proof (induction hs arbitrary: i pss)
  case (Cons h hs)
  obtain j ps rest where j: "map_of index h = Some j" "j < length records"
    "known_parents numbered i (array_of (records ! j) ''causal_prev_hashes'') = Some ps" "pss = ps # rest"
    "parent_lists records index numbered (i + 1) hs = Some rest"
    using Cons.prems by (auto split: option.splits if_splits)
  show ?case using Cons.IH [OF j(5)] j by (auto simp: less_Suc_eq_0_disj)
qed simp

text \<open>What a built index knows of the graph: \<open>hash_at\<close> is the hash of a node.\<close>

definition numbering :: "canon_value list \<Rightarrow> (string \<times> nat) list \<Rightarrow> dag_index \<Rightarrow> (nat \<Rightarrow> string) \<Rightarrow> nat \<Rightarrow> bool" where
  "numbering records index d hash_at n \<longleftrightarrow>
     length (node_parents d) = n
     \<and> (\<forall>h x. map_of (node_of d) h = Some x \<longleftrightarrow> x < n \<and> hash_at x = h)
     \<and> dom (map_of (node_of d)) = dom (map_of index)
     \<and> (\<forall>x<n. set (node_parents d ! x) = {y. y < n \<and> hash_at y \<in> set (commit_parents records index (hash_at x))}
              \<and> (\<forall>y\<in>set (node_parents d ! x). y < x))"

lemma dag_index_numbering:
  assumes "dag_index_build records index topo = Some d" "bt_wf index"
  shows "numbering records index d ((!) topo) (length topo)"
proof -
  obtain m pss where m: "number_nodes index 0 topo [] = Some m" "length m = length index"
    and pss: "parent_lists records index m 0 topo = Some pss" and d: "d = \<lparr> node_of = m, node_parents = pss \<rparr>"
    using assms(1) by (auto simp: dag_index_build_def split: option.splits if_splits)
  note M = number_nodes_facts [OF m(1) bt_wf_Nil] and P = parent_lists_Some [OF pss]
  have look: "map_of m h = Some x \<longleftrightarrow> x < length topo \<and> topo ! x = h" for h x using M by simp
  have "set topo = dom (map_of m)" using look by (auto simp: dom_def in_set_conv_nth)
  moreover have "card (dom (map_of m)) = length index" "card (dom (map_of index)) = length index"
    using card_nodes [of m] card_nodes [OF assms(2)] M m(2) by (simp_all add: nodes_def dom_def)
  ultimately have dom: "dom (map_of m) = dom (map_of index)"
    using M card_subset_eq [of "dom (map_of index)" "dom (map_of m)"] finite_dom_map_of by auto
  have "set (pss ! x) = {y. y < length topo \<and> topo ! y \<in> set (commit_parents records index (topo ! x))} \<and> (\<forall>y\<in>set (pss ! x). y < x)"
    if x: "x < length topo" for x
  proof -
    obtain j where j: "map_of index (topo ! x) = Some j"
      "known_parents m x (array_of (records ! j) ''causal_prev_hashes'') = Some (pss ! x)" using P x by auto
    have "set (commit_parents records index (topo ! x)) = {h. Str h \<in> set (array_of (records ! j) ''causal_prev_hashes'')}"
      using j(1) by (simp add: commit_parents_def set_strs)
    then show ?thesis using known_parents_Some [OF j(2)] look by auto
  qed
  then show ?thesis using look dom P unfolding numbering_def d by simp
qed

section \<open>Reachability over nodes\<close>

definition node_rel :: "nat list list \<Rightarrow> (nat \<times> nat) set" where
  "node_rel ps = {(x, y). x < length ps \<and> y \<in> set (ps ! x)}"

text \<open>A hash that is a node is committed exactly when its node is reached.\<close>

lemma committed_nodes:
  assumes N: "numbering records index d hash_at n" and x: "x < n"
  shows "hash_at x \<in> set (committed_set records index frontier)
    \<longleftrightarrow> x \<in> (node_rel (node_parents d))\<^sup>* `` set (List.map_filter (map_of (node_of d)) frontier)"
proof -
  let ?E = "parent_rel records index" and ?R = "node_rel (node_parents d)"
  have look: "map_of (node_of d) h = Some y \<longleftrightarrow> y < n \<and> hash_at y = h" for h y using N by (simp add: numbering_def)
  have len: "length (node_parents d) = n" using N by (simp add: numbering_def)
  have edge: "(y, z) \<in> ?R \<longleftrightarrow> y < n \<and> z < n \<and> (hash_at y, hash_at z) \<in> ?E" for y z
    using N by (auto simp: numbering_def node_rel_def parent_rel_def)
  have front: "y \<in> set (List.map_filter (map_of (node_of d)) frontier) \<longleftrightarrow> y < n \<and> hash_at y \<in> set frontier" for y
    unfolding set_map_filter_iff look by blast
  have up: "\<exists>y<n. hash_at y = f \<and> (y, x) \<in> ?R\<^sup>*" if "(f, hash_at x) \<in> ?E\<^sup>*" for f
    using that
  proof (induction rule: converse_rtrancl_induct)
    case base
    then show ?case using x by blast
  next
    case (step f g)
    then obtain z where z: "z < n" "hash_at z = g" "(z, x) \<in> ?R\<^sup>*" by blast
    have "map_of index f \<noteq> None" using step(1) by (cases "map_of index f") (auto simp: parent_rel_def commit_parents_def)
    then have "f \<in> dom (map_of (node_of d))" using N unfolding numbering_def by auto
    then obtain y where y: "map_of (node_of d) f = Some y" by blast
    then have "(y, z) \<in> ?R" "y < n" "hash_at y = f" using edge [of y z] step(1) z look [of f y] by auto
    from converse_rtrancl_into_rtrancl [OF this(1) z(3)] this(2,3) show ?case by blast
  qed
  have down: "(hash_at y, hash_at z) \<in> ?E\<^sup>*" if "(y, z) \<in> ?R\<^sup>*" for y z
    using that by (induction rule: rtrancl_induct) (auto simp: edge intro: rtrancl_into_rtrancl)
  show ?thesis
  proof
    assume "hash_at x \<in> set (committed_set records index frontier)"
    then obtain f where f: "f \<in> set frontier" "(f, hash_at x) \<in> ?E\<^sup>*" unfolding committed_set_reach by blast
    then obtain y where "y < n" "hash_at y = f" "(y, x) \<in> ?R\<^sup>*" using up by blast
    then show "x \<in> ?R\<^sup>* `` set (List.map_filter (map_of (node_of d)) frontier)" using f(1) front by blast
  next
    assume "x \<in> ?R\<^sup>* `` set (List.map_filter (map_of (node_of d)) frontier)"
    then obtain y where y: "hash_at y \<in> set frontier" "(y, x) \<in> ?R\<^sup>*" using front by blast
    from down [OF y(2)] y(1) show "hash_at x \<in> set (committed_set records index frontier)" unfolding committed_set_reach by blast
  qed
qed

section \<open>The walk\<close>

text \<open>Edges that leave nodes outside the previous closure.\<close>

definition open_rel :: "nat list list \<Rightarrow> bool list \<Rightarrow> (nat \<times> nat) set" where
  "open_rel ps old = {(x, y). x < length ps \<and> \<not> old ! x \<and> y \<in> set (ps ! x)}"

definition stamped :: "nat \<Rightarrow> nat list \<Rightarrow> nat set" where
  "stamped g v = {x. x < length v \<and> v ! x = g}"

lemma stamped_update [simp]: "x < length v \<Longrightarrow> stamped g (v[x := g]) = insert x (stamped g v)"
  by (auto simp: stamped_def nth_list_update)

lemma walk_loop_reach:
  assumes "length v = length ps" "length ht = length ps" "length old = length ps"
    "\<forall>x<length ps. \<forall>y\<in>set (ps ! x). y < length ps" "\<forall>x\<in>set stack. x < length ps"
    "\<forall>x\<in>stamped g v. set (ps ! x) \<subseteq> stamped g v \<union> stamped g ht \<union> set stack \<and> \<not> old ! x" "\<forall>x\<in>stamped g ht. old ! x"
    "set fresh = stamped g v" "distinct fresh" "walk_loop ps old g stack (v, ht, fresh) = (v', ht', fresh')"
  shows "stamped g v' \<union> stamped g ht' = stamped g v \<union> stamped g ht \<union> (open_rel ps old)\<^sup>* `` set stack
    \<and> (\<forall>x\<in>stamped g v'. \<not> old ! x) \<and> (\<forall>x\<in>stamped g ht'. old ! x) \<and> set fresh' = stamped g v' \<and> distinct fresh'
    \<and> length v' = length ps \<and> length ht' = length ps"
  using assms
proof (induction ps old g stack "(v, ht, fresh)" arbitrary: v ht fresh rule: walk_loop.induct)
  case (2 ps old g x stack v ht fresh)
  let ?E = "open_rel ps old"
  have x: "x < length ps" using "2.prems"(5) by simp
  have esc: "?E\<^sup>* `` {x} = {x}" if "old ! x"
    using that by (auto simp: open_rel_def elim: converse_rtranclE)
  consider (old) "old ! x" | (seen) "\<not> old ! x" "v ! x = g" | (new) "\<not> old ! x" "v ! x \<noteq> g" by blast
  then show ?case
  proof cases
    case old
    have rec: "walk_loop ps old g stack (v, ht[x := g], fresh) = (v', ht', fresh')"
      using "2.prems"(1,2,3,10) x old by simp
    have "stamped g v' \<union> stamped g ht' = stamped g v \<union> stamped g (ht[x := g]) \<union> ?E\<^sup>* `` set stack
      \<and> (\<forall>x\<in>stamped g v'. \<not> old ! x) \<and> (\<forall>x\<in>stamped g ht'. old ! x) \<and> set fresh' = stamped g v' \<and> distinct fresh'
      \<and> length v' = length ps \<and> length ht' = length ps"
      by (rule "2.hyps"(1)) (use "2.prems" x old rec in \<open>auto\<close>)
    then show ?thesis using esc [OF old] x "2.prems"(2) by (auto simp: Image_Un)
  next
    case seen
    have "x \<in> stamped g v" using seen x "2.prems"(1) by (simp add: stamped_def)
    have rec: "walk_loop ps old g stack (v, ht, fresh) = (v', ht', fresh')"
      using "2.prems"(1,2,3,10) x seen by simp
    have closed: "\<forall>x\<in>stamped g v. set (ps ! x) \<subseteq> stamped g v \<union> stamped g ht \<union> set stack \<and> \<not> old ! x"
      using "2.prems"(6) \<open>x \<in> stamped g v\<close> by auto
    have "y \<in> stamped g v \<union> stamped g ht \<union> ?E\<^sup>* `` set stack" if "(x, y) \<in> ?E\<^sup>*" for y
    proof -
      have "b \<in> (stamped g v \<union> stamped g ht) \<union> set stack" if "a \<in> stamped g v \<union> stamped g ht" "(a, b) \<in> ?E" for a b
        using that closed "2.prems"(7) by (auto simp: open_rel_def)
      then show ?thesis using reach_through [of "stamped g v \<union> stamped g ht" ?E "set stack" x y] that \<open>x \<in> stamped g v\<close> by blast
    qed
    moreover have "stamped g v' \<union> stamped g ht' = stamped g v \<union> stamped g ht \<union> ?E\<^sup>* `` set stack
      \<and> (\<forall>x\<in>stamped g v'. \<not> old ! x) \<and> (\<forall>x\<in>stamped g ht'. old ! x) \<and> set fresh' = stamped g v' \<and> distinct fresh'
      \<and> length v' = length ps \<and> length ht' = length ps"
      by (rule "2.hyps"(2)) (use "2.prems" x seen rec closed in \<open>auto\<close>)
    ultimately show ?thesis by (auto simp: Image_Un)
  next
    case new
    let ?ps = "ps ! x"
    have rec: "walk_loop ps old g (rev ?ps @ stack) (v[x := g], ht, fresh @ [x]) = (v', ht', fresh')"
      using "2.prems"(1,2,3,10) x new by simp
    have nx: "x \<notin> stamped g v" using new by (simp add: stamped_def)
    have st: "stamped g (v[x := g]) = insert x (stamped g v)" using x "2.prems"(1) by simp
    have step: "?E\<^sup>* `` {x} = insert x (?E\<^sup>* `` set ?ps)"
      using x new unfolding open_rel_def by (auto intro: converse_rtrancl_into_rtrancl elim: converse_rtranclE)
    have "stamped g v' \<union> stamped g ht' = stamped g (v[x := g]) \<union> stamped g ht \<union> ?E\<^sup>* `` set (rev (at ps x) @ stack)
      \<and> (\<forall>x\<in>stamped g v'. \<not> old ! x) \<and> (\<forall>x\<in>stamped g ht'. old ! x) \<and> set fresh' = stamped g v' \<and> distinct fresh'
      \<and> length v' = length ps \<and> length ht' = length ps"
      by (rule "2.hyps"(3)) (use "2.prems" x new rec st nx in \<open>auto\<close>)
    then show ?thesis using step st x by (auto simp: Image_Un)
  qed
qed simp

lemma walk_loop_stamps:
  "walk_loop ps old g stack (v, ht, fresh) = (v', ht', fresh') \<Longrightarrow> set v' \<subseteq> insert g (set v) \<and> set ht' \<subseteq> insert g (set ht)"
proof (induction ps old g stack "(v, ht, fresh)" arbitrary: v ht fresh rule: walk_loop.induct)
  case (2 ps old g x stack v ht fresh)
  have upd: "set (xs[x := g]) \<subseteq> insert g (set xs)" for xs :: "nat list" by (rule set_update_subset_insert)
  show ?case
  proof (cases "length v \<le> x")
    case True
    then show ?thesis using "2.prems" by auto
  next
    case False
    then show ?thesis
      using "2.hyps"(1) [OF False] "2.hyps"(2) [OF False] "2.hyps"(3) [OF False] "2.prems" upd [of v] upd [of ht]
      by (cases "at old x"; cases "v ! x = g") (auto; blast)+
  qed
qed auto

text \<open>Once a path enters a closed set it stays there.\<close>

lemma open_reach:
  assumes C: "\<And>x y. x \<in> C \<Longrightarrow> (x, y) \<in> node_rel ps \<Longrightarrow> y \<in> C" and old: "\<And>x. x < length ps \<Longrightarrow> old ! x \<longleftrightarrow> x \<in> C"
  shows "(open_rel ps old)\<^sup>* `` F \<subseteq> (node_rel ps)\<^sup>* `` F"
    and "(node_rel ps)\<^sup>* `` F - C = (open_rel ps old)\<^sup>* `` F - C"
proof -
  have sub: "open_rel ps old \<subseteq> node_rel ps" by (auto simp: open_rel_def node_rel_def)
  then show le: "(open_rel ps old)\<^sup>* `` F \<subseteq> (node_rel ps)\<^sup>* `` F" by (meson Image_mono order_refl rtrancl_mono)
  have "y \<in> C \<or> (x, y) \<in> (open_rel ps old)\<^sup>*" if "(x, y) \<in> (node_rel ps)\<^sup>*" for x y
    using that
  proof (induction rule: rtrancl_induct)
    case (step y z)
    then show ?case using C old by (auto simp: open_rel_def node_rel_def intro: rtrancl_into_rtrancl)
  qed simp
  then show "(node_rel ps)\<^sup>* `` F - C = (open_rel ps old)\<^sup>* `` F - C" using le by blast
qed

text \<open>The parts of a cursor that the walk uses.\<close>

definition marks_ok :: "log_cursor \<Rightarrow> bool" where
  "marks_ok c \<longleftrightarrow>
     (let ps = node_parents (idx_dag (cur_idx c))
      in length (in_prev c) = length ps \<and> length (visit c) = length ps \<and> length (hit c) = length ps
         \<and> (\<forall>v\<in>set (visit c). v \<le> gen c) \<and> (\<forall>v\<in>set (hit c). v \<le> gen c)
         \<and> (\<forall>x<length ps. \<forall>y\<in>set (ps ! x). y < length ps))"

definition prev_nodes :: "log_cursor \<Rightarrow> nat set" where
  "prev_nodes c = {x. x < length (in_prev c) \<and> in_prev c ! x}"

lemma cursor_walk_spec:
  assumes w: "cursor_walk c front = (c', fresh)" and ok: "marks_ok c" and ps: "ps = node_parents (idx_dag (cur_idx c))"
    and closed: "\<And>x y. x \<in> prev_nodes c \<Longrightarrow> (x, y) \<in> node_rel ps \<Longrightarrow> y \<in> prev_nodes c" and front: "\<forall>x\<in>set front. x < length ps"
  shows "c' = c \<lparr> gen := gen c', visit := visit c', hit := hit c' \<rparr>" "marks_ok c'"
    "distinct fresh" "set fresh = (node_rel ps)\<^sup>* `` set front - prev_nodes c"
    "\<forall>m<length ps. hit c' ! m = gen c' \<longrightarrow> m \<in> (node_rel ps)\<^sup>* `` set front"
    "\<forall>m\<in>prev_nodes c. m \<in> (open_rel ps (in_prev c))\<^sup>* `` set front \<longrightarrow> hit c' ! m = gen c'"
proof -
  let ?g = "gen c + 1"
  obtain v ht where l: "walk_loop ps (in_prev c) ?g (rev front) (visit c, hit c, []) = (v, ht, fresh)"
    and c': "c' = c \<lparr> gen := ?g, visit := v, hit := ht \<rparr>"
    using w unfolding cursor_walk_def ps [symmetric] by (auto simp: Let_def split: prod.splits)
  have len: "length (in_prev c) = length ps" "length (visit c) = length ps" "length (hit c) = length ps"
    and rng: "\<forall>x<length ps. \<forall>y\<in>set (ps ! x). y < length ps" and le: "\<forall>s\<in>set (visit c). s \<le> gen c" "\<forall>s\<in>set (hit c). s \<le> gen c"
    using ok unfolding marks_ok_def ps [symmetric] Let_def by blast+
  have none: "stamped ?g (visit c) = {}" "stamped ?g (hit c) = {}" using le nth_mem unfolding stamped_def by fastforce+
  have old: "in_prev c ! x \<longleftrightarrow> x \<in> prev_nodes c" if "x < length ps" for x using that len(1) by (simp add: prev_nodes_def)
  note W = walk_loop_reach [OF len(2,3,1) rng _ _ _ _ _ l, unfolded none, simplified, OF front]
  have O: "(open_rel ps (in_prev c))\<^sup>* `` set front \<subseteq> (node_rel ps)\<^sup>* `` set front"
    "(node_rel ps)\<^sup>* `` set front - prev_nodes c = (open_rel ps (in_prev c))\<^sup>* `` set front - prev_nodes c"
    by (rule open_reach [where C = "prev_nodes c"]; use closed old in blast)+
  have V: "stamped ?g v \<union> stamped ?g ht = (open_rel ps (in_prev c))\<^sup>* `` set front" using W by simp
  have sv: "stamped ?g v \<inter> prev_nodes c = {}" "stamped ?g ht \<subseteq> prev_nodes c" using W old by (auto simp: stamped_def)
  show "c' = c \<lparr> gen := gen c', visit := visit c', hit := hit c' \<rparr>" unfolding c' by simp
  show "distinct fresh" "set fresh = (node_rel ps)\<^sup>* `` set front - prev_nodes c" using W V sv O(2) by auto
  have "set v \<subseteq> insert ?g (set (visit c))" "set ht \<subseteq> insert ?g (set (hit c))" using walk_loop_stamps [OF l] by blast+
  then show "marks_ok c'" using W le len rng ps unfolding marks_ok_def c' Let_def by fastforce
  show "\<forall>m<length ps. hit c' ! m = gen c' \<longrightarrow> m \<in> (node_rel ps)\<^sup>* `` set front"
    using V O(1) W unfolding c' stamped_def by auto
  show "\<forall>m\<in>prev_nodes c. m \<in> (open_rel ps (in_prev c))\<^sup>* `` set front \<longrightarrow> hit c' ! m = gen c'"
    using V sv(1) unfolding c' stamped_def by auto
qed

section \<open>Accumulators and gaps\<close>

text \<open>The hash chain over log entries, which name records by their position.\<close>

definition pos_hash :: "record_trust list \<Rightarrow> nat \<Rightarrow> string" where
  "pos_hash rts pos = (if pos < length rts then rt_content_hash (rts ! pos) else [])"

definition acc_of :: "('sk, 'vk) externals \<Rightarrow> record_trust list \<Rightarrow> (int \<times> nat) list \<Rightarrow> bytes" where
  "acc_of X rts es = fold (\<lambda>(seq, pos) acc. sha256 X (grant_head_step_preimage acc seq (pos_hash rts pos))) es (sha256 X grant_head_seed_preimage)"

definition accs_of :: "('sk, 'vk) externals \<Rightarrow> record_trust list \<Rightarrow> (int \<times> nat) list \<Rightarrow> bytes list" where
  "accs_of X rts es = map (\<lambda>i. acc_of X rts (take i es)) [0..<length es + 1]"

lemma acc_of_root:
  "''sha256:'' @ hex_lower (acc_of X rts es) = grant_head_root X (map (\<lambda>(seq, pos). (seq, pos_hash rts pos)) es)"
  unfolding acc_of_def grant_head_root_def fold_map comp_def case_prod_unfold by simp

lemma length_accs_of [simp]: "length (accs_of X rts es) = length es + 1"
  by (simp add: accs_of_def)

lemma accs_of_nth [simp]: "i \<le> length es \<Longrightarrow> accs_of X rts es ! i = acc_of X rts (take i es)"
  by (simp add: accs_of_def del: upt_Suc)

lemma accs_of_snoc: "accs_of X rts (es @ [(seq, pos)]) = accs_of X rts es @ [sha256 X (grant_head_step_preimage (acc_of X rts es) seq (pos_hash rts pos))]"
  by (simp add: accs_of_def acc_of_def)

lemma accs_of_take: "p \<le> length es \<Longrightarrow> take (p + 1) (accs_of X rts es) = accs_of X rts (take p es)"
  by (rule nth_equalityI) (auto simp: min_absorb2 simp del: take_Suc_conv_app_nth)

text \<open>The first position whose sequence number is not its position plus one.\<close>

fun gap_from :: "nat \<Rightarrow> (int \<times> nat) list \<Rightarrow> nat option" where
  "gap_from i [] = None"
| "gap_from i ((seq, pos) # es) = (if seq \<noteq> int i + 1 then Some i else gap_from (i + 1) es)"

lemma gap_from_bounds: "gap_from i es = Some g \<Longrightarrow> i \<le> g \<and> g < i + length es"
  by (induction i es rule: gap_from.induct) (fastforce split: if_splits)+

lemma gap_from_None: "gap_from i es = None \<longleftrightarrow> map fst es = map (\<lambda>k. int k + 1) [i..<i + length es]"
  by (induction i es rule: gap_from.induct) (auto simp: upt_conv_Cons simp del: upt_Suc)

lemma gap_from_append:
  "gap_from i (es @ fs) = (case gap_from i es of Some g \<Rightarrow> Some g | None \<Rightarrow> gap_from (i + length es) fs)"
  by (induction i es rule: gap_from.induct) (auto split: option.split)

lemma gap_from_take:
  assumes "p \<le> length es"
  shows "gap_from 0 (take p es) = (case gap_from 0 es of None \<Rightarrow> None | Some g \<Rightarrow> if g \<ge> p then None else Some g)"
  using gap_from_append [of 0 "take p es" "drop p es"] gap_from_bounds [of 0 "take p es"] gap_from_bounds [of p "drop p es"] assms
  by (cases "gap_from 0 (take p es)") (auto split: option.splits)

lemma fold_tail_exact:
  "length pre = i \<Longrightarrow> as = accs_of X rts pre \<Longrightarrow> gap = gap_from 0 pre \<Longrightarrow>
   fold_tail X rts i tail as gap = (accs_of X rts (pre @ tail), gap_from 0 (pre @ tail))"
proof (induction tail arbitrary: pre i as gap)
  case (Cons e tail)
  obtain seq pos where e: "e = (seq, pos)" by fastforce
  have "at as i = acc_of X rts pre" using Cons.prems by simp
  moreover have "(if gap = None \<and> seq \<noteq> int i + 1 then Some i else gap) = gap_from 0 (pre @ [e])"
    using Cons.prems(1,3) gap_from_append [of 0 pre "[e]"] by (auto simp: e split: option.splits)
  ultimately show ?case
    using Cons.IH [of "pre @ [e]" "i + 1"] Cons.prems(1,2) accs_of_snoc [of X rts pre seq pos]
    by (simp add: e Let_def pos_hash_def)
qed simp

section \<open>The entries of the nodes\<close>

definition log_item :: "canon_value list \<Rightarrow> string option \<Rightarrow> record_trust \<Rightarrow> int option" where
  "log_item records broker_id rt =
     (case log_payload_key (rt_broker_role rt) of
        None \<Rightarrow> None
      | Some key \<Rightarrow> if in_partition (records ! rt_index rt) key broker_id then log_seq (records ! rt_index rt) key else None)"

lemma log_entry_item:
  "log_entry records committed broker_id rt =
     (if rt_content_hash rt \<in> set committed then map_option (\<lambda>seq. (seq, rt_content_hash rt)) (log_item records broker_id rt) else None)"
  by (simp add: log_entry_def log_item_def split: option.split)

definition entry_set :: "dag_index \<Rightarrow> canon_value list \<Rightarrow> string option \<Rightarrow> nat \<Rightarrow> record_trust list \<Rightarrow> nat \<Rightarrow> (int \<times> nat) set" where
  "entry_set d records broker_id pos rts n =
     {(s, p). \<exists>k<length rts. p = pos + k \<and> log_item records broker_id (rts ! k) = Some s \<and> map_of (node_of d) (rt_content_hash (rts ! k)) = Some n}"

lemma entry_set_Cons:
  "entry_set d records broker_id pos (rt # rts) n =
     {(s, p). p = pos \<and> log_item records broker_id rt = Some s \<and> map_of (node_of d) (rt_content_hash rt) = Some n}
     \<union> entry_set d records broker_id (pos + 1) rts n"
  by (auto simp: entry_set_def less_Suc_eq_0_disj)

lemma index_entries_step:
  "index_entries d records broker_id pos (rt # rts) es = Some es' \<Longrightarrow>
     (case log_item records broker_id rt of
        None \<Rightarrow> index_entries d records broker_id (pos + 1) rts es = Some es'
      | Some s \<Rightarrow> (\<exists>n. map_of (node_of d) (rt_content_hash rt) = Some n
          \<and> index_entries d records broker_id (pos + 1) rts (es[n := at es n @ [(s, pos)]]) = Some es'))"
  by (auto simp: log_item_def Let_def split: option.splits if_splits)

lemma index_entries_facts:
  assumes "index_entries d records broker_id pos rts es = Some es'" "\<And>h n. map_of (node_of d) h = Some n \<Longrightarrow> n < length es"
  shows "length es' = length es
    \<and> (\<forall>n<length es. \<exists>new. es' ! n = es ! n @ new \<and> distinct new \<and> set new = entry_set d records broker_id pos rts n)
    \<and> (\<forall>rt\<in>set rts. log_item records broker_id rt \<noteq> None \<longrightarrow> map_of (node_of d) (rt_content_hash rt) \<noteq> None)"
  using assms
proof (induction rts arbitrary: pos es)
  case Nil
  then show ?case by (simp add: entry_set_def)
next
  case (Cons rt rts)
  show ?case
  proof (cases "log_item records broker_id rt")
    case None
    then have "index_entries d records broker_id (pos + 1) rts es = Some es'" using index_entries_step [OF Cons.prems(1)] by simp
    from Cons.IH [OF this Cons.prems(2)] show ?thesis using None unfolding entry_set_Cons by simp
  next
    case (Some s)
    then obtain n where n: "map_of (node_of d) (rt_content_hash rt) = Some n"
      and rec: "index_entries d records broker_id (pos + 1) rts (es[n := at es n @ [(s, pos)]]) = Some es'"
      using index_entries_step [OF Cons.prems(1)] by auto
    have "n < length es" using Cons.prems(2) n by blast
    have IH: "length es' = length es
        \<and> (\<forall>k<length es. \<exists>new. es' ! k = es[n := at es n @ [(s, pos)]] ! k @ new \<and> distinct new \<and> set new = entry_set d records broker_id (pos + 1) rts k)
        \<and> (\<forall>rt\<in>set rts. log_item records broker_id rt \<noteq> None \<longrightarrow> map_of (node_of d) (rt_content_hash rt) \<noteq> None)"
      using Cons.IH [OF rec] Cons.prems(2) by simp
    have "\<exists>new. es' ! k = es ! k @ new \<and> distinct new \<and> set new = entry_set d records broker_id pos (rt # rts) k" if "k < length es" for k
    proof -
      obtain new where new: "es' ! k = es[n := at es n @ [(s, pos)]] ! k @ new" "distinct new" "set new = entry_set d records broker_id (pos + 1) rts k"
        using IH \<open>k < length es\<close> by blast
      have "(s, pos) \<notin> set new" unfolding new(3) entry_set_def by auto
      then show ?thesis
        using new n Some \<open>n < length es\<close> unfolding entry_set_Cons
        by (cases "k = n") (auto intro!: exI [of _ "if k = n then (s, pos) # new else new"])
    qed
    then show ?thesis using IH n by auto
  qed
qed

section \<open>Merging new entries\<close>

lemma sorted_set_eq: "sorted xs \<Longrightarrow> distinct xs \<Longrightarrow> set xs = S \<Longrightarrow> xs = sorted_list_of_set S"
  using sorted_list_of_set.idem_if_sorted_distinct by metis

lemma merged_log:
  assumes L: "sorted L" "distinct L" and add: "add \<noteq> []" "sorted add" "distinct add" "set add \<inter> set L = {}"
    and p: "p = length (takeWhile (\<lambda>e. e < hd add) L)"
  shows "take p L @ sort (drop p L @ add) = sorted_list_of_set (set L \<union> set (add :: 'a::linorder list))"
proof (rule sorted_set_eq)
  have tk: "take p L = takeWhile (\<lambda>e. e < hd add) L" and dr: "drop p L = dropWhile (\<lambda>e. e < hd add) L"
    unfolding p by (rule takeWhile_eq_take [symmetric], rule dropWhile_eq_drop [symmetric])
  have sd: "sorted (take p L)" "sorted (drop p L)" using L(1) by (simp_all add: sorted_wrt_take sorted_wrt_drop)
  have small: "x < hd add" if x: "x \<in> set (take p L)" for x using set_takeWhileD [OF x [unfolded tk]] by blast
  have big: "hd add \<le> x" if x: "x \<in> set (drop p L @ add)" for x
  proof (cases "x \<in> set add")
    case True
    then show ?thesis using add(1,2) by (cases add) auto
  next
    case False
    then have x: "x \<in> set (drop p L)" using x by simp
    then obtain y ys where y: "drop p L = y # ys" by (cases "drop p L") auto
    have "dropWhile (\<lambda>e. e < hd add) L = y # ys" using y dr by simp
    then have "\<not> y < hd add" by (simp add: dropWhile_eq_Cons_conv)
    moreover have "y \<le> x" using x sd(2) unfolding y by auto
    ultimately show ?thesis by simp
  qed
  have "x \<le> y" if "x \<in> set (take p L)" "y \<in> set (drop p L @ add)" for x y
    using small [OF that(1)] big [OF that(2)] by simp
  then show "sorted (take p L @ sort (drop p L @ add))" using sd unfolding sorted_append by simp
  have "distinct (take p L @ drop p L)" using L(2) by simp
  then have "set (take p L) \<inter> set (drop p L) = {}" unfolding distinct_append by blast
  moreover have U: "set (take p L) \<union> set (drop p L) = set L" by (rule set_take_drop)
  ultimately have "set (take p L) \<inter> set (drop p L @ add) = {}" "set (drop p L) \<inter> set add = {}" using add(4) by auto
  then show "distinct (take p L @ sort (drop p L @ add))"
    unfolding distinct_append distinct_sort set_sort using L(2) add(3) by simp
  from U show "set (take p L @ sort (drop p L @ add)) = set L \<union> set add" by auto
qed

definition kept_log :: "('sk, 'vk) externals \<Rightarrow> record_trust list \<Rightarrow> log_cursor \<Rightarrow> bool" where
  "kept_log X rts c \<longleftrightarrow> sorted (cur_log c) \<and> distinct (cur_log c) \<and> accs c = accs_of X rts (cur_log c) \<and> gap_at c = gap_from 0 (cur_log c)"

lemma merge_entries_exact:
  assumes "kept_log X rts c" "distinct add" "set add \<inter> set (cur_log c) = {}"
  shows "kept_log X rts (merge_entries X rts add c)" "cur_log (merge_entries X rts add c) = sorted_list_of_set (set (cur_log c) \<union> set add)"
    "merge_entries X rts add c = c \<lparr> cur_log := cur_log (merge_entries X rts add c), accs := accs (merge_entries X rts add c), gap_at := gap_at (merge_entries X rts add c) \<rparr>"
proof -
  let ?c = "merge_entries X rts add c" and ?L = "cur_log c"
  note k = assms(1) [unfolded kept_log_def]
  have all: "kept_log X rts ?c \<and> cur_log ?c = sorted_list_of_set (set ?L \<union> set add)
      \<and> ?c = c \<lparr> cur_log := cur_log ?c, accs := accs ?c, gap_at := gap_at ?c \<rparr>"
  proof (cases "add = []")
    case True
    have "?L = sorted_list_of_set (set ?L)" using k sorted_set_eq by blast
    then show ?thesis using True assms(1) by (simp add: merge_entries_def)
  next
    case False
    define p where "p = length (takeWhile (\<lambda>e. e < hd (sort add)) ?L)"
    let ?tail = "sort (drop p ?L @ sort add)"
    have ne: "sort add \<noteq> []" using False by (metis mset_sort mset_zero_iff_right)
    have le: "p \<le> length ?L" unfolding p_def by (rule length_takeWhile_le)
    have m: "take p ?L @ ?tail = sorted_list_of_set (set ?L \<union> set add)"
      using merged_log [of ?L "sort add" p] k ne assms(2,3) p_def by (simp add: Int_commute)
    have "fold_tail X rts p ?tail (take (p + 1) (accs c)) (case gap_at c of None \<Rightarrow> None | Some g \<Rightarrow> if g \<ge> p then None else Some g)
        = (accs_of X rts (take p ?L @ ?tail), gap_from 0 (take p ?L @ ?tail))"
      by (rule fold_tail_exact) (use k le in \<open>simp_all add: accs_of_take [simplified] gap_from_take\<close>)
    then have "?c = c \<lparr> cur_log := take p ?L @ ?tail, accs := accs_of X rts (take p ?L @ ?tail), gap_at := gap_from 0 (take p ?L @ ?tail) \<rparr>"
      using False unfolding merge_entries_def Let_def p_def by simp
    then show ?thesis unfolding kept_log_def m by simp
  qed
  then show "kept_log X rts ?c" "cur_log ?c = sorted_list_of_set (set ?L \<union> set add)"
    "?c = c \<lparr> cur_log := cur_log ?c, accs := accs ?c, gap_at := gap_at ?c \<rparr>" by blast+
qed

section \<open>The log from positions\<close>

lemma sorted_lex:
  assumes "sorted (map fst xs)" "\<And>k. sorted_wrt (\<lambda>a b. snd a \<le> snd b) (filter (\<lambda>x. fst x = k) xs)"
  shows "sorted (xs :: ('a::linorder \<times> 'b::linorder) list)"
  using assms
proof (induction xs)
  case (Cons x xs)
  have "sorted_wrt (\<lambda>a b. snd a \<le> snd b) (filter (\<lambda>x. fst x = k) xs)" for k
    using Cons.prems(2) [of k] by (auto split: if_splits)
  then have "sorted xs" using Cons.IH Cons.prems(1) by simp
  moreover have "x \<le> y" if "y \<in> set xs" for y
    using Cons.prems(1) Cons.prems(2) [of "fst x"] that by (cases y; cases "fst y = fst x") (auto simp: less_eq_prod_def order_less_le)
  ultimately show ?case by simp
qed simp

lemma sort_lex:
  assumes "sorted_wrt (\<lambda>a b. snd a \<le> snd b) (P :: ('a::linorder \<times> 'b::linorder) list)"
  shows "sort P = sort_key fst P"
proof (rule properties_for_sort)
  have "filter (\<lambda>x. fst x = k) (sort_key fst P) = filter (\<lambda>x. fst x = k) P" for k by (rule sort_key_stable)
  then show "sorted (sort_key fst P)" using assms by (intro sorted_lex) (simp_all add: sorted_wrt_filter)
qed simp

lemma map_sort_key: "(\<And>x. g (f x) = h x) \<Longrightarrow> map f (sort_key h xs) = sort_key g (map f xs)"
proof -
  assume eq: "\<And>x. g (f x) = h x"
  have "map f (insort_key h x ys) = insort_key g (f x) (map f ys)" for x ys by (induction ys) (simp_all add: eq)
  then show ?thesis by (induction xs) simp_all
qed

definition position_log :: "record_trust list \<Rightarrow> canon_value list \<Rightarrow> string list \<Rightarrow> string option \<Rightarrow> (int \<times> nat) list" where
  "position_log rts records committed broker_id =
     List.map_filter (\<lambda>k. if rt_content_hash (rts ! k) \<in> set committed then map_option (\<lambda>s. (s, k)) (log_item records broker_id (rts ! k)) else None)
       [0..<length rts]"

lemma map_filter_upt: "List.map_filter f xs = List.map_filter (\<lambda>k. f (xs ! k)) [0..<length xs]"
proof -
  have "List.map_filter f (map ((!) xs) [0..<length xs]) = List.map_filter (\<lambda>k. f (xs ! k)) [0..<length xs]"
    by (simp add: List.map_filter_def filter_map comp_def)
  then show ?thesis by (simp add: map_nth)
qed

lemma map_filter_image: "map f (List.map_filter g xs) = List.map_filter (\<lambda>x. map_option f (g x)) xs"
  by (induction xs) (auto simp: List.map_filter_simps split: option.split)

lemma map_filter_cong: "(\<And>x. x \<in> set xs \<Longrightarrow> f x = g x) \<Longrightarrow> List.map_filter f xs = List.map_filter g xs"
  by (induction xs) (auto simp: List.map_filter_simps split: option.split)

lemma position_log_sorted: "sorted_wrt (\<lambda>a b. snd a < snd b) (position_log rts records committed broker_id)"
proof -
  let ?f = "\<lambda>k. if rt_content_hash (rts ! k) \<in> set committed then map_option (\<lambda>s. (s, k)) (log_item records broker_id (rts ! k)) else None"
  have "sorted_wrt (\<lambda>a b. snd a < snd b) (List.map_filter ?f ks)" if "sorted_wrt (<) ks" for ks
    using that by (induction ks) (auto simp: List.map_filter_simps set_map_filter_iff split: option.splits if_splits)
  then show ?thesis unfolding position_log_def by simp
qed

lemma position_log_facts:
  shows "sorted_wrt (\<lambda>a b. snd a \<le> snd b) (position_log rts records committed broker_id)" "distinct (position_log rts records committed broker_id)"
    "committed_broker_log rts records index frontier broker_id
       = map (\<lambda>(s, p). (s, pos_hash rts p)) (sort (position_log rts records (committed_set records index frontier) broker_id))"
proof -
  show le: "sorted_wrt (\<lambda>a b. snd a \<le> snd b) (position_log rts records committed broker_id)" for committed
    by (rule sorted_wrt_mono_rel [OF _ position_log_sorted]) simp
  have "sorted_wrt (<) (map snd (position_log rts records committed broker_id))" using position_log_sorted by (simp add: sorted_wrt_map)
  then show "distinct (position_log rts records committed broker_id)" by (metis distinct_map strict_sorted_iff)
  let ?C = "committed_set records index frontier"
  have "List.map_filter (log_entry records ?C broker_id) rts = map (\<lambda>(s, p). (s, pos_hash rts p)) (position_log rts records ?C broker_id)"
    unfolding position_log_def map_filter_image map_filter_upt [of "log_entry records ?C broker_id" rts]
    by (rule map_filter_cong) (auto simp: log_entry_item pos_hash_def option.map_comp comp_def)
  then show "committed_broker_log rts records index frontier broker_id
      = map (\<lambda>(s, p). (s, pos_hash rts p)) (sort (position_log rts records ?C broker_id))"
    unfolding committed_broker_log_def sort_lex [OF le] by (subst map_sort_key [where g = fst]) (auto simp: split_beta)
qed

section \<open>The cursor\<close>

text \<open>An index puts an entry in one node only.\<close>

definition index_ok :: "log_index \<Rightarrow> bool" where
  "index_ok idx \<longleftrightarrow>
     length (idx_entries idx) = length (node_parents (idx_dag idx))
     \<and> (\<forall>x<length (idx_entries idx). distinct (idx_entries idx ! x))
     \<and> (\<forall>x<length (idx_entries idx). \<forall>y<length (idx_entries idx). x \<noteq> y \<longrightarrow> set (idx_entries idx ! x) \<inter> set (idx_entries idx ! y) = {})"

definition node_log :: "log_index \<Rightarrow> nat set \<Rightarrow> (int \<times> nat) set" where
  "node_log idx S = (\<Union>x\<in>S. set (idx_entries idx ! x))"

definition cursor_rel :: "log_cursor \<Rightarrow> (nat \<times> nat) set" where
  "cursor_rel c = node_rel (node_parents (idx_dag (cur_idx c)))"

text \<open>The invariant: the marks are the closure of the last frontier and the kept log is the log of the marks.\<close>

definition cursor_ok :: "('sk, 'vk) externals \<Rightarrow> record_trust list \<Rightarrow> log_cursor \<Rightarrow> bool" where
  "cursor_ok X rts c \<longleftrightarrow>
     marks_ok c \<and> index_ok (cur_idx c) \<and> kept_log X rts c
     \<and> prev_nodes c = (cursor_rel c)\<^sup>* `` set (prev_front c)
     \<and> cur_log c = sorted_list_of_set (node_log (cur_idx c) (prev_nodes c))"

lemma prev_nodes_bound: "marks_ok c \<Longrightarrow> x \<in> prev_nodes c \<Longrightarrow> x < length (node_parents (idx_dag (cur_idx c)))"
  by (auto simp: marks_ok_def prev_nodes_def Let_def)

lemma prev_nodes_finite [simp]: "finite (prev_nodes c)"
  by (simp add: prev_nodes_def)

lemma node_log_finite [simp]: "finite S \<Longrightarrow> finite (node_log idx S)"
  by (simp add: node_log_def)

lemma node_log_Un: "node_log idx (S \<union> T) = node_log idx S \<union> node_log idx T"
  by (auto simp: node_log_def)

lemma node_log_disjoint:
  assumes "index_ok idx" "S \<inter> T = {}" "\<forall>x\<in>S. x < length (node_parents (idx_dag idx))" "\<forall>x\<in>T. x < length (node_parents (idx_dag idx))"
  shows "node_log idx S \<inter> node_log idx T = {}"
proof -
  have "set (idx_entries idx ! x) \<inter> set (idx_entries idx ! y) = {}" if "x \<in> S" "y \<in> T" for x y
    using assms that unfolding index_ok_def by (metis IntI empty_iff)
  then show ?thesis unfolding node_log_def by blast
qed

lemma fresh_entries:
  assumes "index_ok idx" "distinct xs" "\<forall>x\<in>set xs. x < length (node_parents (idx_dag idx))"
  shows "distinct (concat (map (at (idx_entries idx)) xs))" "set (concat (map (at (idx_entries idx)) xs)) = node_log idx (set xs)"
proof -
  show "set (concat (map (at (idx_entries idx)) xs)) = node_log idx (set xs)"
    using assms by (auto simp: index_ok_def node_log_def)
  show "distinct (concat (map (at (idx_entries idx)) xs))"
    using assms(2,3)
  proof (induction xs)
    case (Cons x xs)
    have "set (idx_entries idx ! x) \<inter> set (idx_entries idx ! y) = {}" if "y \<in> set xs" for y
      using assms(1) Cons.prems that unfolding index_ok_def by (metis distinct.simps(2) list.set_intros)
    then show ?case using assms(1) Cons unfolding index_ok_def by auto
  qed simp
qed

lemma fold_mark:
  "length (fold (\<lambda>x b. b[x := True]) xs b) = length b
   \<and> (\<forall>y<length b. fold (\<lambda>x b. b[x := True]) xs b ! y \<longleftrightarrow> b ! y \<or> y \<in> set xs)"
proof (induction xs arbitrary: b)
  case (Cons x xs)
  then show ?case using Cons.IH [of "b[x := True]"] by (cases "x < length b") (auto simp: nth_list_update)
qed simp

lemma cursor_walk_ok:
  assumes "cursor_ok X rts c" "cursor_walk c front = (c1, fresh)" "\<forall>x\<in>set front. x < length (node_parents (idx_dag (cur_idx c)))"
  shows "c1 = c \<lparr> gen := gen c1, visit := visit c1, hit := hit c1 \<rparr>" "marks_ok c1"
    "distinct fresh" "set fresh = (cursor_rel c)\<^sup>* `` set front - prev_nodes c"
    "\<forall>m<length (node_parents (idx_dag (cur_idx c))). hit c1 ! m = gen c1 \<longrightarrow> m \<in> (cursor_rel c)\<^sup>* `` set front"
proof -
  have m: "marks_ok c" using assms(1) by (simp add: cursor_ok_def)
  have cl: "\<And>x y. x \<in> prev_nodes c \<Longrightarrow> (x, y) \<in> node_rel (node_parents (idx_dag (cur_idx c))) \<Longrightarrow> y \<in> prev_nodes c"
    using assms(1) unfolding cursor_ok_def cursor_rel_def by (auto intro: rtrancl_into_rtrancl)
  note W = cursor_walk_spec [OF assms(2) m refl cl assms(3), folded cursor_rel_def]
  show "c1 = c \<lparr> gen := gen c1, visit := visit c1, hit := hit c1 \<rparr>" by (rule W(1))
  show "marks_ok c1" by (rule W(2))
  show "distinct fresh" by (rule W(3))
  show "set fresh = (cursor_rel c)\<^sup>* `` set front - prev_nodes c" by (rule W(4))
  show "\<forall>m<length (node_parents (idx_dag (cur_idx c))). hit c1 ! m = gen c1 \<longrightarrow> m \<in> (cursor_rel c)\<^sup>* `` set front" by (rule W(5))
qed

lemma cursor_settle:
  assumes ok: "cursor_ok X rts c" and walk: "cursor_walk c front = (c1, fresh)"
    and front: "\<forall>x\<in>set front. x < length (node_parents (idx_dag (cur_idx c)))"
    and sub: "prev_nodes c \<subseteq> (cursor_rel c)\<^sup>* `` set front"
    and c2: "c2 = c1 \<lparr> in_prev := fold (\<lambda>x b. b[x := True]) fresh (in_prev c1), prev_front := front \<rparr>"
    and c3: "c3 = merge_entries X rts (concat (map (at (idx_entries (cur_idx c2))) fresh)) c2"
  shows "cursor_ok X rts c3 \<and> cur_idx c3 = cur_idx c \<and> prev_front c3 = front"
proof -
  let ?R = "(cursor_rel c)\<^sup>* `` set front"
  have m: "marks_ok c" "index_ok (cur_idx c)" "kept_log X rts c" using ok by (simp_all add: cursor_ok_def)
  note W = cursor_walk_ok [OF ok walk front]
  note c1 = W(1) and m1 = W(2) and fr = W(3,4)
  have same: "cur_idx c1 = cur_idx c" "cur_log c1 = cur_log c" "accs c1 = accs c" "gap_at c1 = gap_at c" "in_prev c1 = in_prev c"
    by (subst c1, simp)+
  have rng: "x < length (in_prev c)" if "x \<in> ?R" for x
  proof -
    from that obtain f where "f \<in> set front" "(f, x) \<in> (cursor_rel c)\<^sup>*" by blast
    from this(2,1) have "x < length (node_parents (idx_dag (cur_idx c)))"
      by (induction rule: rtrancl_induct) (use front m(1) in \<open>auto simp: marks_ok_def Let_def cursor_rel_def node_rel_def\<close>)
    then show ?thesis using m(1) by (simp add: marks_ok_def Let_def)
  qed
  have p2: "prev_nodes c2 = ?R"
  proof -
    have "x \<in> prev_nodes c2 \<longleftrightarrow> x < length (in_prev c) \<and> (in_prev c ! x \<or> x \<in> set fresh)" for x
      using fold_mark [of fresh "in_prev c"] unfolding prev_nodes_def c2 by (auto simp: same)
    then have "prev_nodes c2 = prev_nodes c \<union> set fresh" using fr(2) rng by (auto simp: prev_nodes_def)
    then show ?thesis using fr(2) sub by blast
  qed
  have m2: "marks_ok c2" "kept_log X rts c2" "cur_idx c2 = cur_idx c" "cur_log c2 = cur_log c"
    using m1 m(3) same fold_mark [of fresh "in_prev c"] unfolding c2 marks_ok_def kept_log_def Let_def by simp_all
  let ?add = "concat (map (at (idx_entries (cur_idx c2))) fresh)"
  have "cur_log c = sorted_list_of_set (node_log (cur_idx c) (prev_nodes c))" using ok unfolding cursor_ok_def by blast
  then have L: "set (cur_log c) = node_log (cur_idx c) (prev_nodes c)" by simp
  have bound: "\<forall>x\<in>set fresh. x < length (node_parents (idx_dag (cur_idx c2)))"
    using fr(2) rng m(1) unfolding m2(3) by (auto simp: marks_ok_def Let_def)
  note A = fresh_entries [OF _ fr(1) bound, unfolded m2(3), OF m(2)]
  have "set ?add \<inter> set (cur_log c2) = {}"
    unfolding m2(3,4) A(2) L using fr(2) bound prev_nodes_bound [OF m(1)] m2(3) by (intro node_log_disjoint [OF m(2)]) auto
  note M = merge_entries_exact [OF m2(2) A(1) [folded m2(3)] this, folded c3]
  have "set (cur_log c2) \<union> set ?add = node_log (cur_idx c) ?R"
    unfolding m2(3,4) A(2) L node_log_Un [symmetric] fr(2) using sub by (simp add: Un_absorb1 Un_commute)
  then have "cur_log c3 = sorted_list_of_set (node_log (cur_idx c) ?R)" using M(2) by simp
  moreover obtain lg ac gp where keep: "c3 = c2 \<lparr> cur_log := lg, accs := ac, gap_at := gp \<rparr>" using M(3) by blast
  have "in_prev c3 = in_prev c2" "prev_front c3 = front" "cur_idx c3 = cur_idx c" "visit c3 = visit c2" "hit c3 = hit c2" "gen c3 = gen c2"
    unfolding keep using m2(3) by (simp_all add: c2)
  moreover from this(1,3-6) have "prev_nodes c3 = ?R" "cursor_rel c3 = cursor_rel c" "marks_ok c3"
    using p2 m2 by (simp_all add: prev_nodes_def cursor_rel_def marks_ok_def)
  ultimately show ?thesis using M(1) m(2) unfolding cursor_ok_def by simp
qed

lemma unmarked [simp]: "{x. x < n \<and> replicate n False ! x} = {}"
  by auto

lemma cursor_ok_new: "index_ok idx \<Longrightarrow> \<forall>x<length (node_parents (idx_dag idx)). \<forall>y\<in>set (node_parents (idx_dag idx) ! x). y < length (node_parents (idx_dag idx))
    \<Longrightarrow> cursor_ok X rts (cursor_new X idx)"
  by (simp add: cursor_ok_def cursor_new_def marks_ok_def kept_log_def prev_nodes_def node_log_def accs_of_def acc_of_def Let_def)

lemma cursor_ok_reset:
  assumes "marks_ok c" "index_ok (cur_idx c)" "kept_log X rts c"
  shows "cursor_ok X rts (cursor_reset c)"
proof -
  have "take 1 (accs c) = accs_of X rts []"
    using assms(3) accs_of_take [of 0 "cur_log c" X rts] by (simp add: kept_log_def)
  moreover have "prev_nodes (cursor_reset c) = {}" unfolding prev_nodes_def by (auto simp: cursor_reset_def)
  moreover have "marks_ok (cursor_reset c)" using assms(1) by (simp add: cursor_reset_def marks_ok_def Let_def)
  ultimately show ?thesis using assms(2)
    unfolding cursor_ok_def kept_log_def by (simp add: cursor_reset_def node_log_def)
qed

theorem advance_ok:
  assumes ok: "cursor_ok X rts c" and adv: "advance X c frontier rts = (c', st)"
    and front: "front = List.map_filter (map_of (node_of (idx_dag (cur_idx c)))) frontier"
    and rng: "\<forall>x\<in>set front. x < length (node_parents (idx_dag (cur_idx c)))"
  shows "cursor_ok X rts c'" "cur_idx c' = cur_idx c" "prev_front c' = front"
    "st = \<lparr> log_n = int (length (cur_log c')), log_gapless = (gap_at c' = None),
            log_root = ''sha256:'' @ hex_lower (at (accs c') (length (cur_log c'))) \<rparr>"
proof -
  obtain c1 fresh1 where w1: "cursor_walk c front = (c1, fresh1)" by fastforce
  note W = cursor_walk_ok [OF ok w1 rng]
  have same: "cur_idx c1 = cur_idx c" "prev_front c1 = prev_front c" "kept_log X rts c1"
    using ok by (subst W(1), simp add: kept_log_def cursor_ok_def)+
  let ?hit = "list_all (\<lambda>m. at (hit c1) m = gen c1) (prev_front c1)"
  obtain c2 fresh2 where w2: "(if ?hit then (c1, fresh1) else cursor_walk (cursor_reset c1) front) = (c2, fresh2)" by fastforce
  define c3 where "c3 = c2 \<lparr> in_prev := fold (\<lambda>x b. b[x := True]) fresh2 (in_prev c2), prev_front := front \<rparr>"
  define c4 where "c4 = merge_entries X rts (concat (map (at (idx_entries (cur_idx c3))) fresh2)) c3"
  have c': "c' = c4" and st: "st = \<lparr> log_n = int (length (cur_log c4)), log_gapless = (gap_at c4 = None),
            log_root = ''sha256:'' @ hex_lower (at (accs c4) (length (cur_log c4))) \<rparr>"
    using adv w1 w2 unfolding advance_def front [symmetric] Let_def c4_def c3_def by auto
  have "cursor_ok X rts c4 \<and> cur_idx c4 = cur_idx c \<and> prev_front c4 = front"
  proof (cases ?hit)
    case True
    have "m \<in> (cursor_rel c)\<^sup>* `` set front" if "m \<in> set (prev_front c)" for m
    proof -
      have "m \<in> prev_nodes c" using ok that unfolding cursor_ok_def by blast
      then have "m < length (node_parents (idx_dag (cur_idx c)))" using ok prev_nodes_bound unfolding cursor_ok_def by blast
      moreover from this have "m < length (hit c1)" using W(2) same(1) by (simp add: marks_ok_def Let_def)
      moreover from this have "hit c1 ! m = gen c1" using True that unfolding list_all_iff same(2) by fastforce
      ultimately show ?thesis using W(5) by blast
    qed
    then have "(cursor_rel c)\<^sup>* `` set (prev_front c) \<subseteq> (cursor_rel c)\<^sup>* `` set front" by (blast intro: rtrancl_trans)
    then have "prev_nodes c \<subseteq> (cursor_rel c)\<^sup>* `` set front" using ok unfolding cursor_ok_def by blast
    moreover have "c2 = c1" "fresh2 = fresh1" using w2 True by simp_all
    ultimately show ?thesis using cursor_settle [OF ok w1 rng] c3_def c4_def by blast
  next
    case False
    have "cursor_ok X rts (cursor_reset c1)" using cursor_ok_reset W(2) same ok unfolding cursor_ok_def by metis
    moreover have "cursor_walk (cursor_reset c1) front = (c2, fresh2)" using w2 False by simp
    moreover have "cur_idx (cursor_reset c1) = cur_idx c" "prev_nodes (cursor_reset c1) = {}"
      using same(1) by (simp_all add: cursor_reset_def prev_nodes_def)
    ultimately show ?thesis using cursor_settle [of X rts "cursor_reset c1" front c2 fresh2 c3 c4] rng c3_def c4_def by simp
  qed
  then show "cursor_ok X rts c'" "cur_idx c' = cur_idx c" "prev_front c' = front" unfolding c' by blast+
  show "st = \<lparr> log_n = int (length (cur_log c')), log_gapless = (gap_at c' = None),
      log_root = ''sha256:'' @ hex_lower (at (accs c') (length (cur_log c'))) \<rparr>" unfolding c' by (rule st)
qed

section \<open>The cursor and the log from scratch\<close>

lemma log_index_facts:
  assumes "log_index_build d rts records broker_id = Some idx" "numbering records index d hash_at n"
  shows "idx_dag idx = d" "index_ok idx" "\<And>x. x < n \<Longrightarrow> set (idx_entries idx ! x) = entry_set d records broker_id 0 rts x"
    "\<And>rt. rt \<in> set rts \<Longrightarrow> log_item records broker_id rt \<noteq> None \<Longrightarrow> map_of (node_of d) (rt_content_hash rt) \<noteq> None"
proof -
  obtain es where es: "index_entries d records broker_id 0 rts (replicate n []) = Some es" and idx: "idx = \<lparr> idx_dag = d, idx_entries = es \<rparr>"
    using assms unfolding log_index_build_def numbering_def by auto
  have "\<And>h x. map_of (node_of d) h = Some x \<Longrightarrow> x < length (replicate n ([] :: (int \<times> nat) list))"
    using assms(2) by (simp add: numbering_def)
  note F = index_entries_facts [OF es this, simplified]
  have len: "length (node_parents d) = n" using assms(2) by (simp add: numbering_def)
  show "idx_dag idx = d" by (simp add: idx)
  show set_es: "\<And>x. x < n \<Longrightarrow> set (idx_entries idx ! x) = entry_set d records broker_id 0 rts x" using F by (simp add: idx)
  have "entry_set d records broker_id 0 rts x \<inter> entry_set d records broker_id 0 rts y = {}" if "x \<noteq> y" for x y
    using that by (auto simp: entry_set_def)
  then show "index_ok idx" using F set_es len unfolding index_ok_def idx by simp
  show "\<And>rt. rt \<in> set rts \<Longrightarrow> log_item records broker_id rt \<noteq> None \<Longrightarrow> map_of (node_of d) (rt_content_hash rt) \<noteq> None"
    using F by auto
qed

lemma node_log_committed:
  assumes idx: "log_index_build d rts records broker_id = Some idx" and N: "numbering records index d hash_at n"
  shows "node_log idx ((node_rel (node_parents d))\<^sup>* `` set (List.map_filter (map_of (node_of d)) frontier))
    = set (position_log rts records (committed_set records index frontier) broker_id)"
proof (rule set_eqI)
  fix e :: "int \<times> nat"
  let ?R = "(node_rel (node_parents d))\<^sup>* `` set (List.map_filter (map_of (node_of d)) frontier)"
  let ?C = "set (committed_set records index frontier)"
  obtain s p where e: "e = (s, p)" by fastforce
  note F = log_index_facts [OF idx N]
  have look: "map_of (node_of d) h = Some x \<longleftrightarrow> x < n \<and> hash_at x = h" for h x using N by (simp add: numbering_def)
  have R: "x < n" if "x \<in> ?R" for x
  proof -
    from that obtain y where "y < n" "(y, x) \<in> (node_rel (node_parents d))\<^sup>*"
      unfolding Image_iff set_map_filter_iff Bex_def look by blast
    from this(2,1) show ?thesis
      by (induction rule: rtrancl_induct) (use N in \<open>auto simp: numbering_def node_rel_def\<close>)
  qed
  have item: "(\<exists>x\<in>?R. map_of (node_of d) (rt_content_hash (rts ! p)) = Some x) \<longleftrightarrow> rt_content_hash (rts ! p) \<in> ?C"
    if p: "p < length rts" "log_item records broker_id (rts ! p) = Some s"
  proof -
    obtain x where x: "x < n" "hash_at x = rt_content_hash (rts ! p)" "map_of (node_of d) (rt_content_hash (rts ! p)) = Some x"
      using F(4) [of "rts ! p"] p look by fastforce
    then show ?thesis using committed_nodes [OF N x(1), of frontier] by simp
  qed
  have "e \<in> node_log idx ?R \<longleftrightarrow> (\<exists>x\<in>?R. e \<in> entry_set d records broker_id 0 rts x)" using F(3) R unfolding node_log_def by auto
  also have "\<dots> \<longleftrightarrow> p < length rts \<and> log_item records broker_id (rts ! p) = Some s \<and> rt_content_hash (rts ! p) \<in> ?C"
    using item by (auto simp: entry_set_def e)
  also have "\<dots> \<longleftrightarrow> e \<in> set (position_log rts records (committed_set records index frontier) broker_id)"
    unfolding position_log_def set_map_filter_iff by (auto simp: e split: if_splits)
  finally show "e \<in> node_log idx ?R \<longleftrightarrow> e \<in> set (position_log rts records (committed_set records index frontier) broker_id)" .
qed

definition cursor_after :: "('sk, 'vk) externals \<Rightarrow> log_index \<Rightarrow> record_trust list \<Rightarrow> string list list \<Rightarrow> log_cursor" where
  "cursor_after X idx rts frontiers = fold (\<lambda>f c. fst (advance X c f rts)) frontiers (cursor_new X idx)"

lemma cursor_after_ok:
  assumes idx: "log_index_build d rts records broker_id = Some idx" and N: "numbering records index d hash_at n"
  shows "cursor_ok X rts (cursor_after X idx rts frontiers) \<and> cur_idx (cursor_after X idx rts frontiers) = idx"
proof (induction frontiers rule: rev_induct)
  case Nil
  have "cur_idx (cursor_new X idx) = idx" by (simp add: cursor_new_def Let_def)
  moreover have "cursor_ok X rts (cursor_new X idx)"
    using N log_index_facts(1,2) [OF idx N] by (intro cursor_ok_new) (auto simp: numbering_def)
  ultimately show ?case by (simp add: cursor_after_def)
next
  case (snoc f frontiers)
  let ?c = "cursor_after X idx rts frontiers"
  obtain c' st where a: "advance X ?c f rts = (c', st)" by fastforce
  have "\<forall>x\<in>set (List.map_filter (map_of (node_of (idx_dag (cur_idx ?c)))) f). x < length (node_parents (idx_dag (cur_idx ?c)))"
    using snoc N log_index_facts(1) [OF idx N] by (auto simp: set_map_filter_iff numbering_def)
  then have "cursor_ok X rts c' \<and> cur_idx c' = idx" using advance_ok [OF _ a refl] snoc by simp
  then show ?case using a by (simp add: cursor_after_def)
qed

text \<open>C17: The incremental cursor is exact. However many frontiers it has gone through, and whether they
  grew or not, the next \<open>advance\<close> returns the length, the gap status and the root of the broker log
  that \<open>committed_broker_log\<close> computes from scratch for that frontier.
\<close>

theorem cursor_exact:
  assumes "bt_wf index" "dag_index_build records index topo = Some d" "log_index_build d rts records broker_id = Some idx"
  shows "snd (advance X (cursor_after X idx rts frontiers) frontier rts)
    = (let L = committed_broker_log rts records index frontier broker_id
       in \<lparr> log_n = int (length L), log_gapless = (map fst L = map (\<lambda>k. int k + 1) [0..<length L]), log_root = grant_head_root X L \<rparr>)"
proof -
  let ?c = "cursor_after X idx rts frontiers" and ?P = "position_log rts records (committed_set records index frontier) broker_id"
  let ?L = "committed_broker_log rts records index frontier broker_id"
  note N = dag_index_numbering [OF assms(2,1)]
  note F = log_index_facts(1) [OF assms(3) N]
  obtain c' st where a: "advance X ?c frontier rts = (c', st)" by fastforce
  have ok: "cursor_ok X rts ?c" "cur_idx ?c = idx" using cursor_after_ok [OF assms(3) N, of X frontiers] by (rule conjunct1, rule conjunct2)
  have "\<forall>x\<in>set (List.map_filter (map_of (node_of (idx_dag (cur_idx ?c)))) frontier). x < length (node_parents (idx_dag (cur_idx ?c)))"
    using N F ok(2) by (auto simp: set_map_filter_iff numbering_def)
  note A = advance_ok [OF ok(1) a refl this, unfolded ok(2) F]
  have "cur_log c' = sorted_list_of_set (node_log idx (prev_nodes c'))" "prev_nodes c' = (cursor_rel c')\<^sup>* `` set (prev_front c')"
    and kept: "kept_log X rts c'" using A(1,2) unfolding cursor_ok_def by simp_all
  then have "cur_log c' = sorted_list_of_set (set ?P)"
    using node_log_committed [OF assms(3) N] A(2,3) F by (simp add: cursor_rel_def)
  also have "\<dots> = sort ?P" using position_log_facts(2) by (intro sorted_set_eq [symmetric]) auto
  finally have log: "?L = map (\<lambda>(s, p). (s, pos_hash rts p)) (cur_log c')" using position_log_facts(3) by simp
  then have "map fst ?L = map fst (cur_log c')" "length ?L = length (cur_log c')" by (simp_all add: split_beta comp_def)
  then have "(gap_at c' = None) \<longleftrightarrow> map fst ?L = map (\<lambda>k. int k + 1) [0..<length ?L]"
    using kept gap_from_None [of 0 "cur_log c'"] unfolding kept_log_def by simp
  moreover have "''sha256:'' @ hex_lower (at (accs c') (length (cur_log c'))) = grant_head_root X ?L"
    using kept unfolding kept_log_def log acc_of_root [symmetric] by simp
  ultimately show ?thesis using a A(4) \<open>length ?L = length (cur_log c')\<close> by (simp add: Let_def)
qed

text \<open>A grant and its void, and a frontier that goes back before it goes on.\<close>

definition log_records :: "canon_value list" where
  "log_records =
     [Object [(''causal_prev_hashes'', Array []),
        (''extensions'', Object [(''broker'', Object [(''grant_evidence'', Object [(''broker_seq'', CInt 1)])])])],
      Object [(''causal_prev_hashes'', Array [Str ''a'', Str ''lost'']),
        (''extensions'', Object [(''broker'', Object [(''void_evidence'', Object [(''broker_seq'', CInt 2)])])])]]"

definition log_trusts :: "record_trust list" where
  "log_trusts =
     [\<lparr> rt_index = 1, rt_record_id = ''v'', rt_content_hash = ''b'', rt_broker_role = ''grant_void'' \<rparr>,
      \<lparr> rt_index = 0, rt_record_id = ''g'', rt_content_hash = ''a'', rt_broker_role = ''broker'' \<rparr>]"

definition log_dag :: dag_index where
  "log_dag = \<lparr> node_of = [(''a'', 0), (''b'', 1)], node_parents = [[], [0]] \<rparr>"

definition log_built :: log_index where
  "log_built = \<lparr> idx_dag = log_dag, idx_entries = [[(1, 1)], [(2, 0)]] \<rparr>"

lemma log_dag_built: "dag_index_build log_records [(''a'', 0), (''b'', 1)] [''a'', ''b''] = Some log_dag"
  by code_simp

lemma log_built_built: "log_index_build log_dag log_trusts log_records None = Some log_built"
  by code_simp

lemma log_from_scratch: "committed_broker_log log_trusts log_records [(''a'', 0), (''b'', 1)] [''b''] None = [(1, ''a''), (2, ''b'')]"
  by code_simp

theorem cursor_exact_witness:
  "snd (advance demo (cursor_after demo log_built log_trusts [[''b''], [''a'']]) [''b''] log_trusts)
    = \<lparr> log_n = 2, log_gapless = True, log_root = grant_head_root demo [(1, ''a''), (2, ''b'')] \<rparr>"
proof -
  have "bt_wf [(''a'', 0 :: nat), (''b'', 1)]" by code_simp
  from cursor_exact [OF this log_dag_built log_built_built, of demo "[[''b''], [''a'']]" "[''b'']"]
  show ?thesis unfolding log_from_scratch Let_def by (simp add: upt_rec)
qed

section \<open>Which frontiers commit an entry\<close>

text \<open>A pass over the nodes in their order sees every parent before its children.\<close>

lemma reach_pass:
  assumes "length es = length ps" "\<forall>x<length ps. \<forall>y\<in>set (ps ! x). y < x"
    and P: "\<And>x. x < length ps \<Longrightarrow> P x \<longleftrightarrow> es ! x \<noteq> [] \<or> (\<exists>y\<in>set (ps ! x). P y)"
    and "k \<le> length ps" "length r = length ps" "r' = fold (\<lambda>x r. r[x := at es x \<noteq> [] \<or> list_ex (at r) (at ps x)]) [0..<k] r"
  shows "length r' = length ps \<and> (\<forall>x<k. r' ! x \<longleftrightarrow> P x)"
  using assms(4,6)
proof (induction k arbitrary: r')
  case (Suc k)
  define r0 where "r0 = fold (\<lambda>x r. r[x := at es x \<noteq> [] \<or> list_ex (at r) (at ps x)]) [0..<k] r"
  have k: "k < length ps" and IH: "length r0 = length ps" "\<And>x. x < k \<Longrightarrow> r0 ! x \<longleftrightarrow> P x" using Suc r0_def by simp_all
  have "\<forall>y\<in>set (ps ! k). y < k" using assms(2) k by blast
  then have "list_ex (at r0) (ps ! k) \<longleftrightarrow> (\<exists>y\<in>set (ps ! k). P y)" unfolding list_ex_iff using IH k by (intro bex_cong) auto
  moreover have "r' = r0[k := at es k \<noteq> [] \<or> list_ex (at r0) (at ps k)]" using Suc.prems(2) by (simp add: r0_def)
  ultimately have "r' = r0[k := P k]" using P [OF k] k assms(1) by simp
  then show ?case using IH k by (auto simp: nth_list_update less_Suc_eq)
qed (use assms(5) in simp)

lemma reach_exact:
  assumes "index_ok idx" "\<forall>x<length (node_parents (idx_dag idx)). \<forall>y\<in>set (node_parents (idx_dag idx) ! x). y < x"
  shows "length (reach idx) = length (node_parents (idx_dag idx))"
    and "\<And>x. x < length (node_parents (idx_dag idx)) \<Longrightarrow>
      reach idx ! x \<longleftrightarrow> node_log idx ((node_rel (node_parents (idx_dag idx)))\<^sup>* `` {x}) \<noteq> {}"
proof -
  let ?ps = "node_parents (idx_dag idx)" and ?es = "idx_entries idx"
  let ?R = "node_rel ?ps"
  have P: "node_log idx (?R\<^sup>* `` {x}) \<noteq> {} \<longleftrightarrow> ?es ! x \<noteq> [] \<or> (\<exists>y\<in>set (?ps ! x). node_log idx (?R\<^sup>* `` {y}) \<noteq> {})" if x: "x < length ?ps" for x
  proof -
    have "?R\<^sup>* `` {x} = insert x (\<Union>y\<in>set (?ps ! x). ?R\<^sup>* `` {y})"
      using x by (auto simp: node_rel_def intro: converse_rtrancl_into_rtrancl elim: converse_rtranclE)
    then have "node_log idx (?R\<^sup>* `` {x}) = set (?es ! x) \<union> (\<Union>y\<in>set (?ps ! x). node_log idx (?R\<^sup>* `` {y}))"
      unfolding node_log_def by auto
    then show ?thesis by auto
  qed
  have len: "length ?es = length ?ps" using assms(1) by (simp add: index_ok_def)
  have "length (replicate (length ?ps) False) = length ?ps" by simp
  from reach_pass [OF len assms(2) P order_refl this reach_def]
  show "length (reach idx) = length ?ps" "\<And>x. x < length ?ps \<Longrightarrow> reach idx ! x \<longleftrightarrow> node_log idx (?R\<^sup>* `` {x}) \<noteq> {}" by blast+
qed

text \<open>\<open>commits_any\<close> answers, from one pass over the graph, whether the broker log that a frontier commits
  is non-empty, for every frontier.
\<close>

theorem commits_any_exact:
  assumes "bt_wf index" "dag_index_build records index topo = Some d" "log_index_build d rts records broker_id = Some idx"
  shows "commits_any idx (reach idx) frontier \<longleftrightarrow> committed_broker_log rts records index frontier broker_id \<noteq> []"
proof -
  note N = dag_index_numbering [OF assms(2,1)]
  note F = log_index_facts [OF assms(3) N]
  let ?R = "node_rel (node_parents d)" and ?S = "set (List.map_filter (map_of (node_of d)) frontier)"
  have down: "\<forall>x<length (node_parents d). \<forall>y\<in>set (node_parents d ! x). y < x"
    and look: "\<And>h x. map_of (node_of d) h = Some x \<Longrightarrow> x < length (node_parents d)" using N by (simp_all add: numbering_def)
  note R = reach_exact [OF F(2), unfolded F(1), OF down]
  have "(case map_of (node_of d) f of Some n \<Rightarrow> at (reach idx) n | None \<Rightarrow> False) \<longleftrightarrow> (\<exists>x. map_of (node_of d) f = Some x \<and> reach idx ! x)" for f
    using look [of f] R(1) by (cases "map_of (node_of d) f") simp_all
  then have "commits_any idx (reach idx) frontier \<longleftrightarrow> (\<exists>x\<in>?S. reach idx ! x)"
    unfolding commits_any_def list_ex_iff F(1) Bex_def set_map_filter_iff by auto
  also have "\<dots> \<longleftrightarrow> (\<exists>x\<in>?S. node_log idx (?R\<^sup>* `` {x}) \<noteq> {})"
    using R(2) look unfolding Bex_def set_map_filter_iff by blast
  also have "\<dots> \<longleftrightarrow> node_log idx (?R\<^sup>* `` ?S) \<noteq> {}" unfolding node_log_def by blast
  also have "\<dots> \<longleftrightarrow> committed_broker_log rts records index frontier broker_id \<noteq> []"
    unfolding node_log_committed [OF assms(3) N] position_log_facts(3) using set_sort by (metis map_is_Nil_conv set_empty)
  finally show ?thesis .
qed

theorem commits_any_exact_witness:
  "commits_any log_built (reach log_built) [''b''] \<and> \<not> commits_any log_built (reach log_built) [''lost'']"
proof -
  have "bt_wf [(''a'', 0 :: nat), (''b'', 1)]" by code_simp
  note E = commits_any_exact [OF this log_dag_built log_built_built]
  have "committed_broker_log log_trusts log_records [(''a'', 0), (''b'', 1)] [''lost''] None = []" by code_simp
  then show ?thesis using E [of "[''b'']"] E [of "[''lost'']"] log_from_scratch by simp
qed

end
