(* ===== verification/Anchor_Times.thy ===== *)
theory Anchor_Times
  imports Committed_Exact
begin

text \<open>
  \<open>min_anchor_times\<close> of \<open>core/src/verify/committed.rs\<close> is exact: one pass from the newest node to the
  oldest gives every record the earliest anchor time among the anchors whose checkpoint commits it.
\<close>

definition opt_Min :: "'a::linorder set \<Rightarrow> 'a option" where
  "opt_Min A = (if A = {} then None else Some (Min A))"

definition lower :: "'a::linorder \<Rightarrow> 'a option \<Rightarrow> 'a option" where
  "lower t o' = (if (case o' of None \<Rightarrow> True | Some cur \<Rightarrow> t < cur) then Some t else o')"

definition lower_at :: "'a::linorder \<Rightarrow> nat \<Rightarrow> 'a option list \<Rightarrow> 'a option list" where
  "lower_at t p m = (if (case at m p of None \<Rightarrow> True | Some cur \<Rightarrow> t < cur) then m[p := Some t] else m)"

lemma lower_opt_Min: "finite A \<Longrightarrow> lower t (opt_Min A) = opt_Min (insert t A)"
proof (cases "A = {}")
  case False
  assume "finite A"
  then have "Min (insert t A) = min t (Min A)" using False by simp
  then show ?thesis using False by (auto simp: lower_def opt_Min_def min_def)
qed (simp add: lower_def opt_Min_def)

lemma lower_twice [simp]: "lower t (lower t x) = lower t x"
  by (auto simp: lower_def split: option.splits)

lemma lower_at_nth: "p < length m \<Longrightarrow> length (lower_at t p m) = length m \<and> (\<forall>y<length m. lower_at t p m ! y = (if y = p then lower t (m ! y) else m ! y))"
  by (auto simp: lower_at_def lower_def nth_list_update)

lemma fold_lower_at:
  assumes "\<forall>p\<in>set ps. p < length m"
  shows "length (fold (lower_at t) ps m) = length m"
    and "\<And>y. y < length m \<Longrightarrow> fold (lower_at t) ps m ! y = (if y \<in> set ps then lower t (m ! y) else m ! y)"
proof -
  have "length (fold (lower_at t) ps m) = length m \<and> (\<forall>y<length m. fold (lower_at t) ps m ! y = (if y \<in> set ps then lower t (m ! y) else m ! y))"
    using assms
  proof (induction ps arbitrary: m)
    case (Cons p ps)
    note l = lower_at_nth [of p m t]
    have IH: "length (fold (lower_at t) ps (lower_at t p m)) = length m
        \<and> (\<forall>y<length m. fold (lower_at t) ps (lower_at t p m) ! y = (if y \<in> set ps then lower t (lower_at t p m ! y) else lower_at t p m ! y))"
      using Cons.IH [of "lower_at t p m"] Cons.prems l by simp
    then show ?case using Cons.prems l by simp
  qed simp
  then show "length (fold (lower_at t) ps m) = length m"
    "\<And>y. y < length m \<Longrightarrow> fold (lower_at t) ps m ! y = (if y \<in> set ps then lower t (m ! y) else m ! y)" by blast+
qed

text \<open>Steps of the two passes.\<close>

lemma seed_anchor_nodes:
  "seed_anchor d is_canonical (ts, frontier) m =
     (if is_canonical ts then fold (lower_at ts) (List.map_filter (map_of (node_of d)) frontier) m else m)"
proof -
  have "fold (\<lambda>f m. case map_of (node_of d) f of None \<Rightarrow> m | Some n \<Rightarrow> lower_at ts n m) frontier m
      = fold (lower_at ts) (List.map_filter (map_of (node_of d)) frontier) m" for m
    by (induction frontier arbitrary: m) (simp_all add: List.map_filter_simps split: option.split)
  then show ?thesis unfolding seed_anchor_def lower_at_def [abs_def] by simp
qed

lemma push_anchor_nodes:
  "push_anchor d x m = (case at m x of None \<Rightarrow> m | Some t \<Rightarrow> fold (lower_at t) (at (node_parents d) x) m)"
  unfolding push_anchor_def lower_at_def [abs_def] by (rule refl)

text \<open>The canonical times of the anchors whose frontier names a node, and of those whose checkpoint commits it.\<close>

definition direct_times :: "dag_index \<Rightarrow> (string \<times> string list) list \<Rightarrow> (string \<Rightarrow> bool) \<Rightarrow> nat \<Rightarrow> string set" where
  "direct_times d anchors is_canonical x =
     {ts. \<exists>frontier. (ts, frontier) \<in> set anchors \<and> is_canonical ts \<and> x \<in> set (List.map_filter (map_of (node_of d)) frontier)}"

definition commit_times :: "dag_index \<Rightarrow> (string \<times> string list) list \<Rightarrow> (string \<Rightarrow> bool) \<Rightarrow> nat \<Rightarrow> string set" where
  "commit_times d anchors is_canonical x = (\<Union>z\<in>{z. (z, x) \<in> (node_rel (node_parents d))\<^sup>*}. direct_times d anchors is_canonical z)"

lemma direct_times_finite [simp]: "finite (direct_times d anchors is_canonical x)"
proof (rule finite_subset)
  show "direct_times d anchors is_canonical x \<subseteq> fst ` set anchors" by (force simp: direct_times_def)
qed simp

lemma commit_times_finite [simp]: "finite (commit_times d anchors is_canonical x)"
proof (rule finite_subset)
  show "commit_times d anchors is_canonical x \<subseteq> fst ` set anchors" by (force simp: commit_times_def direct_times_def)
qed simp

lemma commit_times_step:
  "commit_times d anchors is_canonical x
     = direct_times d anchors is_canonical x \<union> (\<Union>w\<in>{w. (w, x) \<in> node_rel (node_parents d)}. commit_times d anchors is_canonical w)"
proof -
  have "(z, x) \<in> R\<^sup>* \<longleftrightarrow> z = x \<or> (\<exists>w. (w, x) \<in> R \<and> (z, w) \<in> R\<^sup>*)" for z :: nat and R
    by (auto intro: rtrancl_into_rtrancl elim: rtranclE)
  then have "{z. (z, x) \<in> (node_rel (node_parents d))\<^sup>*}
      = insert x (\<Union>w\<in>{w. (w, x) \<in> node_rel (node_parents d)}. {z. (z, w) \<in> (node_rel (node_parents d))\<^sup>*})" by blast
  then show ?thesis unfolding commit_times_def by simp
qed

lemma seeds_exact:
  assumes "\<And>h x. map_of (node_of d) h = Some x \<Longrightarrow> x < n" "m' = fold (seed_anchor d is_canonical) anchors (replicate n None)"
  shows "length m' = n \<and> (\<forall>y<n. m' ! y = opt_Min (direct_times d anchors is_canonical y))"
  using assms(2)
proof (induction anchors arbitrary: m' rule: rev_induct)
  case Nil
  then show ?case by (simp add: opt_Min_def direct_times_def)
next
  case (snoc a anchors)
  obtain ts frontier where a: "a = (ts, frontier)" by fastforce
  let ?F = "List.map_filter (map_of (node_of d)) frontier"
  define m where "m = fold (seed_anchor d is_canonical) anchors (replicate n None)"
  have m: "length m = n" "\<And>y. y < n \<Longrightarrow> m ! y = opt_Min (direct_times d anchors is_canonical y)" using snoc.IH [OF m_def] by simp_all
  have m': "m' = (if is_canonical ts then fold (lower_at ts) ?F m else m)" using snoc.prems by (simp add: m_def a seed_anchor_nodes)
  have "\<forall>p\<in>set ?F. p < length m" using assms(1) m(1) by (auto simp: set_map_filter_iff)
  note L = fold_lower_at [OF this, where t = ts]
  have D: "direct_times d (anchors @ [a]) is_canonical y
      = (if is_canonical ts \<and> y \<in> set ?F then insert ts (direct_times d anchors is_canonical y) else direct_times d anchors is_canonical y)" for y
    by (auto simp: direct_times_def a)
  have "m' ! y = opt_Min (direct_times d (anchors @ [a]) is_canonical y)" if "y < n" for y
    unfolding D m' using that m L(2) [of y] by (simp add: lower_opt_Min)
  then show ?case using m' m(1) L(1) by simp
qed

text \<open>After the nodes from \<open>k\<close> upwards have been pushed, a node has its own times and those of its children from \<open>k\<close> upwards.\<close>

definition pushed_times :: "dag_index \<Rightarrow> (string \<times> string list) list \<Rightarrow> (string \<Rightarrow> bool) \<Rightarrow> nat \<Rightarrow> nat \<Rightarrow> string set" where
  "pushed_times d anchors is_canonical k y =
     direct_times d anchors is_canonical y \<union> (\<Union>w\<in>{w. (w, y) \<in> node_rel (node_parents d) \<and> k \<le> w}. commit_times d anchors is_canonical w)"

lemma pushed_times_finite [simp]: "finite (pushed_times d anchors is_canonical k y)"
  unfolding pushed_times_def by (intro finite_UnI finite_UN_I) (auto simp: node_rel_def intro: finite_subset [of _ "{..<length (node_parents d)}"])

lemma opt_Min_Un: "finite A \<Longrightarrow> finite B \<Longrightarrow> B \<noteq> {} \<Longrightarrow> opt_Min (insert (Min B) A) = opt_Min (A \<union> B)"
  by (cases "A = {}") (simp_all add: opt_Min_def Min_Un min.commute)

lemma push_exact:
  assumes down: "\<forall>x<length (node_parents d). \<forall>y\<in>set (node_parents d ! x). y < x" and k: "k < length (node_parents d)"
    and m: "length m = length (node_parents d)" "\<forall>y<length m. m ! y = opt_Min (pushed_times d anchors is_canonical (Suc k) y)"
  shows "length (push_anchor d k m) = length m \<and> (\<forall>y<length m. push_anchor d k m ! y = opt_Min (pushed_times d anchors is_canonical k y))"
proof -
  let ?ps = "node_parents d ! k" and ?S = "commit_times d anchors is_canonical k"
  have "{w. (w, k) \<in> node_rel (node_parents d) \<and> Suc k \<le> w} = {w. (w, k) \<in> node_rel (node_parents d)}"
    using down by (auto simp: node_rel_def Suc_le_eq)
  then have S: "pushed_times d anchors is_canonical (Suc k) k = ?S" unfolding pushed_times_def by (simp flip: commit_times_step)
  have "{w. (w, y) \<in> node_rel (node_parents d) \<and> k \<le> w}
      = (if y \<in> set ?ps then insert k {w. (w, y) \<in> node_rel (node_parents d) \<and> Suc k \<le> w} else {w. (w, y) \<in> node_rel (node_parents d) \<and> Suc k \<le> w})" for y
    using k by (auto simp: node_rel_def Suc_le_eq le_less)
  then have T: "pushed_times d anchors is_canonical k y
      = (if y \<in> set ?ps then pushed_times d anchors is_canonical (Suc k) y \<union> ?S else pushed_times d anchors is_canonical (Suc k) y)" for y
    unfolding pushed_times_def by auto
  have mk: "at m k = opt_Min ?S" "at (node_parents d) k = ?ps" using m k S by simp_all
  show ?thesis
  proof (cases "?S = {}")
    case True
    then show ?thesis using m(2) mk by (simp add: push_anchor_nodes T opt_Min_def)
  next
    case False
    then have p: "push_anchor d k m = fold (lower_at (Min ?S)) ?ps m" using mk by (simp add: push_anchor_nodes opt_Min_def)
    have "\<forall>p\<in>set ?ps. p < length m" using down k m(1) by fastforce
    note L = fold_lower_at [OF this, where t = "Min ?S"]
    have "push_anchor d k m ! y = opt_Min (pushed_times d anchors is_canonical k y)" if "y < length m" for y
      unfolding p T using that m(2) L(2) [of y] False by (simp add: lower_opt_Min opt_Min_Un)
    then show ?thesis using L(1) p by simp
  qed
qed

lemma pushes_exact:
  assumes down: "\<forall>x<length (node_parents d). \<forall>y\<in>set (node_parents d ! x). y < x" and "n = length (node_parents d)" "k \<le> n"
    and "length m = n" "\<forall>y<n. m ! y = opt_Min (direct_times d anchors is_canonical y)" "m' = fold (push_anchor d) (rev [k..<n]) m"
  shows "length m' = n \<and> (\<forall>y<n. m' ! y = opt_Min (pushed_times d anchors is_canonical k y))"
  using assms(3,6)
proof (induction "n - k" arbitrary: k m')
  case 0
  have "{w. (w, y) \<in> node_rel (node_parents d) \<and> n \<le> w} = {}" for y using assms(2) by (auto simp: node_rel_def)
  then have "pushed_times d anchors is_canonical n y = direct_times d anchors is_canonical y" for y
    unfolding pushed_times_def by auto
  moreover have "k = n" using 0 by simp
  ultimately show ?case using 0(3) assms(4,5) by simp
next
  case (Suc j)
  have k: "k < n" using Suc.hyps(2) by simp
  define m0 where "m0 = fold (push_anchor d) (rev [Suc k..<n]) m"
  have "length m0 = n \<and> (\<forall>y<n. m0 ! y = opt_Min (pushed_times d anchors is_canonical (Suc k) y))"
    using Suc.hyps(1) [of "Suc k" m0] Suc.hyps(2) k m0_def by simp
  moreover have "m' = push_anchor d k m0" using Suc.prems(2) k by (simp add: m0_def upt_conv_Cons del: upt_Suc)
  ultimately show ?case using push_exact [OF down, of k m0 anchors is_canonical] k assms(2) by simp
qed

text \<open>C18: Every record's anchor time is the earliest canonical time among the anchors whose checkpoint
  commits the record, and absent exactly when no such anchor does: the single backward pass misses
  none.
\<close>

theorem min_anchor_times_exact:
  assumes "bt_wf index" "dag_index_build records index topo = Some d" "x < length topo"
  shows "min_anchor_times d anchors is_canonical ! x
    = opt_Min {ts. \<exists>frontier. (ts, frontier) \<in> set anchors \<and> is_canonical ts \<and> topo ! x \<in> set (committed_set records index frontier)}"
proof -
  note N = dag_index_numbering [OF assms(2,1)]
  have len: "length (node_parents d) = length topo" and down: "\<forall>x<length (node_parents d). \<forall>y\<in>set (node_parents d ! x). y < x"
    and look: "\<And>h x. map_of (node_of d) h = Some x \<Longrightarrow> x < length (node_parents d)" using N by (simp_all add: numbering_def)
  have "min_anchor_times d anchors is_canonical ! x = opt_Min (pushed_times d anchors is_canonical 0 x)"
  proof -
    note seeds = seeds_exact [OF look refl, where is_canonical = is_canonical and anchors = anchors]
    show ?thesis using pushes_exact [OF down refl _ conjunct1 [OF seeds] conjunct2 [OF seeds] min_anchor_times_def] assms(3) len by simp
  qed
  also have "pushed_times d anchors is_canonical 0 x = commit_times d anchors is_canonical x"
    by (simp add: pushed_times_def flip: commit_times_step)
  also have "\<dots> = {ts. \<exists>frontier. (ts, frontier) \<in> set anchors \<and> is_canonical ts \<and> topo ! x \<in> set (committed_set records index frontier)}"
    unfolding committed_nodes [OF N assms(3)] commit_times_def direct_times_def by blast
  finally show ?thesis .
qed

theorem min_anchor_times_exact_witness:
  "min_anchor_times log_dag [(''2026-02'', [''b'']), (''2026-01'', [''a'']), (''x'', [''a''])] (\<lambda>ts. length ts = 7) ! 0 = Some ''2026-01''
   \<and> opt_Min {ts. \<exists>frontier. (ts, frontier) \<in> set [(''2026-02'', [''b'']), (''2026-01'', [''a'']), (''x'', [''a''])] \<and> length ts = 7
       \<and> ''a'' \<in> set (committed_set log_records [(''a'', 0), (''b'', 1)] frontier)} = Some ''2026-01''"
proof -
  have wf: "bt_wf [(''a'', 0 :: nat), (''b'', 1)]" by code_simp
  have v: "min_anchor_times log_dag [(''2026-02'', [''b'']), (''2026-01'', [''a'']), (''x'', [''a''])] (\<lambda>ts. length ts = 7) ! 0 = Some ''2026-01''"
    by code_simp
  show ?thesis using v min_anchor_times_exact [OF wf log_dag_built, of 0 "[(''2026-02'', [''b'']), (''2026-01'', [''a'']), (''x'', [''a''])]" "\<lambda>ts. length ts = 7"]
    by simp
qed

end
