(* ===== verification/Committed_Brokers.thy ===== *)
theory Committed_Brokers
  imports Committed_Exact
begin

text \<open>
  Two questions on committed logs that the federation checks ask: which brokers a frontier commits at
  all (\<open>brokers_committed_by\<close> of \<open>core/src/verify/committed.rs\<close>, one walk for all brokers) and whether a
  sequence number is claimed twice (\<open>check_duplicate_seqs\<close> of \<open>core/src/verify.rs\<close>).
\<close>

section \<open>The walk\<close>

lemma seen_loop_reach:
  assumes "length seen = length ps" "\<forall>x<length ps. \<forall>y\<in>set (ps ! x). y < length ps" "\<forall>x\<in>set stack. x < length ps"
    "\<forall>x<length ps. seen ! x \<longrightarrow> (\<forall>y\<in>set (ps ! x). seen ! y \<or> y \<in> set stack)"
  shows "length (seen_loop ps stack seen) = length ps
    \<and> {x. x < length ps \<and> seen_loop ps stack seen ! x} = {x. x < length ps \<and> seen ! x} \<union> (node_rel ps)\<^sup>* `` set stack"
  using assms
proof (induction ps stack seen rule: seen_loop.induct)
  case (2 ps x stack seen)
  let ?R = "node_rel ps" and ?S = "{x. x < length ps \<and> seen ! x}"
  have x: "x < length ps" "\<not> length seen \<le> x" using "2.prems" by simp_all
  show ?case
  proof (cases "seen ! x")
    case True
    have closed: "\<forall>x<length ps. seen ! x \<longrightarrow> (\<forall>y\<in>set (ps ! x). seen ! y \<or> y \<in> set stack)" using "2.prems"(4) True by auto
    have "y \<in> ?S \<union> ?R\<^sup>* `` set stack" if "(x, y) \<in> ?R\<^sup>*" for y
    proof -
      have "b \<in> ?S \<union> set stack" if "a \<in> ?S" "(a, b) \<in> ?R" for a b using that closed "2.prems"(2) by (auto simp: node_rel_def)
      then show ?thesis using reach_through [of ?S ?R "set stack" x y] that True x(1) by blast
    qed
    then have "?S \<union> ?R\<^sup>* `` set (x # stack) = ?S \<union> ?R\<^sup>* `` set stack" by auto
    moreover have "\<forall>x\<in>set stack. x < length ps" using "2.prems"(3) by simp
    moreover have "seen_loop ps (x # stack) seen = seen_loop ps stack seen" using x True by simp
    ultimately show ?thesis using "2.IH"(1) [OF x(2) True "2.prems"(1,2) _ closed] by simp
  next
    case False
    let ?s = "seen[x := True]"
    have step: "?R\<^sup>* `` {x} = insert x (?R\<^sup>* `` set (ps ! x))"
      using x unfolding node_rel_def by (auto intro: converse_rtrancl_into_rtrancl elim: converse_rtranclE)
    have upd: "?s ! y \<longleftrightarrow> y = x \<or> seen ! y" if "y < length ps" for y using that "2.prems"(1) by (cases "y = x") simp_all
    have "\<forall>y<length ps. ?s ! y \<longrightarrow> (\<forall>z\<in>set (ps ! y). ?s ! z \<or> z \<in> set (rev (at ps x) @ stack))"
      using "2.prems"(2,4) upd x(1) by auto
    then have "length (seen_loop ps (rev (at ps x) @ stack) ?s) = length ps
      \<and> {y. y < length ps \<and> seen_loop ps (rev (at ps x) @ stack) ?s ! y} = {y. y < length ps \<and> ?s ! y} \<union> ?R\<^sup>* `` set (rev (at ps x) @ stack)"
      using "2.prems" x(1) by (intro "2.IH"(2) [OF x(2) False]) auto
    moreover have "{y. y < length ps \<and> ?s ! y} = insert x ?S" using upd x(1) by auto
    moreover have "seen_loop ps (x # stack) seen = seen_loop ps (rev (at ps x) @ stack) ?s" using x False by simp
    moreover have "?R\<^sup>* `` set (x # stack) = insert x (?R\<^sup>* `` set (rev (at ps x) @ stack))"
      using step x(1) unfolding set_append set_rev list.set(2) Image_Un [of _ "{x}" "set stack", simplified] by auto
    ultimately show ?thesis by simp
  qed
qed simp

section \<open>The brokers\<close>

definition broker_item :: "canon_value list \<Rightarrow> string \<Rightarrow> record_trust \<Rightarrow> bool" where
  "broker_item records b rt \<longleftrightarrow> b \<noteq> [] \<and> log_item records (Some b) rt \<noteq> None"

lemma broker_item_key:
  "broker_item records b rt \<longleftrightarrow>
     (\<exists>key. log_payload_key (rt_broker_role rt) = Some key \<and> b \<noteq> [] \<and> ev_str (records ! rt_index rt) key ''broker_id'' = Some b
        \<and> log_seq (records ! rt_index rt) key \<noteq> None)"
  by (auto simp: broker_item_def log_item_def in_partition_def split: option.splits)

lemma collect_brokers_Some:
  assumes "collect_brokers d records seen rts out = Some out'"
  shows "set out' = set out \<union> {b. \<exists>rt\<in>set rts. broker_item records b rt \<and> (\<exists>n. map_of (node_of d) (rt_content_hash rt) = Some n \<and> at seen n)}"
  using assms
proof (induction rts arbitrary: out)
  case (Cons rt rts)
  let ?new = "{b. broker_item records b rt \<and> (\<exists>n. map_of (node_of d) (rt_content_hash rt) = Some n \<and> at seen n)}"
  have "\<exists>o'. collect_brokers d records seen rts o' = Some out' \<and> set o' = set out \<union> ?new"
  proof (cases "log_payload_key (rt_broker_role rt)")
    case None
    then show ?thesis using Cons.prems by (auto simp: broker_item_key)
  next
    case (Some key)
    then obtain n where n: "map_of (node_of d) (rt_content_hash rt) = Some n"
      using Cons.prems by (auto simp: Let_def split: option.splits if_splits)
    let ?r = "records ! rt_index rt"
    have new: "?new = {b. at seen n \<and> b \<noteq> [] \<and> ev_str ?r key ''broker_id'' = Some b \<and> log_seq ?r key \<noteq> None}"
      unfolding broker_item_key using Some n by auto
    show ?thesis unfolding new using Cons.prems Some n
      by (auto simp: Let_def set_insort_insert split: option.splits if_splits)
  qed
  then show ?case using Cons.IH by auto
qed simp

lemma collect_brokers_known:
  "collect_brokers d records seen rts out = Some out' \<Longrightarrow> rt \<in> set rts \<Longrightarrow> log_payload_key (rt_broker_role rt) \<noteq> None
     \<Longrightarrow> map_of (node_of d) (rt_content_hash rt) \<noteq> None"
proof (induction rts arbitrary: out)
  case (Cons r rts)
  obtain o' where rec: "collect_brokers d records seen rts o' = Some out'" and r: "log_payload_key (rt_broker_role r) \<noteq> None \<longrightarrow> map_of (node_of d) (rt_content_hash r) \<noteq> None"
    using Cons.prems(1) by (auto simp: Let_def split: option.splits if_splits)
  then show ?case using Cons.IH [OF rec] Cons.prems(2,3) by auto
qed simp

lemma seen_nodes:
  assumes N: "numbering records index d hash_at n"
    and s: "seen = seen_loop (node_parents d) (rev (List.map_filter (map_of (node_of d)) frontier)) (replicate (length (node_parents d)) False)"
    and x: "map_of (node_of d) h = Some x"
  shows "at seen x \<longleftrightarrow> h \<in> set (committed_set records index frontier)"
proof -
  let ?F = "List.map_filter (map_of (node_of d)) frontier" and ?n = "length (node_parents d)"
  have hx: "x < n" "hash_at x = h" "?n = n" using N x by (simp_all add: numbering_def)
  have "length seen = ?n \<and> {x. x < ?n \<and> seen ! x} = {x. x < ?n \<and> replicate ?n False ! x} \<union> (node_rel (node_parents d))\<^sup>* `` set (rev ?F)"
    unfolding s
  proof (rule seen_loop_reach)
    show "\<forall>x<?n. \<forall>y\<in>set (node_parents d ! x). y < ?n" using N unfolding numbering_def by auto
    show "\<forall>x\<in>set (rev ?F). x < ?n" using N unfolding numbering_def by (auto simp: set_map_filter_iff)
  qed simp_all
  then have "length seen = n" "{x. x < n \<and> seen ! x} = (node_rel (node_parents d))\<^sup>* `` set ?F" unfolding hx(3) by auto
  then have "length seen = n" "seen ! x \<longleftrightarrow> x \<in> (node_rel (node_parents d))\<^sup>* `` set ?F" using hx by auto
  then show ?thesis using committed_nodes [OF N hx(1), of frontier] hx by simp
qed

lemma committed_log_items:
  "committed_broker_log rts records index frontier broker_id \<noteq> []
     \<longleftrightarrow> (\<exists>rt\<in>set rts. rt_content_hash rt \<in> set (committed_set records index frontier) \<and> log_item records broker_id rt \<noteq> None)"
proof -
  have "set (committed_broker_log rts records index frontier broker_id)
      = set (List.map_filter (log_entry records (committed_set records index frontier) broker_id) rts)"
    by (simp add: committed_broker_log_def)
  then have "committed_broker_log rts records index frontier broker_id \<noteq> []
      \<longleftrightarrow> (\<exists>e. e \<in> set (List.map_filter (log_entry records (committed_set records index frontier) broker_id) rts))"
    by (metis ex_in_conv set_empty)
  then show ?thesis unfolding set_map_filter_iff log_entry_item by auto
qed

text \<open>C19: The brokers found by one walk over a frontier are exactly those whose own log, computed from
  scratch for that frontier, is non-empty.
\<close>

theorem brokers_committed_exact:
  assumes "bt_wf index" "dag_index_build records index topo = Some d" "brokers_committed_by d rts records frontier = Some brokers"
  shows "b \<in> set brokers \<longleftrightarrow> b \<noteq> [] \<and> committed_broker_log rts records index frontier (Some b) \<noteq> []"
proof -
  note N = dag_index_numbering [OF assms(2,1)]
  define seen where "seen = seen_loop (node_parents d) (rev (List.map_filter (map_of (node_of d)) frontier)) (replicate (length (node_parents d)) False)"
  have out: "collect_brokers d records seen rts [] = Some brokers" using assms(3) by (simp add: brokers_committed_by_def seen_def)
  have known: "map_of (node_of d) (rt_content_hash rt) \<noteq> None" if "rt \<in> set rts" "broker_item records b rt" for rt
    using collect_brokers_known [OF out that(1)] that(2) by (auto simp: broker_item_key)
  have "b \<in> set brokers \<longleftrightarrow> (\<exists>rt\<in>set rts. broker_item records b rt \<and> (\<exists>n. map_of (node_of d) (rt_content_hash rt) = Some n \<and> at seen n))"
    using collect_brokers_Some [OF out] by simp
  also have "\<dots> \<longleftrightarrow> (\<exists>rt\<in>set rts. broker_item records b rt \<and> rt_content_hash rt \<in> set (committed_set records index frontier))"
    using known seen_nodes [OF N seen_def] by blast
  finally show ?thesis unfolding committed_log_items broker_item_def by blast
qed

definition broker_records :: "canon_value list" where
  "broker_records =
     [Object [(''causal_prev_hashes'', Array []),
        (''extensions'', Object [(''broker'', Object [(''grant_evidence'', Object [(''broker_seq'', CInt 1), (''broker_id'', Str ''p'')])])])],
      Object [(''causal_prev_hashes'', Array [Str ''a'']),
        (''extensions'', Object [(''broker'', Object [(''void_evidence'', Object [(''broker_seq'', CInt 1), (''broker_id'', Str ''q'')])])])]]"

theorem brokers_committed_exact_witness:
  "brokers_committed_by log_dag log_trusts broker_records [''a''] = Some [''p'']
   \<and> committed_broker_log log_trusts broker_records [(''a'', 0), (''b'', 1)] [''a''] (Some ''p'') \<noteq> []
   \<and> committed_broker_log log_trusts broker_records [(''a'', 0), (''b'', 1)] [''a''] (Some ''q'') = []"
proof -
  have wf: "bt_wf [(''a'', 0 :: nat), (''b'', 1)]" by code_simp
  have d: "dag_index_build broker_records [(''a'', 0), (''b'', 1)] [''a'', ''b''] = Some log_dag" by code_simp
  have b: "brokers_committed_by log_dag log_trusts broker_records [''a''] = Some [''p'']" by code_simp
  show ?thesis using b brokers_committed_exact [OF wf d b, of "''p''"] brokers_committed_exact [OF wf d b, of "''q''"] by simp
qed

section \<open>Sequence numbers claimed twice\<close>

definition claimed_twice :: "(int \<times> string) list \<Rightarrow> int \<Rightarrow> bool" where
  "claimed_twice log s \<longleftrightarrow> (\<exists>h h'. (s, h) \<in> set log \<and> (s, h') \<in> set log \<and> h \<noteq> h')"

lemma claimed_twice_Cons:
  assumes "sorted (map fst ((t, h) # (t', h') # rest))"
  shows "claimed_twice ((t, h) # (t', h') # rest) s \<longleftrightarrow> (t = s \<and> t' = s \<and> h \<noteq> h') \<or> claimed_twice ((t', h') # rest) s"
proof
  assume "claimed_twice ((t, h) # (t', h') # rest) s"
  then obtain g g' where g: "(s, g) \<in> set ((t, h) # (t', h') # rest)" "(s, g') \<in> set ((t, h) # (t', h') # rest)" "g \<noteq> g'"
    unfolding claimed_twice_def by blast
  show "(t = s \<and> t' = s \<and> h \<noteq> h') \<or> claimed_twice ((t', h') # rest) s"
  proof (cases "(s, g) \<in> set ((t', h') # rest) \<and> (s, g') \<in> set ((t', h') # rest)")
    case True
    then show ?thesis using g(3) unfolding claimed_twice_def by blast
  next
    case False
    then have t: "t = s" and "\<exists>c. (s, c) \<in> set ((t', h') # rest) \<and> c \<noteq> h" using g by auto
    then obtain c where c: "(s, c) \<in> set ((t', h') # rest)" "c \<noteq> h" by blast
    have "t \<le> t'" "t' \<le> s" using assms c(1) by auto
    then have t': "t' = s" using t by simp
    show ?thesis
    proof (cases "h = h'")
      case True
      have "(s, h') \<in> set ((t', h') # rest)" using t' by simp
      then show ?thesis using c True unfolding claimed_twice_def by blast
    qed (use t t' in simp)
  qed
next
  assume "(t = s \<and> t' = s \<and> h \<noteq> h') \<or> claimed_twice ((t', h') # rest) s"
  then show "claimed_twice ((t, h) # (t', h') # rest) s" unfolding claimed_twice_def by (metis list.set_intros)
qed

lemma check_duplicate_seqs_iff: "sorted (map fst log) \<Longrightarrow> s \<in> set (check_duplicate_seqs log) \<longleftrightarrow> claimed_twice log s"
proof (induction log rule: check_duplicate_seqs.induct)
  case (1 a b rest)
  obtain t h t' h' where ab: "a = (t, h)" "b = (t', h')" by fastforce
  have "sorted (map fst (b # rest))" using "1.prems" by simp
  then have "s \<in> set (check_duplicate_seqs (b # rest)) \<longleftrightarrow> claimed_twice (b # rest) s" using "1.IH" by blast
  moreover have "check_duplicate_seqs (a # b # rest) = (if t = t' \<and> h \<noteq> h' then [t] else []) @ check_duplicate_seqs (b # rest)"
    by (simp add: ab)
  ultimately show ?case using claimed_twice_Cons [OF "1.prems" [unfolded ab], of s] unfolding ab by auto
qed (auto simp: claimed_twice_def)

text \<open>The duplicate check on the committed log of any frontier reports exactly the sequence numbers that
  two different committed records claim, although it only compares neighbours.
\<close>

theorem duplicate_seqs_exact:
  "set (check_duplicate_seqs (committed_broker_log rts records index frontier broker_id))
    = {s. \<exists>h h'. (s, h) \<in> set (committed_broker_log rts records index frontier broker_id)
            \<and> (s, h') \<in> set (committed_broker_log rts records index frontier broker_id) \<and> h \<noteq> h'}"
proof -
  have "sorted (map fst (committed_broker_log rts records index frontier broker_id))" by (simp add: committed_broker_log_def)
  then show ?thesis using check_duplicate_seqs_iff unfolding claimed_twice_def by blast
qed

end
