(* ===== verification/Segment_Split.thy ===== *)
theory Segment_Split
  imports Chain_State Closure "HOL-Library.Option_ord"
begin

text \<open>
  Splitting a whole history into months: \<open>split_bundle\<close> of \<open>core/src/segment.rs\<close>. Checkpoints are sorted
  by sequence number and grouped by month; a month gets the records that its last checkpoint commits
  and the previous month's last checkpoint does not.

  A subtraction below zero is a panic in the build (overflow checks are on), the value \<open>SubtractOverflow\<close>.
\<close>

datatype split_error =
    NoCheckpoints
  | RecordWithoutHash
  | WithoutCreatedTs
  | CreatedTsTooShort
  | MonthsBackwards string string
  | EmptyGroup
  | WithoutRecordCount
  | CountNotCommitted int int nat
  | BaseWithoutSeq
  | BaseWithoutHash
  | BaseWithoutCount
  | BundleNotObject
  | RepeatedMember string
  | CommittedByNone nat
  | SubtractOverflow

text \<open>The prefix of a string, absent when it is too short or would cut a character.\<close>

definition str_prefix :: "nat \<Rightarrow> string \<Rightarrow> string option" where
  "str_prefix n s = (if n < length s \<and> \<not> is_continuation (byte_of (s ! n)) \<or> n = length s then Some (take n s) else None)"

fun split_index :: "nat \<Rightarrow> canon_value list \<Rightarrow> (string \<times> nat) list \<Rightarrow> ((string \<times> nat) list, split_error) result" where
  "split_index i [] index = Ok index"
| "split_index i (r # records) index =
     bind_result (ok_or (str_of r ''content_hash'') RecordWithoutHash) (\<lambda>h.
       split_index (i + 1) records (if map_of index h = None then bt_insert h i index else index))"

definition group_month :: "canon_value \<Rightarrow> (string \<times> canon_value list) list \<Rightarrow> ((string \<times> canon_value list) list, split_error) result" where
  "group_month cp groups =
     bind_result (ok_or (str_of cp ''created_ts'') WithoutCreatedTs) (\<lambda>ts.
     bind_result (ok_or (str_prefix 7 ts) CreatedTsTooShort) (\<lambda>m.
       if groups = [] then Ok [(m, [cp])]
       else
         let (gm, g) = last groups
         in if gm = m then Ok (butlast groups @ [(gm, g @ [cp])])
            else if gm > m then Err (MonthsBackwards m gm)
            else Ok (groups @ [(m, [cp])])))"

fun group_months :: "canon_value list \<Rightarrow> (string \<times> canon_value list) list \<Rightarrow> ((string \<times> canon_value list) list, split_error) result" where
  "group_months [] groups = Ok groups"
| "group_months (cp # cps) groups = bind_result (group_month cp groups) (group_months cps)"

definition cp_count :: "canon_value \<Rightarrow> int option" where
  "cp_count cp = Option.bind (get cp ''record_count'') as_int"

definition month_records :: "canon_value list \<Rightarrow> string list \<Rightarrow> string list \<Rightarrow> canon_value list" where
  "month_records records committed prev_closure =
     filter (\<lambda>r. case str_of r ''content_hash'' of Some h \<Rightarrow> h \<in> set committed \<and> h \<notin> set prev_closure | None \<Rightarrow> False) records"

definition base_members :: "(string \<Rightarrow> string) \<Rightarrow> canon_value option \<Rightarrow> (canon_value \<times> canon_value \<times> int, split_error) result" where
  "base_members uni base =
     (case base of
        None \<Rightarrow> Ok (Null, Null, 0)
      | Some b \<Rightarrow>
          bind_result (ok_or (seq_of b) BaseWithoutSeq) (\<lambda>seq.
          bind_result (ok_or (str_of b ''checkpoint_hash'') BaseWithoutHash) (\<lambda>h.
          bind_result (ok_or (cp_count b) BaseWithoutCount) (\<lambda>n. Ok (CInt seq, string_value uni h, n)))))"

definition month_disclosures :: "canon_value \<Rightarrow> canon_value list \<Rightarrow> canon_value list" where
  "month_disclosures bundle mine =
     (let mine_hashes = List.map_filter (\<lambda>r. str_of r ''content_hash'') mine
      in filter (\<lambda>d. case str_of d ''record_id'' of
            None \<Rightarrow> False
          | Some rid \<Rightarrow> list_ex (\<lambda>r. str_of r ''record_id'' = Some rid
              \<and> (case str_of r ''content_hash'' of Some h \<Rightarrow> h \<in> set mine_hashes | None \<Rightarrow> False)) mine)
        (array_of bundle ''disclosures''))"

definition bound_to_head :: "canon_value \<Rightarrow> bool \<Rightarrow> (string \<times> canon_value) list" where
  "bound_to_head bundle is_last =
     (if is_last then List.map_filter (\<lambda>k. map_option (Pair k) (get bundle k)) [''revocation_list'', ''deployment_attestation''] else [])"

definition month_segment :: "(string \<Rightarrow> string) \<Rightarrow> canon_value \<Rightarrow> bool \<Rightarrow> string \<Rightarrow> canon_value option \<Rightarrow> canon_value list \<Rightarrow> canon_value list
    \<Rightarrow> canon_value \<times> canon_value \<times> int \<Rightarrow> (canon_value, split_error) result" where
  "month_segment uni bundle is_last month base grp mine b =
     (case b of (bseq, bhash, bcount) \<Rightarrow>
       bind_result (ok_or (as_object bundle) BundleNotObject) (\<lambda>members.
       bind_result (map_err RepeatedMember (object uni
           [(''format'', string_value uni SEGMENT_FORMAT), (''month'', string_value uni month), (''base_seq'', bseq),
            (''base_checkpoint_hash'', bhash), (''base_record_count'', CInt bcount)])) (\<lambda>segment.
         map_err RepeatedMember (object uni
           (filter (\<lambda>(k, _). \<not> is_history_member k) members @ bound_to_head bundle is_last
            @ [(''records'', Array mine), (''checkpoints'', Array ((case base of Some c \<Rightarrow> [c] | None \<Rightarrow> []) @ grp))]
            @ (if get bundle ''disclosures'' \<noteq> None then [(''disclosures'', Array (month_disclosures bundle mine))] else [])
            @ [(''segment'', segment)])))))"

definition split_month :: "(string \<Rightarrow> string) \<Rightarrow> canon_value \<Rightarrow> (string \<times> nat) list \<Rightarrow> bool \<Rightarrow> string \<times> canon_value list
    \<Rightarrow> string list \<Rightarrow> canon_value option \<Rightarrow> (string list \<times> canon_value \<times> canon_value, split_error) result" where
  "split_month uni bundle index is_last mg prev_closure base =
     (case mg of (month, grp) \<Rightarrow>
        bind_result (ok_or (if grp = [] then None else Some (last grp)) EmptyGroup) (\<lambda>lst.
          let records = array_of bundle ''records'';
              committed = closure records index (array_of lst ''frontier'');
              mine = month_records records committed prev_closure
          in bind_result (ok_or (cp_count lst) WithoutRecordCount) (\<lambda>expect.
               if int (length committed) \<noteq> expect
               then Err (CountNotCommitted (case seq_of lst of Some s \<Rightarrow> s | None \<Rightarrow> - 1) expect (length committed))
               else
                 bind_result (base_members uni base) (\<lambda>b.
                 bind_result (month_segment uni bundle is_last month base grp mine b) (\<lambda>seg.
                   Ok (committed, lst, seg))))))"

fun split_loop :: "(string \<Rightarrow> string) \<Rightarrow> canon_value \<Rightarrow> (string \<times> nat) list \<Rightarrow> (string \<times> canon_value list) list
    \<Rightarrow> string list \<Rightarrow> canon_value option \<Rightarrow> nat \<Rightarrow> (nat \<times> (string \<times> canon_value) list, split_error) result" where
  "split_loop uni bundle index [] prev_closure base assigned = Ok (assigned, [])"
| "split_loop uni bundle index (g # groups) prev_closure base assigned =
     bind_result (split_month uni bundle index (groups = []) g prev_closure base) (\<lambda>(committed, lst, seg).
     bind_result (split_loop uni bundle index groups committed (Some lst) (length committed)) (\<lambda>(assigned, out).
       Ok (assigned, (fst g, seg) # out)))"

definition split_bundle :: "(string \<Rightarrow> string) \<Rightarrow> canon_value \<Rightarrow> ((string \<times> canon_value) list, split_error) result" where
  "split_bundle uni bundle =
     (let records = array_of bundle ''records''; cps = array_of bundle ''checkpoints''
      in if cps = [] then Err NoCheckpoints
         else
           bind_result (split_index 0 records []) (\<lambda>index.
           bind_result (group_months (sort_key seq_of cps) []) (\<lambda>groups.
           bind_result (split_loop uni bundle index groups [] None 0) (\<lambda>(assigned, out).
             if assigned \<noteq> length records
             then if length records < assigned then Err SubtractOverflow else Err (CommittedByNone (length records - assigned))
             else Ok out))))"

section \<open>The groups\<close>

text \<open>Groups of a prefix of the checkpoints: non-empty, in order, months strictly increasing.\<close>

definition groups_of :: "canon_value list \<Rightarrow> (string \<times> canon_value list) list \<Rightarrow> bool" where
  "groups_of cps groups \<longleftrightarrow> concat (map snd groups) = cps \<and> (\<forall>g\<in>set groups. snd g \<noteq> []) \<and> sorted_wrt (<) (map fst groups)"

lemma group_month_ok:
  assumes "group_month cp groups = Ok groups'" "groups_of cps groups"
  shows "groups_of (cps @ [cp]) groups'"
proof (cases groups rule: rev_cases)
  case Nil
  then show ?thesis using assms by (auto simp: group_month_def groups_of_def)
next
  case (snoc gs g)
  obtain gm gr where g: "g = (gm, gr)" by fastforce
  obtain m where "(gm = m \<and> groups' = gs @ [(gm, gr @ [cp])]) \<or> (gm < m \<and> groups' = gs @ [g, (m, [cp])])"
    using assms(1) unfolding group_month_def snoc g by (auto simp: Let_def not_less order_le_less split: if_splits)
  then show ?thesis
  proof (elim disjE conjE)
    assume "gm < m" "groups' = gs @ [g, (m, [cp])]"
    then show ?thesis using assms(2) unfolding groups_of_def snoc g by (auto simp: sorted_wrt_append)
  qed (use assms(2) in \<open>auto simp: groups_of_def snoc g sorted_wrt_append\<close>)
qed

lemma group_months_ok: "group_months cps groups = Ok groups' \<Longrightarrow> groups_of pre groups \<Longrightarrow> groups_of (pre @ cps) groups'"
proof (induction cps arbitrary: groups pre)
  case (Cons cp cps)
  then obtain gs where "group_month cp groups = Ok gs" "group_months cps gs = Ok groups'" by auto
  then show ?case using Cons.IH [of gs "pre @ [cp]"] group_month_ok Cons.prems(2) by simp
qed simp

section \<open>The months\<close>

definition committed_by :: "canon_value list \<Rightarrow> (string \<times> nat) list \<Rightarrow> canon_value \<Rightarrow> string list" where
  "committed_by records index cp = closure records index (array_of cp ''frontier'')"

fun month_split :: "canon_value list \<Rightarrow> string list \<Rightarrow> string list list \<Rightarrow> canon_value list list" where
  "month_split records prev [] = []"
| "month_split records prev (c # cs) = month_records records c prev # month_split records c cs"

fun month_cps :: "canon_value option \<Rightarrow> canon_value list list \<Rightarrow> canon_value list list" where
  "month_cps base [] = []"
| "month_cps base (g # gs) = ((case base of Some c \<Rightarrow> [c] | None \<Rightarrow> []) @ g) # month_cps (Some (last g)) gs"

lemma month_segment_members:
  assumes "month_segment uni bundle is_last month base grp mine b = Ok seg"
  shows "array_of seg ''records'' = mine" "array_of seg ''checkpoints'' = (case base of Some c \<Rightarrow> [c] | None \<Rightarrow> []) @ grp"
proof -
  have a: "is_ascii ''records''" "is_ascii ''checkpoints''" by code_simp+
  obtain pairs where p: "object uni pairs = Ok seg" "(''records'', Array mine) \<in> set pairs"
    "(''checkpoints'', Array ((case base of Some c \<Rightarrow> [c] | None \<Rightarrow> []) @ grp)) \<in> set pairs"
    using assms unfolding month_segment_def by (cases b) auto
  from object_get [OF p(1,2) a(1)] show "array_of seg ''records'' = mine" by (simp add: array_of_def as_array_def)
  from object_get [OF p(1,3) a(2)] show "array_of seg ''checkpoints'' = (case base of Some c \<Rightarrow> [c] | None \<Rightarrow> []) @ grp"
    by (simp add: array_of_def as_array_def)
qed

lemma split_month_ok:
  assumes "split_month uni bundle index is_last (month, grp) prev base = Ok (committed, lst, seg)"
  shows "lst = last grp" "committed = committed_by (array_of bundle ''records'') index lst"
    "array_of seg ''records'' = month_records (array_of bundle ''records'') committed prev"
    "array_of seg ''checkpoints'' = (case base of Some c \<Rightarrow> [c] | None \<Rightarrow> []) @ grp"
proof -
  obtain b where l: "lst = last grp" and c: "committed = committed_by (array_of bundle ''records'') index lst"
    and s: "month_segment uni bundle is_last month base grp (month_records (array_of bundle ''records'') committed prev) b = Ok seg"
    using assms unfolding split_month_def Let_def by (auto simp: committed_by_def split: if_splits)
  from month_segment_members [OF s] l c show "lst = last grp" "committed = committed_by (array_of bundle ''records'') index lst"
    "array_of seg ''records'' = month_records (array_of bundle ''records'') committed prev"
    "array_of seg ''checkpoints'' = (case base of Some c \<Rightarrow> [c] | None \<Rightarrow> []) @ grp" by blast+
qed

lemma split_loop_ok:
  assumes "split_loop uni bundle index groups prev base assigned = Ok (t, out)"
  shows "map fst out = map fst groups
    \<and> map (\<lambda>(m, seg). array_of seg ''records'') out
        = month_split (array_of bundle ''records'') prev (map (\<lambda>g. committed_by (array_of bundle ''records'') index (last (snd g))) groups)
    \<and> map (\<lambda>(m, seg). array_of seg ''checkpoints'') out = month_cps base (map snd groups)
    \<and> (groups \<noteq> [] \<longrightarrow> t = length (committed_by (array_of bundle ''records'') index (last (snd (last groups)))))"
  using assms
proof (induction groups arbitrary: prev base assigned out)
  case (Cons g groups)
  obtain month gr where g: "g = (month, gr)" by fastforce
  obtain committed lst seg out' where m: "split_month uni bundle index (groups = []) g prev base = Ok (committed, lst, seg)"
    and rec: "split_loop uni bundle index groups committed (Some lst) (length committed) = Ok (t, out')" and out: "out = (fst g, seg) # out'"
    using Cons.prems by auto
  note M = split_month_ok [OF m [unfolded g]]
  have "groups = [] \<longrightarrow> t = length committed" using rec by auto
  then show ?case using Cons.IH [OF rec] M unfolding out g by auto
qed simp

section \<open>The partition\<close>

definition in_closure :: "string list \<Rightarrow> canon_value \<Rightarrow> bool" where
  "in_closure c r \<longleftrightarrow> (\<exists>h. str_of r ''content_hash'' = Some h \<and> h \<in> set c)"

lemma month_records_mset:
  assumes "set prev \<subseteq> set c"
  shows "mset (month_records records c prev) + mset (filter (in_closure prev) records) = mset (filter (in_closure c) records)"
proof -
  have "month_records records c prev = filter (\<lambda>r. \<not> in_closure prev r) (filter (in_closure c) records)"
    unfolding month_records_def filter_filter by (rule filter_cong) (auto simp: in_closure_def split: option.split)
  moreover have "filter (in_closure prev) records = filter (in_closure prev) (filter (in_closure c) records)"
    unfolding filter_filter by (rule filter_cong) (use assms in \<open>auto simp: in_closure_def\<close>)
  ultimately show ?thesis by (simp only: mset_filter) (metis multiset_partition union_commute)
qed

lemma month_split_mset:
  "sorted_wrt (\<lambda>a b. set a \<subseteq> set b) (prev # cs) \<Longrightarrow>
     mset (concat (month_split records prev cs)) + mset (filter (in_closure prev) records) = mset (filter (in_closure (last (prev # cs))) records)"
proof (induction cs arbitrary: prev)
  case (Cons c cs)
  let ?F = "\<lambda>c. mset (filter (in_closure c) records)"
  have "mset (concat (month_split records c cs)) + ?F c = ?F (last (c # cs))" using Cons.IH [of c] Cons.prems by simp
  moreover have "mset (month_records records c prev) + ?F prev = ?F c" using month_records_mset Cons.prems by simp
  ultimately have "mset (month_records records c prev) + mset (concat (month_split records c cs)) + ?F prev = ?F (last (c # cs))"
    by (metis add.assoc add.commute)
  then show ?case by simp
qed simp

lemma month_cps_concat:
  "\<forall>g\<in>set gs. g \<noteq> [] \<Longrightarrow>
     concat (map (\<lambda>g. drop (case base of Some _ \<Rightarrow> 1 | None \<Rightarrow> 0) g) (take 1 (month_cps base gs))) @ concat (map tl (drop 1 (month_cps base gs))) = concat gs"
proof (induction gs arbitrary: base)
  case (Cons g gs)
  have "concat (map tl (month_cps (Some (last g)) gs)) = concat gs"
    using Cons.IH [of "Some (last g)"] Cons.prems by (cases gs) (simp_all add: drop_Suc)
  then show ?case by (simp split: option.split)
qed simp

lemma split_index_ok:
  "split_index i records index = Ok index' \<Longrightarrow> bt_wf index \<Longrightarrow>
     bt_wf index' \<and> dom (map_of index') = dom (map_of index) \<union> {h. \<exists>r\<in>set records. str_of r ''content_hash'' = Some h}
     \<and> (\<forall>r\<in>set records. str_of r ''content_hash'' \<noteq> None)"
proof (induction records arbitrary: i index)
  case (Cons r records)
  obtain h where h: "str_of r ''content_hash'' = Some h"
    and rec: "split_index (i + 1) records (if map_of index h = None then bt_insert h i index else index) = Ok index'"
    using Cons.prems(1) by (cases "str_of r ''content_hash''") (simp_all del: ok_or_eq_Ok)
  have wf: "bt_wf (if map_of index h = None then bt_insert h i index else index)" using Cons.prems(2) by (simp add: bt_wf_insert)
  have "dom (map_of (if map_of index h = None then bt_insert h i index else index)) = insert h (dom (map_of index))"
    using Cons.prems(2) by (auto simp: map_of_bt_insert split: if_splits)
  then show ?case using Cons.IH [OF rec wf] h by auto
qed simp

lemma index_card:
  assumes "split_index 0 records [] = Ok index"
  shows "card (dom (map_of index)) \<le> length records"
    and "distinct (map (\<lambda>r. str_of r ''content_hash'') records) \<Longrightarrow> card (dom (map_of index)) = length records"
proof -
  have I: "dom (map_of index) = {h. \<exists>r\<in>set records. str_of r ''content_hash'' = Some h}" "\<forall>r\<in>set records. str_of r ''content_hash'' \<noteq> None"
    using split_index_ok [OF assms bt_wf_Nil] by auto
  have S: "Some ` dom (map_of index) = set (map (\<lambda>r. str_of r ''content_hash'') records)" unfolding I(1) using I(2) by force
  have c: "card (dom (map_of index)) = card (set (map (\<lambda>r. str_of r ''content_hash'') records))" unfolding S [symmetric] by (simp add: card_image)
  show "card (dom (map_of index)) \<le> length records" unfolding c using card_length [of "map (\<lambda>r. str_of r ''content_hash'') records"] by simp
  show "card (dom (map_of index)) = length records" if "distinct (map (\<lambda>r. str_of r ''content_hash'') records)"
    unfolding c using distinct_card [OF that] by simp
qed

lemma committed_by_distinct: "distinct (committed_by records index cp)"
  unfolding committed_by_def closure_def using committed_loop_sorted by simp

lemma group_ends_sub:
  assumes "groups_of cps groups" "sorted_wrt P cps"
  shows "sorted_wrt P (map (\<lambda>g. last (snd g)) groups)" "set (map (\<lambda>g. last (snd g)) groups) \<subseteq> set cps"
proof -
  have "sorted_wrt P (map last gs) \<and> set (map last gs) \<subseteq> set (concat gs)" if "\<forall>g\<in>set gs. g \<noteq> []" "sorted_wrt P (concat gs)" for gs
    using that
  proof (induction gs)
    case (Cons g gs)
    then show ?case by (auto simp: sorted_wrt_append)
  qed simp
  from this [of "map snd groups"] assms have "sorted_wrt P (map last (map snd groups)) \<and> set (map last (map snd groups)) \<subseteq> set cps"
    unfolding groups_of_def by auto
  then show "sorted_wrt P (map (\<lambda>g. last (snd g)) groups)" "set (map (\<lambda>g. last (snd g)) groups) \<subseteq> set cps"
    by (simp_all add: comp_def)
qed

lemma split_bundle_ok:
  assumes "split_bundle uni bundle = Ok out"
  obtains index groups where "split_index 0 (array_of bundle ''records'') [] = Ok index"
    "groups_of (sort_key seq_of (array_of bundle ''checkpoints'')) groups" "groups \<noteq> []"
    "split_loop uni bundle index groups [] None 0 = Ok (length (array_of bundle ''records''), out)"
proof -
  obtain index groups where i: "split_index 0 (array_of bundle ''records'') [] = Ok index"
    and g: "group_months (sort_key seq_of (array_of bundle ''checkpoints'')) [] = Ok groups" and ne: "array_of bundle ''checkpoints'' \<noteq> []"
    and l: "split_loop uni bundle index groups [] None 0 = Ok (length (array_of bundle ''records''), out)"
    using assms unfolding split_bundle_def by (auto simp: Let_def split: if_splits)
  have G: "groups_of (sort_key seq_of (array_of bundle ''checkpoints'')) groups"
    using group_months_ok [OF g, of "[]"] by (simp add: groups_of_def)
  moreover have "groups \<noteq> []"
  proof
    assume "groups = []"
    then have "sort_key seq_of (array_of bundle ''checkpoints'') = []" using G by (simp add: groups_of_def)
    then show False using ne by (metis set_empty set_sort)
  qed
  ultimately show ?thesis using that i l by blast
qed

text \<open>C15: Splitting keeps the history. If records have distinct hashes, every checkpoint commits only records of the
  bundle and later checkpoints commit what earlier ones do, then an accepted split puts every record in
  exactly one month, the months increase, and the checkpoints that the months add are the checkpoints
  of the bundle in order.\<close>

theorem split_partition:
  assumes split: "split_bundle uni bundle = Ok out"
    and records: "records = array_of bundle ''records''" and cps: "cps = sort_key seq_of (array_of bundle ''checkpoints'')"
    and index: "split_index 0 records [] = Ok index"
    and distinct: "distinct (map (\<lambda>r. str_of r ''content_hash'') records)"
    and known: "\<forall>cp\<in>set cps. set (committed_by records index cp) \<subseteq> dom (map_of index)"
    and grow: "sorted_wrt (\<lambda>a b. set (committed_by records index a) \<subseteq> set (committed_by records index b)) cps"
  shows "mset (concat (map (\<lambda>(m, seg). array_of seg ''records'') out)) = mset records
    \<and> sorted_wrt (<) (map fst out)
    \<and> concat (take 1 (map (\<lambda>(m, seg). array_of seg ''checkpoints'') out)) @ concat (map tl (drop 1 (map (\<lambda>(m, seg). array_of seg ''checkpoints'') out))) = cps"
proof -
  obtain groups where G: "groups_of cps groups" "groups \<noteq> []" and loop: "split_loop uni bundle index groups [] None 0 = Ok (length records, out)"
    using split_bundle_ok [OF split] index unfolding records cps by auto
  note L = split_loop_ok [OF loop, folded records]
  let ?c = "\<lambda>g. committed_by records index (last (snd g))"
  let ?last = "?c (last groups)"
  have grow': "sorted_wrt (\<lambda>a b. set a \<subseteq> set b) ([] # map ?c groups)"
    using group_ends_sub(1) [OF G(1) grow] by (simp add: sorted_wrt_map)
  have "last (snd (last groups)) \<in> set cps" using group_ends_sub(2) [OF G(1) grow] G(2) by auto
  then have sub: "set ?last \<subseteq> dom (map_of index)" using known by blast
  have I: "dom (map_of index) = {h. \<exists>r\<in>set records. str_of r ''content_hash'' = Some h}" "\<forall>r\<in>set records. str_of r ''content_hash'' \<noteq> None"
    using split_index_ok [OF index bt_wf_Nil] by auto
  have dist: "distinct ?last" by (rule committed_by_distinct)
  note index_card(2) [OF index distinct]
  moreover have "card (set ?last) = length records" using distinct_card [OF dist] L G(2) by simp
  ultimately have "set ?last = dom (map_of index)" using sub card_subset_eq [OF finite_dom_map_of] by metis
  then have "in_closure ?last r" if "r \<in> set records" for r using I that unfolding in_closure_def by blast
  then have "filter (in_closure ?last) records = records" by (simp add: filter_id_conv)
  moreover have "last ([] # map ?c groups) = ?last" using G(2) by (simp add: last_map)
  moreover have "filter (in_closure []) records = []" by (simp add: in_closure_def filter_empty_conv)
  ultimately have "mset (concat (month_split records [] (map ?c groups))) = mset records"
    using month_split_mset [OF grow', of records] by simp
  moreover have "sorted_wrt (<) (map fst groups)" using G(1) by (simp add: groups_of_def)
  moreover have "concat (take 1 (month_cps None (map snd groups))) @ concat (map tl (drop 1 (month_cps None (map snd groups)))) = cps"
    using month_cps_concat [of "map snd groups" None] G(1) by (simp add: groups_of_def)
  ultimately show ?thesis using L by simp
qed

section \<open>The final count\<close>

lemma bind_result_eq_Err: "bind_result r f = Err e \<longleftrightarrow> r = Err e \<or> (\<exists>a. r = Ok a \<and> f a = Err e)"
  by (cases r) auto

lemma ok_or_eq_Err: "ok_or x e = Err e' \<longleftrightarrow> x = None \<and> e' = e"
  by (cases x) auto

lemma map_err_eq_Err: "map_err f r = Err e \<longleftrightarrow> (\<exists>e'. r = Err e' \<and> e = f e')"
  by (cases r) auto

lemmas err_simps = bind_result_eq_Err ok_or_eq_Err map_err_eq_Err

text \<open>The errors of the last test; no earlier step returns one.\<close>

fun count_error :: "split_error \<Rightarrow> bool" where
  "count_error SubtractOverflow = True"
| "count_error (CommittedByNone n) = True"
| "count_error _ = False"

lemma split_index_error: "split_index i records index = Err e \<Longrightarrow> \<not> count_error e"
  by (induction i records index rule: split_index.induct) (auto simp: err_simps)

lemma group_months_error: "group_months cps groups = Err e \<Longrightarrow> \<not> count_error e"
proof (induction cps arbitrary: groups)
  case (Cons cp cps)
  have "\<not> count_error e" if "group_month cp groups = Err e" for groups e
    using that unfolding group_month_def by (cases "last groups") (auto simp: err_simps Let_def split: if_splits)
  then show ?case using Cons by (auto simp: err_simps)
qed simp

lemma month_segment_error: "month_segment uni bundle is_last month base grp mine b = Err e \<Longrightarrow> \<not> count_error e"
  by (cases b) (auto simp: month_segment_def err_simps)

lemma base_members_error: "base_members uni base = Err e \<Longrightarrow> \<not> count_error e"
  by (cases base) (auto simp: base_members_def err_simps)

lemma split_month_error: "split_month uni bundle index is_last mg prev base = Err e \<Longrightarrow> \<not> count_error e"
  by (cases mg) (auto simp: split_month_def err_simps Let_def split: if_splits dest: month_segment_error base_members_error)

lemma split_loop_error: "split_loop uni bundle index groups prev base assigned = Err e \<Longrightarrow> \<not> count_error e"
  by (induction groups arbitrary: prev base assigned) (auto simp: err_simps split_month_error)

lemma groups_of_last:
  assumes "groups_of cps groups" "groups \<noteq> []"
  shows "last (snd (last groups)) = last cps"
  using assms by (cases groups rule: rev_cases) (auto simp: groups_of_def)

text \<open>An accepted bundle, or one that only the last test refuses: the test compares with the last checkpoint.\<close>

lemma split_bundle_count:
  assumes r: "split_bundle uni bundle = res" "\<And>e. res = Err e \<Longrightarrow> count_error e"
    and records: "records = array_of bundle ''records''" and cps: "cps = sort_key seq_of (array_of bundle ''checkpoints'')"
    and index: "split_index 0 records [] = Ok index"
  shows "cps \<noteq> []" and "\<exists>out. res = (let n = length (committed_by records index (last cps))
    in if n = length records then Ok out else if length records < n then Err SubtractOverflow else Err (CommittedByNone (length records - n)))"
proof -
  have ne: "array_of bundle ''checkpoints'' \<noteq> []"
  proof
    assume "array_of bundle ''checkpoints'' = []"
    then show False using r by (auto simp: split_bundle_def)
  qed
  then show cne: "cps \<noteq> []" unfolding cps by (metis set_empty set_sort)
  obtain groups where g: "group_months cps [] = Ok groups"
    using r ne index group_months_error unfolding split_bundle_def Let_def records cps by (cases "group_months cps []") (force simp: cps)+
  have G: "groups_of cps groups" using group_months_ok [OF g, of "[]"] by (simp add: groups_of_def)
  then have gne: "groups \<noteq> []" using cne by (auto simp: groups_of_def)
  obtain t out where l: "split_loop uni bundle index groups [] None 0 = Ok (t, out)"
    using r ne index g split_loop_error unfolding split_bundle_def Let_def records cps
    by (cases "split_loop uni bundle index groups [] None 0") force+
  have "t = length (committed_by records index (last cps))"
    using split_loop_ok [OF l] gne groups_of_last [OF G gne] unfolding records by simp
  then show "\<exists>out. res = (let n = length (committed_by records index (last cps))
    in if n = length records then Ok out else if length records < n then Err SubtractOverflow else Err (CommittedByNone (length records - n)))"
    using r(1) ne index g l unfolding split_bundle_def records cps by (auto simp: Let_def)
qed

text \<open>How many records a closed set of hashes leaves out.\<close>

lemma uncommitted_count:
  assumes index: "split_index 0 records [] = Ok index" and d: "distinct (map (\<lambda>r. str_of r ''content_hash'') records)"
    and c: "distinct c" "set c \<subseteq> dom (map_of index)"
  shows "length (filter (\<lambda>r. \<not> in_closure c r) records) = length records - length c"
proof -
  have I: "dom (map_of index) = {h. \<exists>r\<in>set records. str_of r ''content_hash'' = Some h}"
    using split_index_ok [OF index bt_wf_Nil] by auto
  let ?f = "\<lambda>r. str_of r ''content_hash''"
  have "?f ` set (filter (in_closure c) records) = Some ` set c"
  proof (intro equalityI subsetI)
    fix x
    assume "x \<in> ?f ` set (filter (in_closure c) records)"
    then show "x \<in> Some ` set c" by (auto simp: in_closure_def)
  next
    fix x
    assume "x \<in> Some ` set c"
    then obtain h where h: "x = Some h" "h \<in> set c" by blast
    then obtain r where "r \<in> set records" "?f r = Some h" using c(2) unfolding I by blast
    then show "x \<in> ?f ` set (filter (in_closure c) records)" using h by (auto simp: in_closure_def intro!: image_eqI [of _ _ r])
  qed
  moreover have "distinct (map ?f (filter (in_closure c) records))" using d by (rule distinct_map_filter)
  ultimately have "length (filter (in_closure c) records) = length c"
    using distinct_card [of "map ?f (filter (in_closure c) records)"] distinct_card [OF c(1)] by (simp add: card_image)
  then show ?thesis using sum_length_filter_compl [of "in_closure c" records] by linarith
qed

text \<open>C16: What the last test of a split shows. A subtraction below zero happens only if the last checkpoint commits a
  hash that is no record of the bundle. When it commits only records of the bundle and their hashes are
  distinct, a bundle that the test refuses has exactly the reported number of records, at least one,
  that the last checkpoint does not commit, and an accepted bundle has none.\<close>

theorem split_count_test:
  assumes records: "records = array_of bundle ''records''" and cps: "cps = sort_key seq_of (array_of bundle ''checkpoints'')"
    and index: "split_index 0 records [] = Ok index"
  defines "c \<equiv> committed_by records index (last cps)"
  shows "(split_bundle uni bundle = Err SubtractOverflow \<longrightarrow> \<not> set c \<subseteq> dom (map_of index))
    \<and> (distinct (map (\<lambda>r. str_of r ''content_hash'') records) \<and> set c \<subseteq> dom (map_of index) \<longrightarrow>
        (\<forall>n. split_bundle uni bundle = Err (CommittedByNone n) \<longrightarrow> 0 < n \<and> n = length (filter (\<lambda>r. \<not> in_closure c r) records))
        \<and> (\<forall>out. split_bundle uni bundle = Ok out \<longrightarrow> list_all (in_closure c) records))"
proof -
  note count = split_bundle_count(2) [OF _ _ records cps index, where uni = uni, folded c_def]
  have d: "distinct c" unfolding c_def by (rule committed_by_distinct)
  have over: "\<not> set c \<subseteq> dom (map_of index)" if "split_bundle uni bundle = Err SubtractOverflow"
  proof
    assume "set c \<subseteq> dom (map_of index)"
    then have "length c \<le> length records"
      using card_mono [OF finite_dom_map_of] index_card(1) [OF index] distinct_card [OF d] by (metis order_trans)
    then show False using count [OF that] by (auto simp: Let_def split: if_splits)
  qed
  note left = uncommitted_count [OF index _ d]
  have refuse: "0 < n \<and> n = length records - length c" if "split_bundle uni bundle = Err (CommittedByNone n)" for n
    using count [OF that] by (auto simp: Let_def split: if_splits)
  have accept: "length c = length records" if "split_bundle uni bundle = Ok out" for out
    using count [OF that] by (auto simp: Let_def split: if_splits)
  have all: "list_all (in_closure c) records" if "length (filter (\<lambda>r. \<not> in_closure c r) records) = 0"
    using that by (simp add: list_all_iff filter_empty_conv)
  show ?thesis
  proof (intro conjI impI allI)
    fix out
    assume "distinct (map (\<lambda>r. str_of r ''content_hash'') records) \<and> set c \<subseteq> dom (map_of index)" "split_bundle uni bundle = Ok out"
    then show "list_all (in_closure c) records" using all left accept by simp
  qed (use over left refuse in simp_all)
qed

section \<open>Concrete bundles\<close>

definition split_record :: "string \<Rightarrow> string list \<Rightarrow> canon_value" where
  "split_record h ps = Object [(''content_hash'', Str h), (''causal_prev_hashes'', Array (map Str ps))]"

definition split_cp :: "int \<Rightarrow> string \<Rightarrow> string list \<Rightarrow> int \<Rightarrow> canon_value" where
  "split_cp n ts frontier k =
     Object [(''checkpoint_seq'', CInt n), (''created_ts'', Str ts), (''frontier'', Array (map Str frontier)),
       (''record_count'', CInt k), (''checkpoint_hash'', Str ts)]"

definition split_demo :: canon_value where
  "split_demo = Object [(''records'', Array [split_record ''b'' [''a''], split_record ''a'' []]),
     (''checkpoints'', Array [split_cp 2 ''2026-02-01'' [''b''] 2, split_cp 1 ''2026-01-01'' [''a''] 1])]"

lemma split_demo_index: "split_index 0 (array_of split_demo ''records'') [] = Ok [(''a'', 1), (''b'', 0)]"
  by code_simp

lemma split_demo_ok: "ok (split_bundle id split_demo) \<noteq> None"
  by code_simp

theorem split_partition_witness:
  "\<exists>out. split_bundle id split_demo = Ok out
    \<and> mset (concat (map (\<lambda>(m, seg). array_of seg ''records'') out)) = mset [split_record ''b'' [''a''], split_record ''a'' []]"
proof -
  obtain out where out: "split_bundle id split_demo = Ok out" using split_demo_ok by (cases "split_bundle id split_demo") simp_all
  have r: "[split_record ''b'' [''a''], split_record ''a'' []] = array_of split_demo ''records''" by code_simp
  have c: "[split_cp 1 ''2026-01-01'' [''a''] 1, split_cp 2 ''2026-02-01'' [''b''] 2] = sort_key seq_of (array_of split_demo ''checkpoints'')" by code_simp
  have d: "distinct (map (\<lambda>r. str_of r ''content_hash'') [split_record ''b'' [''a''], split_record ''a'' []])" by code_simp
  have C: "committed_by [split_record ''b'' [''a''], split_record ''a'' []] [(''a'', 1), (''b'', 0)] (split_cp 1 ''2026-01-01'' [''a''] 1) = [''a'']"
    "committed_by [split_record ''b'' [''a''], split_record ''a'' []] [(''a'', 1), (''b'', 0)] (split_cp 2 ''2026-02-01'' [''b''] 2) = [''a'', ''b'']"
    by code_simp+
  show ?thesis using out split_partition [OF out r c split_demo_index [folded r] d] C by simp
qed

lemma split_underflows:
  "split_bundle id (Object [(''records'', Array [split_record ''a'' [''lost'']]), (''checkpoints'', Array [split_cp 1 ''2026-01-01'' [''a''] 2])])
     = Err SubtractOverflow"
  by code_simp

lemma split_drops:
  "map_option (map (\<lambda>(m, seg). array_of seg ''records'')) (ok (split_bundle id
     (Object [(''records'', Array [split_record ''a'' [''lost''], split_record ''b'' []]), (''checkpoints'', Array [split_cp 1 ''2026-01-01'' [''a''] 2])])))
     = Some [[split_record ''a'' [''lost'']]]"
  by code_simp

text \<open>The test needs its hypothesis. A parent that is no record of the bundle counts as committed. With it, a
  checkpoint over one record has a committed history of two, and the message about uncommitted records
  subtracts two from one (\<open>split_underflows\<close>); and it makes up for a record that no checkpoint commits, so
  that the bundle is split without that record (\<open>split_drops\<close>).\<close>

theorem split_count_test_witness:
  "\<not> set (committed_by [split_record ''a'' [''lost'']] [(''a'', 0)] (split_cp 1 ''2026-01-01'' [''a''] 2)) \<subseteq> dom (map_of [(''a'', 0 :: nat)])"
proof -
  let ?b = "Object [(''records'', Array [split_record ''a'' [''lost'']]), (''checkpoints'', Array [split_cp 1 ''2026-01-01'' [''a''] 2])]"
  have r: "[split_record ''a'' [''lost'']] = array_of ?b ''records''" by code_simp
  have c: "[split_cp 1 ''2026-01-01'' [''a''] 2] = sort_key seq_of (array_of ?b ''checkpoints'')" by code_simp
  have i: "split_index 0 [split_record ''a'' [''lost'']] [] = Ok [(''a'', 0)]" by code_simp
  show ?thesis using split_count_test [OF r c i, of id] split_underflows by simp
qed

end
