(* ===== verification/Disclosures.thy ===== *)
theory Disclosures
  imports Record_Guarantees Object_Fields Btree
begin

text \<open>
  Selective disclosures: \<open>verify_disclosures\<close> of \<open>core/src/verify.rs\<close>. A bundle may reveal the value and the
  nonce behind a commitment of one of its records; every entry is counted as verified or reported as one
  issue. The issue list of the caller is an argument and a result.
\<close>

datatype disclosure_issue =
    DisclosuresNotArray
  | MissingMembers nat
  | DuplicateDisclosure nat string string
  | UnknownField nat string
  | NoSuchRecord nat string
  | NoCommitment nat string string
  | BadValue nat
  | BadNonce nat
  | Mismatch nat string string

fun index_by_id :: "canon_value list \<Rightarrow> (string \<times> canon_value) list \<Rightarrow> (string \<times> canon_value) list" where
  "index_by_id [] by_id = by_id"
| "index_by_id (rec # records) by_id =
     (case field_str rec ''record_id'' of
        Some rid \<Rightarrow> index_by_id records (if map_of by_id rid = None then bt_insert rid rec by_id else by_id)
      | None \<Rightarrow> index_by_id records by_id)"

definition disclosed :: "canon_value \<Rightarrow> (string \<times> string \<times> string \<times> string) option" where
  "disclosed d =
     (case (field_str d ''record_id'', field_str d ''field'', field_str d ''value_b64'', field_str d ''nonce_hex'') of
        (Some a, Some b, Some c, Some e) \<Rightarrow> Some (a, b, c, e)
      | _ \<Rightarrow> None)"

definition check_opening :: "('sk, 'vk) externals \<Rightarrow> (string \<times> canon_value) list \<Rightarrow> nat \<Rightarrow> string \<Rightarrow> string \<Rightarrow> string \<Rightarrow> string
    \<Rightarrow> (bytes, disclosure_issue) result" where
  "check_opening X by_id i rid field value_b64 nonce_hex =
     bind_result (ok_or (field_domain_parse field) (UnknownField i field)) (\<lambda>domain.
     bind_result (ok_or (map_of by_id rid) (NoSuchRecord i rid)) (\<lambda>rec.
     bind_result (ok_or (Option.bind (get rec (field @ ''_commit'')) (\<lambda>c. Option.bind (get c ''commitment'') as_str)) (NoCommitment i rid field)) (\<lambda>commitment.
     bind_result (map_err (\<lambda>_. BadValue i) (decode value_b64)) (\<lambda>value.
     bind_result (ok_or (hex32 nonce_hex) (BadNonce i)) (\<lambda>nonce.
       if verify_commitment X commitment domain value nonce then Ok value else Err (Mismatch i rid field))))))"

record disclosure_state =
  ds_seen :: "(string \<times> string) list"
  ds_verified :: nat
  ds_creds :: "(string \<times> bytes) list"
  ds_issues :: "disclosure_issue list"

definition report_issue :: "disclosure_issue \<Rightarrow> disclosure_state \<Rightarrow> disclosure_state" where
  "report_issue e st = st \<lparr> ds_issues := ds_issues st @ [e] \<rparr>"

definition disclosure_step :: "('sk, 'vk) externals \<Rightarrow> (string \<times> canon_value) list \<Rightarrow> nat \<Rightarrow> canon_value \<Rightarrow> disclosure_state \<Rightarrow> disclosure_state" where
  "disclosure_step X by_id i d st =
     (case disclosed d of
        None \<Rightarrow> report_issue (MissingMembers i) st
      | Some (rid, field, value_b64, nonce_hex) \<Rightarrow>
          if (rid, field) \<in> set (ds_seen st) then report_issue (DuplicateDisclosure i rid field) st
          else
            let st = st \<lparr> ds_seen := (rid, field) # ds_seen st \<rparr>
            in (case check_opening X by_id i rid field value_b64 nonce_hex of
                  Err e \<Rightarrow> report_issue e st
                | Ok value \<Rightarrow>
                    let st = st \<lparr> ds_verified := ds_verified st + 1 \<rparr>
                    in if field = ''credential'' then st \<lparr> ds_creds := ds_creds st @ [(rid, value)] \<rparr> else st))"

fun disclosure_loop :: "('sk, 'vk) externals \<Rightarrow> (string \<times> canon_value) list \<Rightarrow> nat \<Rightarrow> canon_value list \<Rightarrow> disclosure_state \<Rightarrow> disclosure_state" where
  "disclosure_loop X by_id i [] st = st"
| "disclosure_loop X by_id i (d # list) st = disclosure_loop X by_id (i + 1) list (disclosure_step X by_id i d st)"

definition verify_disclosures :: "('sk, 'vk) externals \<Rightarrow> canon_value \<Rightarrow> canon_value list \<Rightarrow> disclosure_issue list
    \<Rightarrow> nat \<times> nat \<times> (string \<times> bytes) list \<times> disclosure_issue list" where
  "verify_disclosures X bundle records issues =
     (case get bundle ''disclosures'' of
        None \<Rightarrow> (0, 0, [], issues)
      | Some v \<Rightarrow>
          if is_null v then (0, 0, [], issues)
          else (case as_array v of
              None \<Rightarrow> (0, 0, [], issues @ [DisclosuresNotArray])
            | Some list \<Rightarrow>
                let st = disclosure_loop X (index_by_id records []) 0 list \<lparr> ds_seen = [], ds_verified = 0, ds_creds = [], ds_issues = issues \<rparr>
                in (length list, ds_verified st, ds_creds st, ds_issues st)))"

section \<open>What a verified disclosure shows\<close>

text \<open>The first record with an id, and the commitment it carries for a field.\<close>

definition first_with_id :: "canon_value list \<Rightarrow> string \<Rightarrow> canon_value option" where
  "first_with_id records rid = List.find (\<lambda>rec. field_str rec ''record_id'' = Some rid) records"

definition commitment_of :: "canon_value list \<Rightarrow> string \<Rightarrow> string \<Rightarrow> string option" where
  "commitment_of records rid field =
     Option.bind (first_with_id records rid) (\<lambda>rec. Option.bind (get rec (field @ ''_commit'')) (\<lambda>c. Option.bind (get c ''commitment'') as_str))"

text \<open>An entry opens the commitment of its record to \<open>value\<close>.\<close>

definition opens_to :: "('sk, 'vk) externals \<Rightarrow> canon_value list \<Rightarrow> canon_value \<Rightarrow> bytes \<Rightarrow> bool" where
  "opens_to X records d value \<longleftrightarrow>
     (\<exists>rid field value_b64 nonce_hex domain commitment nonce.
        disclosed d = Some (rid, field, value_b64, nonce_hex) \<and> field_domain_parse field = Some domain
        \<and> commitment_of records rid field = Some commitment \<and> decode value_b64 = Ok value \<and> hex32 nonce_hex = Some nonce
        \<and> verify_commitment X commitment domain value nonce)"

definition slot :: "canon_value \<Rightarrow> (string \<times> string) option" where
  "slot d = map_option (\<lambda>(rid, field, _). (rid, field)) (disclosed d)"

lemma index_by_id_first:
  "bt_wf by_id \<Longrightarrow> map_of (index_by_id records by_id) rid = (case map_of by_id rid of Some r \<Rightarrow> Some r | None \<Rightarrow> first_with_id records rid)"
proof (induction records arbitrary: by_id)
  case (Cons rec records)
  show ?case
  proof (cases "field_str rec ''record_id''")
    case None
    then have "first_with_id (rec # records) rid = first_with_id records rid" unfolding first_with_id_def find.simps None by simp
    then show ?thesis using Cons None by (simp split: option.split)
  next
    case (Some r)
    have wf: "bt_wf (if map_of by_id r = None then bt_insert r rec by_id else by_id)" using Cons.prems by (simp add: bt_wf_insert)
    have "first_with_id (rec # records) rid = (if r = rid then Some rec else first_with_id records rid)"
      unfolding first_with_id_def find.simps Some by simp
    moreover have "index_by_id (rec # records) by_id = index_by_id records (if map_of by_id r = None then bt_insert r rec by_id else by_id)"
      unfolding index_by_id.simps Some by simp
    ultimately show ?thesis using Cons.IH [OF wf] map_of_bt_insert [OF Cons.prems, of r rec rid] by (auto split: option.split)
  qed
qed (simp add: first_with_id_def split: option.split)

lemma check_opening_Ok:
  assumes "disclosed d = Some (rid, field, value_b64, nonce_hex)"
  shows "check_opening X (index_by_id records []) i rid field value_b64 nonce_hex = Ok value \<longleftrightarrow> opens_to X records d value"
proof -
  have m: "map_of (index_by_id records []) rid = first_with_id records rid" using index_by_id_first [OF bt_wf_Nil] by simp
  show ?thesis unfolding check_opening_def opens_to_def commitment_of_def m assms
    by (cases "field_domain_parse field"; cases "first_with_id records rid"; cases "decode value_b64"; cases "hex32 nonce_hex") auto
qed

section \<open>The count\<close>

lemma disclosure_step_cases:
  assumes "by_id = index_by_id records []"
  shows "(\<exists>value rid field. slot d = Some (rid, field) \<and> (rid, field) \<notin> set (ds_seen st) \<and> opens_to X records d value
        \<and> disclosure_step X by_id i d st = st \<lparr> ds_seen := (rid, field) # ds_seen st, ds_verified := ds_verified st + 1,
            ds_creds := ds_creds st @ (if field = ''credential'' then [(rid, value)] else []) \<rparr>)
    \<or> ((slot d = None \<or> the (slot d) \<in> set (ds_seen st) \<or> \<not> (\<exists>value. opens_to X records d value))
        \<and> (\<exists>e seen. disclosure_step X by_id i d st = st \<lparr> ds_seen := seen, ds_issues := ds_issues st @ [e] \<rparr>))"
proof (cases "disclosed d")
  case None
  have "disclosure_step X by_id i d st = st \<lparr> ds_seen := ds_seen st, ds_issues := ds_issues st @ [MissingMembers i] \<rparr>"
    using None by (simp add: disclosure_step_def report_issue_def)
  moreover have "slot d = None" using None by (simp add: slot_def)
  ultimately show ?thesis by blast
next
  case (Some q)
  obtain rid field v n where q: "q = (rid, field, v, n)" by (cases q) auto
  have s: "slot d = Some (rid, field)" using Some q by (simp add: slot_def)
  note ok = check_opening_Ok [OF Some [unfolded q], where X = X and records = records and i = i]
  show ?thesis
  proof (cases "(rid, field) \<in> set (ds_seen st)")
    case True
    have "disclosure_step X by_id i d st = st \<lparr> ds_seen := ds_seen st, ds_issues := ds_issues st @ [DuplicateDisclosure i rid field] \<rparr>"
      using Some q True by (simp add: disclosure_step_def report_issue_def)
    moreover have "the (slot d) \<in> set (ds_seen st)" using s True by simp
    ultimately show ?thesis by blast
  next
    case False
    show ?thesis
    proof (cases "check_opening X by_id i rid field v n")
      case (Ok val)
      then have "opens_to X records d val" using ok assms by simp
      moreover have "disclosure_step X by_id i d st = st \<lparr> ds_seen := (rid, field) # ds_seen st, ds_verified := ds_verified st + 1,
            ds_creds := ds_creds st @ (if field = ''credential'' then [(rid, val)] else []) \<rparr>"
        using Some q False Ok by (simp add: disclosure_step_def Let_def)
      ultimately show ?thesis using s False by blast
    next
      case (Err e)
      then have "\<not> (\<exists>value. opens_to X records d value)" using ok assms by auto
      moreover have "disclosure_step X by_id i d st = st \<lparr> ds_seen := (rid, field) # ds_seen st, ds_issues := ds_issues st @ [e] \<rparr>"
        using Some q False Err by (simp add: disclosure_step_def Let_def report_issue_def)
      ultimately show ?thesis by blast
    qed
  qed
qed

text \<open>Where the loop stands: what it verified and what it reported.\<close>

definition accounts :: "('sk, 'vk) externals \<Rightarrow> canon_value list \<Rightarrow> disclosure_issue list \<Rightarrow> canon_value list \<Rightarrow> disclosure_state \<Rightarrow> bool" where
  "accounts X records issues ds st \<longleftrightarrow>
     (\<exists>new. ds_issues st = issues @ new \<and> ds_verified st + length new = length ds
        \<and> (new = [] \<longrightarrow> map Some (rev (ds_seen st)) = map slot ds)
        \<and> (new = [] \<longleftrightarrow> distinct (map slot ds) \<and> (\<forall>d\<in>set ds. \<exists>value. opens_to X records d value)))
     \<and> (\<forall>(rid, value)\<in>set (ds_creds st). \<exists>d\<in>set ds. slot d = Some (rid, ''credential'') \<and> opens_to X records d value)"

lemma opens_slot: "opens_to X records d value \<Longrightarrow> slot d \<noteq> None"
  by (auto simp: opens_to_def slot_def)

lemma accounts_step:
  assumes "accounts X records issues ds st" "by_id = index_by_id records []"
  shows "accounts X records issues (ds @ [d]) (disclosure_step X by_id i d st)"
proof -
  obtain new where new: "ds_issues st = issues @ new" "ds_verified st + length new = length ds"
    "new = [] \<longrightarrow> map Some (rev (ds_seen st)) = map slot ds"
    "new = [] \<longleftrightarrow> distinct (map slot ds) \<and> (\<forall>d\<in>set ds. \<exists>value. opens_to X records d value)"
    and creds: "\<forall>(rid, value)\<in>set (ds_creds st). \<exists>d\<in>set ds. slot d = Some (rid, ''credential'') \<and> opens_to X records d value"
    using assms(1) unfolding accounts_def by blast
  have seen: "slot d \<in> set (map slot ds) \<longleftrightarrow> (\<exists>p\<in>set (ds_seen st). slot d = Some p)" if "new = []"
    using new(3) that by (metis (no_types, lifting) image_iff list.set_map set_rev)
  let ?st = "disclosure_step X by_id i d st"
  consider (ok) v rid field where "slot d = Some (rid, field)" "(rid, field) \<notin> set (ds_seen st)" "opens_to X records d v"
      "?st = st \<lparr> ds_seen := (rid, field) # ds_seen st, ds_verified := ds_verified st + 1,
            ds_creds := ds_creds st @ (if field = ''credential'' then [(rid, v)] else []) \<rparr>"
    | (bad) e seen' where "slot d = None \<or> the (slot d) \<in> set (ds_seen st) \<or> \<not> (\<exists>value. opens_to X records d value)"
      "?st = st \<lparr> ds_seen := seen', ds_issues := ds_issues st @ [e] \<rparr>"
    using disclosure_step_cases [OF assms(2), of d st X i] by blast
  then show ?thesis
  proof cases
    case ok
    note s = ok(1-3) and st = ok(4)
    have "new = [] \<longleftrightarrow> distinct (map slot (ds @ [d])) \<and> (\<forall>d\<in>set (ds @ [d]). \<exists>value. opens_to X records d value)"
      using new(4) seen s by auto
    moreover have "\<forall>(rid, value)\<in>set (ds_creds ?st). \<exists>d\<in>set (ds @ [d]). slot d = Some (rid, ''credential'') \<and> opens_to X records d value"
      using creds s(1,3) unfolding st by auto
    ultimately show ?thesis using new(1-3) s(1) unfolding accounts_def st by auto
  next
    case bad
    note st = bad(2)
    have "\<not> (distinct (map slot (ds @ [d])) \<and> (\<forall>d\<in>set (ds @ [d]). \<exists>value. opens_to X records d value))"
    proof
      assume good: "distinct (map slot (ds @ [d])) \<and> (\<forall>d\<in>set (ds @ [d]). \<exists>value. opens_to X records d value)"
      then have "new = []" using new(4) by simp
      moreover have "slot d \<noteq> None" using good opens_slot by auto
      ultimately show False using bad(1) good seen by auto
    qed
    then show ?thesis using new(1,2) creds unfolding accounts_def st by (intro conjI exI [of _ "new @ [e]"]) (auto; blast)+
  qed
qed

lemma accounts_loop:
  "accounts X records issues pre st \<Longrightarrow> by_id = index_by_id records [] \<Longrightarrow> accounts X records issues (pre @ ds) (disclosure_loop X by_id i ds st)"
proof (induction ds arbitrary: i pre st)
  case (Cons d ds)
  from Cons.IH [OF accounts_step [OF Cons.prems] Cons.prems(2)] show ?case by simp
qed simp

text \<open>C21: Every disclosure of a bundle is counted: it is either verified or reported as exactly one issue. There is no
  issue exactly when no slot is disclosed twice and every entry opens the commitment that its record
  carries, and every credential descriptor that is handed on opens the commitment of its record.\<close>

theorem disclosures_accounted:
  assumes "get bundle ''disclosures'' = Some (Array ds)"
  shows "\<exists>verified creds new. verify_disclosures X bundle records issues = (length ds, verified, creds, issues @ new)
    \<and> verified + length new = length ds
    \<and> (new = [] \<longleftrightarrow> distinct (map slot ds) \<and> (\<forall>d\<in>set ds. \<exists>value. opens_to X records d value))
    \<and> (\<forall>(rid, value)\<in>set creds. \<exists>d\<in>set ds. slot d = Some (rid, ''credential'') \<and> opens_to X records d value)"
proof -
  let ?s = "\<lparr> ds_seen = [], ds_verified = 0, ds_creds = [], ds_issues = issues \<rparr>"
  let ?st = "disclosure_loop X (index_by_id records []) 0 ds ?s"
  have "accounts X records issues [] ?s" by (simp add: accounts_def)
  from accounts_loop [OF this refl, of ds 0] have "accounts X records issues ds ?st" by simp
  moreover have "verify_disclosures X bundle records issues = (length ds, ds_verified ?st, ds_creds ?st, ds_issues ?st)"
    using assms by (simp add: verify_disclosures_def is_null_def as_array_def Let_def)
  ultimately show ?thesis unfolding accounts_def by auto
qed

definition disclosure_demo :: canon_value where
  "disclosure_demo =
     Object [(''record_id'', Str ''r''), (''field'', Str ''input''), (''value_b64'', Str (encode [])), (''nonce_hex'', Str (hex_lower (replicate 32 0)))]"

definition disclosure_record :: canon_value where
  "disclosure_record =
     Object [(''record_id'', Str ''r''), (''input_commit'', Object [(''commitment'', Str (unwrap (commit demo Input [] (replicate 32 0))))])]"

lemma disclosure_demo_opens: "opens_to demo [disclosure_record] disclosure_demo []"
proof -
  have "lp_fits ([] :: u8 list)" by (simp add: MAX_LP_LEN_def)
  then obtain c where c: "commit demo Input [] (replicate 32 0) = Ok c"
    using commit_preimage_Ok [of Input "[]" "replicate 32 0"] by (auto simp: commit_def NONCE_LEN_def)
  have "disclosed disclosure_demo = Some (''r'', ''input'', encode [], hex_lower (replicate 32 0))"
    by (simp add: disclosed_def disclosure_demo_def field_str_def get_Object as_str_def)
  moreover have "field_domain_parse ''input'' = Some Input" by (simp add: field_domain_parse_def)
  moreover have "commitment_of [disclosure_record] ''r'' ''input'' = Some c"
    by (simp add: commitment_of_def first_with_id_def disclosure_record_def field_str_def get_Object as_str_def c)
  moreover have "decode (encode []) = Ok ([] :: bytes)" by (rule decode_encode)
  moreover have "hex32 (hex_lower (replicate 32 0)) = Some (replicate 32 0)" by (simp add: hex32_iff)
  moreover have "verify_commitment demo c Input [] (replicate 32 0)" using c by (simp add: verify_commitment_iff)
  ultimately show ?thesis unfolding opens_to_def by blast
qed

theorem disclosures_accounted_witness:
  "\<exists>creds. verify_disclosures demo (Object [(''disclosures'', Array [disclosure_demo])]) [disclosure_record] [BadValue 7] = (1, 1, creds, [BadValue 7])"
proof -
  have "get (Object [(''disclosures'', Array [disclosure_demo])]) ''disclosures'' = Some (Array [disclosure_demo])" by (simp add: get_Object)
  from disclosures_accounted [OF this, of demo "[disclosure_record]" "[BadValue 7]"]
  show ?thesis using disclosure_demo_opens by auto
qed

end
