(* ===== verification/Spec2Isabelle.thy ===== *)
theory Spec2Isabelle
  imports Canon_Guarantees Record_Guarantees Dag Checkpoint Anchor Verdict Refusal Authority Temporal Segment_Compose Chain_State Anchor_Times Committed_Brokers Segment_Split Disclosures
begin

text \<open>
  A verification development of the Averin core library, the Rust crate under \<open>src/core\<close>: the
  flight recorder's data format and the offline verifier that every other part (the Go server, the
  SDKs, the browser and command line verifiers) relies on.

  \<^bold>\<open>The program.\<close> An agent's actions are recorded as JSON records. A record is parsed and written in
  one canonical form (\<open>canon.rs\<close>), hashed under a domain, signed (\<open>record.rs\<close>, \<open>sign.rs\<close>, \<open>hashx.rs\<close>,
  \<open>b64.rs\<close>), may hide fields behind commitments (\<open>commit.rs\<close>), and names its causal parents by hash, so
  the records form a graph (\<open>dag.rs\<close>). Signed checkpoints summarise the graph and form a hash chain
  (\<open>checkpoint.rs\<close>), whose members are anchored in time by a third party (\<open>anchor.rs\<close>). A record may
  carry evidence of the authority it acted under (\<open>authority.rs\<close>), and refused attempts are recorded
  too (\<open>refusal.rs\<close>). The verifier (\<open>verify.rs\<close> and \<open>verify/\<close>) checks a bundle of all this against keys
  pinned by the caller, evaluates revocation lists and Merkle proofs against them (\<open>verify/temporal.rs\<close>),
  and reduces the checked facts to claims and one headline word (\<open>verify/verdict.rs\<close>,
  \<open>verify/headline.rs\<close>). A long history is kept as one bundle per month, each chained to the month before
  (\<open>segment.rs\<close>).

  \<^bold>\<open>The theories\<close>, in the order they build on each other:
  \<^item> \<open>Averin_Base\<close> is the prelude (results, bytes, strings, \<open>i64\<close>), \<open>Utf8\<close> the UTF-8 and UTF-16 texts,
    \<open>Btree\<close> the ordered map of the standard library with the locale \<open>ordered_map\<close> its clients use.
  \<^item> \<open>Hashx\<close> and \<open>B64\<close> model \<open>hashx.rs\<close> and \<open>b64.rs\<close>. The locale \<open>frame\<close> states what a framed byte string
    promises; length prefixes, 64-bit numbers and digests are its interpretations, and every argument
    that a preimage determines its parts goes through it.
  \<^item> \<open>Canon_Order\<close>, \<open>Canon_Value\<close>, \<open>Canon_Parse\<close> model \<open>canon.rs\<close>: the merge sort on key positions, the
    value type and the writer, and the parser with every error position. \<open>Canon_Total\<close> shows that the
    parser returns and what it accepts, \<open>Canon_Roundtrip\<close> that it reads what the writer writes, and
    \<open>Canon_Guarantees\<close> states the properties.
  \<^item> \<open>Crypto\<close> models \<open>sign.rs\<close> and \<open>commit.rs\<close>, \<open>Decision_Record\<close> models \<open>record.rs\<close>; the locale
    \<open>sealed_body\<close> is the contract of a document hashed without some of its keys, interpreted for records
    and for checkpoints. \<open>Record_Guarantees\<close> states the properties of the three and defines the concrete
    externals \<open>demo\<close> the witnesses use. \<open>Object_Fields\<close> holds the shared lemmas on object fields.
  \<^item> \<open>Dag\<close> models \<open>dag.rs\<close>: the index, the edges, Kahn's sort and the heads, with an invariant of the
    sort's state kept by every step.
  \<^item> \<open>Checkpoint\<close>, \<open>Anchor\<close>, \<open>Authority\<close> and \<open>Refusal\<close> model the files of those names.
  \<^item> \<open>Merkle\<close> models the challenge preimages, the grant log chain, the revocation tree, audit paths and
    revocation proofs of \<open>verify.rs\<close>; \<open>Timestamps\<close> and \<open>Temporal\<close> model \<open>verify/temporal.rs\<close>.
  \<^item> \<open>Verdict\<close> models the claim kernel and the headline.
  \<^item> \<open>Segment\<close> models the segment block and the chain rules of one month, \<open>Dag_Append\<close> joins two graphs,
    \<open>Segment_Compose\<close> shows that a month behind a history is a history again, \<open>Chain_State\<close> models the walk over the months with the
    rebuilt history and its verdict, \<open>Segment_Split\<close> the split of a history into months.
  \<^item> \<open>Closure\<close> models what a frontier commits, \<open>Committed\<close> the committed broker log of \<open>verify.rs\<close> and its
    incremental form in \<open>verify/committed.rs\<close>: the numbered graph, the log index, the cursor, the walk for
    all brokers and the anchor times. \<open>Committed_Exact\<close>, \<open>Committed_Brokers\<close> and \<open>Anchor_Times\<close> show that the
    incremental forms compute what the definitions from scratch do.
  \<^item> \<open>Disclosures\<close> models \<open>verify_disclosures\<close> of \<open>verify.rs\<close>.

  \<^bold>\<open>How the model reads the code.\<close> A struct is a record, an enum a datatype, a function a definition of
  the same name (with a prefix or suffix where two files share a name or the name is taken), a loop a
  recursive function, an early return an \<open>Err\<close> of the datatype \<open>result\<close>. A \<open>u8\<close> is an \<^typ>\<open>8 word\<close>, a
  \<open>u64\<close> a \<^typ>\<open>64 word\<close>, an \<open>i64\<close> an \<^typ>\<open>int\<close> with its range and every wrap or check written out, and
  a string is the list of its UTF-8 bytes as characters. An error text that the code formats is a
  constructor that carries what is formatted. The process-wide counter of shape violations is an
  argument and a result of the sealing functions. Panics are \<open>Code.abort\<close> or \<open>Err\<close>, and shown
  unreachable.

  \<^bold>\<open>Parameters.\<close> Code outside the repository is the record \<open>externals\<close>: SHA-256, Ed25519 and the Unicode
  normalization. The hypotheses on them are \<open>sha256_ok\<close> (digests have 32 bytes), \<open>ed25519_ok\<close> (a
  signature has 64 bytes and verifies under its key, key bytes decode to the key) and \<open>nfc_ok\<close>
  (normalization is idempotent and yields valid strings). No theorem assumes that SHA-256 has no
  collisions: where a hash binds, the conclusion names the byte strings that would collide. The
  RFC 3161 verifier, compiled in by a feature flag, is an optional argument of the anchor functions.

  \<^bold>\<open>Fuel and termination.\<close> The parser recurses on nesting with fuel \<open>MAX_DEPTH + 1\<close>; the depth check makes
  that enough, and \<open>parse_document_total\<close> shows that it always returns. Kahn's loop has one unit of fuel
  per indexed record and one more; \<open>build_from_returns\<close> shows that this is enough. The other loops are
  structural or have a termination measure.

  \<^bold>\<open>What is shown.\<close>
  \<^item> Canonical form: the writer refines a specification of the text, the text parses back to the
    canonical value, two values share a text only if they share the canonical form; the parser accepts
    well-formed values only; the index sort is the stable sort by UTF-16 units.
  \<^item> Records and commitments: what is sealed verifies, a content hash binds the canonical body, the
    strict and the shadow mode behave as stated; commitments bind domain, value and nonce.
  \<^item> Graph and checkpoints: the topological order, the cycle error, the heads and the index; an
    accepted chain has no gap and no fork and its head summarises the graph; the hash of the head
    determines the hashes of the whole history.
  \<^item> Anchors, authority, refusals: signatures bind exactly what the verifier reports; evidence signed
    for a record verifies after the recorder's envelope was added; refusals are counted once.
  \<^item> Revocation: audit paths and both versions of revocation proofs are sound for the list the tree was
    built from, the grant log root determines the log, timestamps compare as texts, and the
    classification of a receipt is exactly the stated condition on all sources.
  \<^item> Claims: they are ordered by strength, refuted exactly by their adverse facts, monotone in the
    supporting facts, and the headline read from a report is the kernel's decision.
  \<^item> Months: an accepted month that repeats no record of an accepted history and whose earlier parents
    are there extends it to an accepted history; the walk over the months has no issue
    exactly when every month follows the earlier ones in a declarative specification; the rebuilt
    history holds the months' records once each, and a passing verdict is that of the whole-history
    verifier on it; splitting a well-formed history gives every record exactly one month,
    and the count that ends a split is exact when checkpoints commit only records of the bundle.
  \<^item> Committed log: the committed set is reachability; the cursor's invariant (marks are the closure of
    the last frontier, the kept log, accumulators and gap are those of the marks) holds after any
    sequence of frontiers, so its answers are those of the log from scratch; the anchor times are
    minima over all anchors; the broker walk and the duplicate check are exact.
  \<^item> Disclosures: each is verified or reported once, and verified ones open their record's commitment.

  \<^bold>\<open>Not modelled.\<close> The collection of the facts of one bundle in \<open>verify.rs\<close> (key status, use receipts,
  attestations, delegation, federation) is a long sequence of report fields over the parts above; the
  verifier enters the chain of months as an argument. The per-thread counters of
  \<open>verify/committed.rs\<close> only serve tests. The C ABI and WASM glue (\<open>ffi.rs\<close>), the DER
  and CMS processing of RFC 3161 (\<open>rfc3161.rs\<close>), the command line (\<open>bin/\<close>) and the generated Kani case
  list are pointer, format or process glue around the code modelled here; drawing a random nonce is
  I/O. The other languages of the repository are outside this development.
\<close>

end
